(* ===== verification/Velox_Prelude.thy ===== *)
theory Velox_Prelude
  imports Main "HOL-Library.Word"
begin

text \<open>
  Shared vocabulary of the VeloxOS development: the C integer types, the way the kernel stops
  (\<^verbatim>\<open>panic\<close> in \<^verbatim>\<open>kernel/panic.c\<close>), the power-of-two alignment helpers every memory
  component carries a copy of, counted loops over \<open>u64\<close>, and the arithmetic facts about machine
  words that the component theories use.
\<close>

unbundle bit_operations_syntax

section \<open>Types\<close>

type_synonym u8 = "8 word"
type_synonym u16 = "16 word"
type_synonym u32 = "32 word"
type_synonym u64 = "64 word"

abbreviation UINT64_MAX :: u64 where
  "UINT64_MAX \<equiv> - 1"

text \<open>
  A call that may not return normally yields a sum: \<open>Inl (Panic msg)\<close> when the code calls
  \<^verbatim>\<open>panic(msg)\<close>, \<open>Inl Halt\<close> when it stops the processor for good, \<open>Inl Overrun\<close> when
  it accesses an array outside its bounds, which C leaves undefined, and \<open>Inr\<close> of the result
  otherwise.
\<close>

datatype halt = Panic string | Halt | Overrun

type_synonym 'a outcome = "halt + 'a"

text \<open>Sequencing: the second step runs on the first one's result unless the first one stopped.\<close>

definition andthen :: "'a outcome \<Rightarrow> ('a \<Rightarrow> 'b outcome) \<Rightarrow> 'b outcome" where
  "andthen m f = (case m of Inl h \<Rightarrow> Inl h | Inr x \<Rightarrow> f x)"

text \<open>Either the call returns a result that satisfies \<open>P\<close>, or it stops and \<open>S\<close> holds.\<close>

definition safely :: "'a outcome \<Rightarrow> bool \<Rightarrow> ('a \<Rightarrow> bool) \<Rightarrow> bool" where
  "safely m S P = (case m of Inl h \<Rightarrow> S | Inr x \<Rightarrow> P x)"

text \<open>A loop whose body may stop the kernel.\<close>

fun fold_outcome :: "('a \<Rightarrow> 's \<Rightarrow> 's outcome) \<Rightarrow> 'a list \<Rightarrow> 's \<Rightarrow> 's outcome" where
  "fold_outcome f [] s = Inr s"
| "fold_outcome f (x # xs) s = andthen (f x s) (fold_outcome f xs)"

text \<open>A call that may also never return: \<open>None\<close> is the run that does not end.\<close>

type_synonym 'a run = "'a outcome option"

abbreviation ret :: "'a \<Rightarrow> 'a run" where
  "ret x \<equiv> Some (Inr x)"

definition run_bind :: "'a run \<Rightarrow> ('a \<Rightarrow> 'b run) \<Rightarrow> 'b run" where
  "run_bind m f = (case m of None \<Rightarrow> None | Some (Inl h) \<Rightarrow> Some (Inl h) | Some (Inr x) \<Rightarrow> f x)"

text \<open>What holds of the result of a run that returns one.\<close>

definition yields :: "'a run \<Rightarrow> ('a \<Rightarrow> bool) \<Rightarrow> bool" where
  "yields m Q \<longleftrightarrow> (\<forall>x. m = ret x \<longrightarrow> Q x)"

named_theorems word_nat \<comment> \<open>rewrites that read a machine word as a natural number\<close>

section \<open>Alignment\<close>

text \<open>
  \<^verbatim>\<open>align_up\<close> and \<^verbatim>\<open>align_down\<close> are \<^verbatim>\<open>static inline\<close> copies in
  \<^verbatim>\<open>mm/pmm.c\<close>, \<^verbatim>\<open>mm/paging.c\<close>, \<^verbatim>\<open>mm/vmalloc.c\<close> and, as
  \<^verbatim>\<open>align_up_sz\<close>, \<^verbatim>\<open>mm/kmalloc.c\<close>, all with the same text.
\<close>

definition align_up :: "u64 \<Rightarrow> u64 \<Rightarrow> u64" where
  "align_up value align = (value + align - 1) AND NOT (align - 1)"

definition align_down :: "u64 \<Rightarrow> u64 \<Rightarrow> u64" where
  "align_down value align = value AND NOT (align - 1)"

section \<open>Counted loops\<close>

text \<open>
  The values a loop \<^verbatim>\<open>for (uint64_t i = a; i < b; i++)\<close> runs through, in order.
\<close>

definition word_range :: "u64 \<Rightarrow> u64 \<Rightarrow> u64 list" where
  "word_range a b = map word_of_nat [unat a..<unat b]"

text \<open>
  The values a loop \<^verbatim>\<open>for (uint64_t a = first; a < last; a += step)\<close> runs through, for a
  counter that does not pass \<open>2 ^ 64\<close> on its way (\<open>step_range_loop\<close> below).
\<close>

definition step_range :: "u64 \<Rightarrow> u64 \<Rightarrow> u64 \<Rightarrow> u64 list" where
  "step_range step a b =
     map (\<lambda>k. a + word_of_nat k * step) [0..<(unat b - unat a + (unat step - 1)) div unat step]"

section \<open>Words as natural numbers\<close>

lemma unat_lt_64: "unat (v :: u64) < 18446744073709551616"
  using unsigned_less [of v, where ?'a = nat] by simp

lemma unat_word_of_nat_64 [word_nat]: "n < 18446744073709551616 \<Longrightarrow> unat (word_of_nat n :: u64) = n"
  by (simp add: unat_of_nat)

lemma and_not_mask_shift: "v AND NOT (mask k) = push_bit k (drop_bit k v)" for v :: "'a::len word"
  by (rule bit_word_eqI) (auto simp: bit_simps)

lemma unat_and_not_mask: "unat (v AND NOT (mask k)) = unat v div 2 ^ k * 2 ^ k" for v :: "'a::len word"
proof -
  have "unat (push_bit k (drop_bit k v)) = take_bit LENGTH('a) (push_bit k (drop_bit k (unat v)))"
    by (simp add: unsigned_push_bit_eq unat_drop_bit_eq)
  also have "\<dots> = push_bit k (drop_bit k (unat v))"
  proof (rule take_bit_nat_eq_self)
    have "unat v div 2 ^ k * 2 ^ k \<le> unat v" by simp
    also have "\<dots> < 2 ^ LENGTH('a)" by (rule unsigned_less)
    finally show "push_bit k (drop_bit k (unat v)) < 2 ^ LENGTH('a)"
      by (simp add: push_bit_eq_mult drop_bit_eq_div)
  qed
  finally show ?thesis
    by (simp add: and_not_mask_shift push_bit_eq_mult drop_bit_eq_div)
qed

lemma unat_and_mask: "unat (v AND mask k) = unat v mod 2 ^ k" for v :: "'a::len word"
proof -
  have "unat (take_bit k v) = take_bit k (unat v)" by (rule unsigned_take_bit_eq)
  also have "\<dots> = unat v mod 2 ^ k" by (rule take_bit_eq_mod)
  finally show ?thesis by (simp only: take_bit_eq_mask)
qed

lemma unat_pow2_64: "k < 64 \<Longrightarrow> unat (2 ^ k :: u64) = 2 ^ k"
proof -
  assume "k < 64"
  then have "(2 :: nat) ^ k < 2 ^ 64" by (rule power_strict_increasing) simp
  then have "unat (word_of_nat (2 ^ k) :: u64) = 2 ^ k"
    by (simp only: unat_of_nat len_num1 len_bit0 mod_less) (simp add: mod_less)
  then show ?thesis by simp
qed

lemma unat_pow2_minus_1: "k < 64 \<Longrightarrow> unat (2 ^ k - 1 :: u64) = 2 ^ k - 1"
proof -
  assume k: "k < 64"
  then have "(2 ^ k :: u64) \<noteq> 0" using unat_pow2_64 [OF k] by auto
  then show ?thesis using k by (simp add: unat_minus_one unat_pow2_64)
qed

lemma unat_align_down: "unat (align_down v (2 ^ k)) = unat v div 2 ^ k * 2 ^ k"
  using unat_and_not_mask [of v k] by (simp add: align_down_def mask_eq_exp_minus_1)

lemma unat_align_up_raw: "unat (align_up v (2 ^ k)) = unat (v + 2 ^ k - 1) div 2 ^ k * 2 ^ k"
  using unat_and_not_mask [of "v + 2 ^ k - 1" k] by (simp only: align_up_def mask_eq_exp_minus_1)

lemma unat_align_up:
  assumes "k < 64" and "unat v + (2 ^ k - 1) < 2 ^ 64"
  shows "unat (align_up v (2 ^ k)) = (unat v + (2 ^ k - 1)) div 2 ^ k * 2 ^ k"
proof -
  have "unat (2 ^ k - 1 :: u64) = 2 ^ k - 1"
    using assms(1) by (rule unat_pow2_minus_1)
  then have "unat (v + (2 ^ k - 1)) = unat v + (2 ^ k - 1)"
    using assms(2) by (simp add: unat_plus_if')
  then show ?thesis by (simp add: unat_align_up_raw add_diff_eq)
qed

lemma align_up_wraps:
  assumes "k < 64" and "2 ^ 64 \<le> unat v + (2 ^ k - 1)"
  shows "align_up v (2 ^ k) = 0"
proof -
  have one: "unat (2 ^ k - 1 :: u64) = 2 ^ k - 1"
    using assms(1) by (rule unat_pow2_minus_1)
  then have "unat (v + (2 ^ k - 1)) = unat v + (2 ^ k - 1) - 2 ^ 64"
    using assms(2) by (simp add: unat_plus_if')
  also have "\<dots> < 2 ^ k" using unat_lt_64 [of v] assms(2) by (simp add: less_diff_conv2)
  finally have "unat (align_up v (2 ^ k)) = 0" by (simp add: unat_align_up_raw add_diff_eq)
  then show ?thesis by (simp add: unat_eq_zero)
qed

text \<open>The instances for the 4 KiB pages of the memory manager.\<close>

lemma unat_align_down_4k [word_nat]: "unat (align_down v 4096) = unat v div 4096 * 4096"
  using unat_align_down [of v 12] by simp

lemma unat_align_up_4k [word_nat]:
  "unat v \<le> 18446744073709547520 \<Longrightarrow> unat (align_up v 4096) = (unat v + 4095) div 4096 * 4096"
  using unat_align_up [of 12 v] by simp

lemma align_up_4k_wraps: "18446744073709547520 < unat v \<Longrightarrow> align_up v 4096 = 0"
  using align_up_wraps [of 12 v] by simp

lemma unat_align_up_8 [word_nat]:
  "unat v \<le> 18446744073709551608 \<Longrightarrow> unat (align_up v 8) = (unat v + 7) div 8 * 8"
  using unat_align_up [of 3 v] by simp

lemma align_up_4k_zero_or_small: "align_up v 4096 \<noteq> 0 \<Longrightarrow> unat v \<le> 18446744073709547520"
  using align_up_4k_wraps [of v] by force

lemma unat_div_4k [word_nat]: "unat (v div 4096 :: u64) = unat v div 4096"
  by (simp add: unat_div)

lemma unat_and_4095 [word_nat]: "unat (v AND 4095) = unat v mod 4096" for v :: u64
  using unat_and_mask [of v 12] by (simp add: mask_eq_exp_minus_1)

lemma and_4095_zero: "v AND 4095 = 0 \<longleftrightarrow> unat v mod 4096 = 0" for v :: u64
  by (metis unat_and_4095 unsigned_0 word_unat_eq_iff)

lemma unat_mult_4k [word_nat]: "unat p < 4503599627370496 \<Longrightarrow> unat (p * 4096 :: u64) = unat p * 4096"
  using unat_mult_lem [of p 4096] by simp

section \<open>Facts about counted loops\<close>

lemma fold_frame: "(\<And>x s. f (g x s) = f s) \<Longrightarrow> f (fold g xs s) = f s"
  by (induction xs arbitrary: s) auto

lemma set_word_range [simp]: "set (word_range a b) = {x. a \<le> x \<and> x < b}"
proof -
  have "x \<in> set (word_range a b)" if "a \<le> x" "x < b" for x
    using that by (auto simp: word_range_def word_le_nat_alt word_less_nat_alt image_iff
        intro!: bexI [of _ "unat x"])
  moreover have "a \<le> word_of_nat n \<and> word_of_nat n < b" if "unat a \<le> n" "n < unat b" for n
    using that unat_lt_64 [of b] by (simp add: word_le_nat_alt word_less_nat_alt word_nat)
  ultimately show ?thesis by (auto simp: word_range_def)
qed

lemma word_range_empty: "b \<le> a \<Longrightarrow> word_range a b = []"
  by (simp add: word_range_def word_le_nat_alt)

lemma length_word_range: "length (word_range a b) = unat b - unat a"
  by (simp add: word_range_def)

section \<open>Facts about loops and sequencing\<close>

lemma andthen_simps [simp]: "andthen (Inl h) f = Inl h" "andthen (Inr x) f = f x"
  by (simp_all add: andthen_def)

lemma andthen_Inr_iff: "andthen m f = Inr y \<longleftrightarrow> (\<exists>x. m = Inr x \<and> f x = Inr y)"
  by (cases m) auto

lemma andthen_InrE:
  assumes "andthen m f = Inr y"
  obtains x where "m = Inr x" "f x = Inr y"
  using assms by (auto simp: andthen_Inr_iff)

lemma run_bind_simps [simp]: "run_bind None f = None" "run_bind (Some (Inl h)) f = Some (Inl h)" "run_bind (ret x) f = f x"
  by (simp_all add: run_bind_def)

lemma run_bind_ret_iff: "run_bind m f = ret y \<longleftrightarrow> (\<exists>x. m = ret x \<and> f x = ret y)"
  by (auto simp: run_bind_def split: option.splits sum.splits)

lemma run_bind_mono [partial_function_mono]:
  assumes "mono_option B" and "\<And>y. mono_option (C y)"
  shows "mono_option (\<lambda>f. run_bind (B f) (\<lambda>y. C y f))"
proof (rule monotoneI)
  fix f g :: "'a \<Rightarrow> 'b option"
  assume fg: "fun_ord option_ord f g"
  then have "option_ord (B f) (B g)" and "\<forall>y. option_ord (C y f) (C y g)"
    using assms by (auto dest: monotoneD)
  then show "option_ord (run_bind (B f) (\<lambda>y. C y f)) (run_bind (B g) (\<lambda>y. C y g))"
    by (cases "B g") (auto simp: flat_ord_def run_bind_def split: option.split sum.split)
qed

lemma run_bind_cong [fundef_cong]: "m = m' \<Longrightarrow> (\<And>x. m' = ret x \<Longrightarrow> f x = f' x) \<Longrightarrow> run_bind m f = run_bind m' f'"
  by (auto simp: run_bind_def split: option.split sum.split)

lemma yields_simps [simp]: "yields (ret x) Q = Q x" "yields (Some (Inl h)) Q" "yields None Q"
    "yields (run_bind m f) Q = yields m (\<lambda>x. yields (f x) Q)"
  by (auto simp: yields_def run_bind_ret_iff)

lemma yields_mono: "yields m Q \<Longrightarrow> (\<And>x. m = ret x \<Longrightarrow> Q x \<Longrightarrow> Q' x) \<Longrightarrow> yields m Q'"
  by (simp add: yields_def)

lemma yieldsD: "yields m Q \<Longrightarrow> m = ret x \<Longrightarrow> Q x"
  by (simp add: yields_def)

lemma safely_simps [simp]: "safely (Inl h) S P = S" "safely (Inr x) S P = P x"
  by (simp_all add: safely_def)

lemma safely_andthen:
  "safely m S P \<Longrightarrow> (\<And>x. P x \<Longrightarrow> safely (f x) S Q) \<Longrightarrow> safely (andthen m f) S Q"
  by (cases m) auto

lemma safely_mono:
  "safely m S P \<Longrightarrow> (S \<Longrightarrow> S') \<Longrightarrow> (\<And>x. P x \<Longrightarrow> P' x) \<Longrightarrow> safely m S' P'"
  by (cases m) auto

lemma safely_bind:
  "safely m S' P \<Longrightarrow> (S' \<Longrightarrow> S) \<Longrightarrow> (\<And>x. P x \<Longrightarrow> safely (f x) S Q) \<Longrightarrow> safely (andthen m f) S Q"
  by (cases m) auto

lemma safely_InrD: "safely m S P \<Longrightarrow> m = Inr x \<Longrightarrow> P x"
  by simp

lemma safely_returns: "safely m S P \<Longrightarrow> \<not> S \<Longrightarrow> \<exists>x. m = Inr x \<and> P x"
  by (cases m) auto

lemma fold_outcome_append:
  "fold_outcome f (xs @ ys) s = andthen (fold_outcome f xs s) (fold_outcome f ys)"
  by (induction xs arbitrary: s) (auto simp: andthen_def split: sum.splits)

lemma step_range_empty [simp]: "b \<le> a \<Longrightarrow> step \<noteq> 0 \<Longrightarrow> step_range step a b = []"
proof -
  assume "b \<le> a" and "step \<noteq> 0"
  then have "unat b - unat a = 0" and "unat step - 1 < unat step"
    using unat_gt_0 [of step] by (simp_all add: word_le_nat_alt)
  then show ?thesis by (simp only: step_range_def add_0 div_less) simp
qed

lemma step_range_loop:
  assumes "0 < step" and "a < b" and "unat b + unat step \<le> 2 ^ 64"
  shows "step_range step a b = a # step_range step (a + step) b"
proof -
  define n where "n = (unat b - unat a + (unat step - 1)) div unat step"
  define m where "m = (unat b - unat (a + step) + (unat step - 1)) div unat step"
  have st: "0 < unat step" and ab: "unat a < unat b"
    using assms(1,2) by (simp_all add: word_less_nat_alt)
  have "unat (a + step) = unat a + unat step" using ab assms(3) by (simp add: unat_plus_if')
  then have "n = Suc m"
  proof (cases "unat a + unat step \<le> unat b")
    case True
    then have "unat b - unat a + (unat step - 1) = (unat b - unat (a + step) + (unat step - 1)) + unat step"
      using \<open>unat (a + step) = unat a + unat step\<close> by simp
    then show ?thesis unfolding n_def m_def using st by (simp only: div_add_self2)
  next
    case False
    then have "m = 0" using st \<open>unat (a + step) = unat a + unat step\<close> by (simp add: m_def)
    moreover have "n = 1"
      unfolding n_def using False ab st by (intro div_nat_eqI) simp_all
    ultimately show ?thesis by simp
  qed
  then have "[0..<n] = 0 # map Suc [0..<m]" by (simp add: upt_conv_Cons map_Suc_upt)
  then show ?thesis unfolding step_range_def n_def [symmetric] m_def [symmetric]
    by (simp add: algebra_simps)
qed

end
