(* ===== verification/Boot.thy ===== *)
theory Boot
  imports Velox_Prelude
begin

text \<open>
  The boot hand-over: \<^verbatim>\<open>boot/boot.h\<close> (the memory map and framebuffer records) and
  \<^verbatim>\<open>limine_init\<close> of \<^verbatim>\<open>boot/boot.c\<close>, which copies what the boot loader
  answered into kernel-owned globals. The boot loader itself is outside the sources: its answers
  are the record \<open>limine_responses\<close>, an argument of \<open>limine_init\<close>.
\<close>

section \<open>Data of boot.h\<close>

datatype memory_map_type =
    MEMMAP_USABLE
  | MEMMAP_RESERVED
  | MEMMAP_ACPI_RECLAIMABLE
  | MEMMAP_ACPI_NVS
  | MEMMAP_BAD_MEMORY
  | MEMMAP_BOOTLOADER_RECLAIMABLE
  | MEMMAP_KERNEL_AND_MODULES
  | MEMMAP_FRAMEBUFFER
  | MEMMAP_OTHER u64 \<comment> \<open>a value the enumeration does not name, kept by the C cast\<close>

record memory_map_entry =
  mm_base :: u64
  mm_length :: u64
  mm_type :: memory_map_type

record boot_framebuffer =
  fb_address :: u64 \<comment> \<open>0 is the null pointer\<close>
  fb_width :: u64
  fb_height :: u64
  fb_pitch :: u64
  fb_bpp :: u16
  fb_red_mask_size :: u8
  fb_red_mask_shift :: u8
  fb_green_mask_size :: u8
  fb_green_mask_shift :: u8
  fb_blue_mask_size :: u8
  fb_blue_mask_shift :: u8

text \<open>
  A \<^verbatim>\<open>BootMemoryMap\<close> pointer is an option: \<open>None\<close> for a null map or a null
  \<^verbatim>\<open>entries\<close> pointer, \<open>Some es\<close> for the entries, \<^verbatim>\<open>count\<close> being the
  length of \<open>es\<close>.
\<close>

type_synonym boot_memory_map = "memory_map_entry list option"

section \<open>boot.c\<close>

definition BOOT_MEMMAP_MAX_ENTRIES :: nat where
  "BOOT_MEMMAP_MAX_ENTRIES = 512"

text \<open>
  What the loader wrote into the request slots; \<open>None\<close> is a null response pointer. Memory map
  entries are pointers and may be null one by one; their type field is the raw protocol number.
\<close>

record 'mp limine_responses =
  hhdm_response :: "u64 option"
  rsdp_response :: "u64 option"
  mp_response :: "'mp option"
  framebuffer_response :: "boot_framebuffer list option"
  memmap_response :: "(u64 \<times> u64 \<times> u64) option list option"

record 'mp boot_globals =
  g_framebuffer :: boot_framebuffer
  g_memory_map :: boot_memory_map
  g_hhdm_offset :: u64
  g_rsdp_address :: u64
  g_mp_response :: "'mp option"

definition memory_map_type_of :: "u64 \<Rightarrow> memory_map_type" where
  "memory_map_type_of t =
     (if t = 0 then MEMMAP_USABLE
      else if t = 1 then MEMMAP_RESERVED
      else if t = 2 then MEMMAP_ACPI_RECLAIMABLE
      else if t = 3 then MEMMAP_ACPI_NVS
      else if t = 4 then MEMMAP_BAD_MEMORY
      else if t = 5 then MEMMAP_BOOTLOADER_RECLAIMABLE
      else if t = 6 then MEMMAP_KERNEL_AND_MODULES
      else if t = 7 then MEMMAP_FRAMEBUFFER
      else MEMMAP_OTHER t)"

fun copy_memmap :: "(u64 \<times> u64 \<times> u64) option list \<Rightarrow> memory_map_entry list outcome" where
  "copy_memmap [] = Inr []"
| "copy_memmap (None # es) = Inl Halt"
| "copy_memmap (Some (b, l, t) # es) =
     (case copy_memmap es of
        Inl h \<Rightarrow> Inl h
      | Inr ms \<Rightarrow> Inr (\<lparr>mm_base = b, mm_length = l, mm_type = memory_map_type_of t\<rparr> # ms))"

definition limine_init :: "'mp limine_responses \<Rightarrow> 'mp boot_globals \<Rightarrow> 'mp boot_globals outcome" where
  "limine_init r g =
     (case hhdm_response r of
        None \<Rightarrow> Inl Halt
      | Some off \<Rightarrow>
          (let g1 = g\<lparr>g_hhdm_offset := off\<rparr>;
               g2 = (case rsdp_response r of None \<Rightarrow> g1 | Some a \<Rightarrow> g1\<lparr>g_rsdp_address := a\<rparr>);
               g3 = (case mp_response r of None \<Rightarrow> g2 | Some m \<Rightarrow> g2\<lparr>g_mp_response := Some m\<rparr>)
           in case framebuffer_response r of
                None \<Rightarrow> Inl Halt
              | Some [] \<Rightarrow> Inl Halt
              | Some (fb # _) \<Rightarrow>
                  (let g4 = g3\<lparr>g_framebuffer := fb\<rparr>
                   in case memmap_response r of
                        None \<Rightarrow> Inl Halt
                      | Some es \<Rightarrow>
                          (if length es > BOOT_MEMMAP_MAX_ENTRIES then Inl Halt
                           else case copy_memmap es of
                                  Inl h \<Rightarrow> Inl h
                                | Inr ms \<Rightarrow> Inr (g4\<lparr>g_memory_map := Some ms\<rparr>)))))"

section \<open>What the hand-over keeps\<close>

lemma copy_memmap_length: "copy_memmap es = Inr ms \<Longrightarrow> length ms = length es"
  by (induction es arbitrary: ms rule: copy_memmap.induct) (auto split: sum.splits)

lemma copy_memmap_no_null: "(\<exists>ms. copy_memmap es = Inr ms) \<longleftrightarrow> None \<notin> set es"
  by (induction es rule: copy_memmap.induct) (auto split: sum.splits)

lemma limine_init_bounded:
  "limine_init r g = Inr g' \<Longrightarrow>
     \<exists>ms. g_memory_map g' = Some ms \<and> length ms \<le> BOOT_MEMMAP_MAX_ENTRIES"
  by (auto simp: limine_init_def Let_def dest!: copy_memmap_length
      split: option.splits list.splits if_splits sum.splits)

end
