(* ===== verification/Interfaces.thy ===== *)
theory Interfaces
  imports Velox_Prelude
begin

text \<open>
  The contracts between the components. Each locale fixes the operations a client calls and
  assumes the laws the provider promises; what follows from the laws alone is proved here once.
  The providing component's theory interprets the locale on the code's own definitions.
\<close>

section \<open>A source of single pages\<close>

text \<open>
  \<open>alloc\<close> hands out one page address or reports exhaustion, \<open>release\<close> takes one back.
  \<open>avail\<close> is the set of pages that may still be handed out, \<open>managed\<close> the pages the source
  is responsible for, \<open>ok\<close> its state invariant.
\<close>

fun alloc_seq :: "('s \<Rightarrow> u64 option \<times> 's) \<Rightarrow> nat \<Rightarrow> 's \<Rightarrow> u64 list \<times> 's" where
  "alloc_seq alloc 0 s = ([], s)"
| "alloc_seq alloc (Suc n) s =
     (case alloc s of
        (None, s') \<Rightarrow> ([], s')
      | (Some a, s') \<Rightarrow> (case alloc_seq alloc n s' of (as, s'') \<Rightarrow> (a # as, s'')))"

locale page_source =
  fixes alloc :: "'s \<Rightarrow> u64 option \<times> 's"
    and release :: "u64 \<Rightarrow> 's \<Rightarrow> 's"
    and avail :: "'s \<Rightarrow> u64 set"
    and managed :: "'s \<Rightarrow> u64 set"
    and ok :: "'s \<Rightarrow> bool"
  assumes alloc_Some:
      "ok s \<Longrightarrow> alloc s = (Some a, s') \<Longrightarrow>
         ok s' \<and> a \<in> avail s \<and> avail s' = avail s - {a} \<and> managed s' = managed s"
    and alloc_None: "ok s \<Longrightarrow> alloc s = (None, s') \<Longrightarrow> s' = s \<and> avail s = {}"
    and release_law:
      "ok s \<Longrightarrow>
         ok (release a s) \<and> managed (release a s) = managed s \<and>
         avail (release a s) = avail s \<union> ({a} \<inter> managed s)"
    and avail_managed: "ok s \<Longrightarrow> avail s \<subseteq> managed s"
begin

lemma alloc_total: "ok s \<Longrightarrow> avail s \<noteq> {} \<Longrightarrow> \<exists>a s'. alloc s = (Some a, s')"
  by (metis alloc_None not_None_eq surj_pair)

lemma alloc_release: "ok s \<Longrightarrow> alloc s = (Some a, s') \<Longrightarrow> avail (release a s') = avail s"
  using alloc_Some [of s a s'] release_law [of s' a] avail_managed [of s] by auto

lemma release_twice: "ok s \<Longrightarrow> avail (release a (release a s)) = avail (release a s)"
  using release_law [of s a] release_law [of "release a s" a] by auto

lemma alloc_seq_spec:
  "ok s \<Longrightarrow> alloc_seq alloc n s = (as, s') \<Longrightarrow>
     ok s' \<and> distinct as \<and> set as \<subseteq> avail s \<and> avail s' = avail s - set as \<and> managed s' = managed s"
proof (induction n arbitrary: s as s')
  case 0
  then show ?case by simp
next
  case (Suc n)
  show ?case
  proof (cases "alloc s")
    case (Pair r s1)
    show ?thesis
    proof (cases r)
      case None
      then show ?thesis using Suc.prems Pair alloc_None [of s s1] by simp
    next
      case (Some a)
      obtain bs s2 where rest: "alloc_seq alloc n s1 = (bs, s2)" by fastforce
      have one: "ok s1 \<and> a \<in> avail s \<and> avail s1 = avail s - {a} \<and> managed s1 = managed s"
        using alloc_Some [of s a s1] Suc.prems(1) Pair Some by simp
      then have "ok s2 \<and> distinct bs \<and> set bs \<subseteq> avail s1 \<and> avail s2 = avail s1 - set bs \<and>
          managed s2 = managed s1"
        using Suc.IH [OF _ rest] by simp
      moreover have "as = a # bs \<and> s' = s2" using Suc.prems(2) Pair Some rest by simp
      ultimately show ?thesis using one by auto
    qed
  qed
qed

lemma alloc_seq_length:
  "ok s \<Longrightarrow> finite (avail s) \<Longrightarrow> alloc_seq alloc n s = (as, s') \<Longrightarrow> length as = min n (card (avail s))"
proof (induction n arbitrary: s as s')
  case 0
  then show ?case by simp
next
  case (Suc n)
  show ?case
  proof (cases "alloc s")
    case (Pair r s1)
    show ?thesis
    proof (cases r)
      case None
      then show ?thesis using Suc.prems Pair alloc_None [of s s1] by simp
    next
      case (Some a)
      obtain bs s2 where rest: "alloc_seq alloc n s1 = (bs, s2)" by fastforce
      have one: "ok s1 \<and> a \<in> avail s \<and> avail s1 = avail s - {a}"
        using alloc_Some [of s a s1] Suc.prems(1) Pair Some by simp
      then have "length bs = min n (card (avail s1))"
        using Suc.IH [OF _ _ rest] Suc.prems(2) by simp
      moreover have "card (avail s) = Suc (card (avail s1))"
        using one Suc.prems(2) by (metis card_Suc_Diff1)
      moreover have "as = a # bs" using Suc.prems(3) Pair Some rest by simp
      ultimately show ?thesis by simp
    qed
  qed
qed

end

section \<open>A source of address ranges\<close>

text \<open>
  \<open>alloc\<close> hands out the start of a range of \<open>bytes\<close> bytes, or 0; \<open>avail\<close> are the byte
  addresses that may still be handed out.
\<close>

locale range_source =
  fixes alloc :: "'s \<Rightarrow> (u64 \<times> 's) outcome"
    and bytes :: nat
    and avail :: "'s \<Rightarrow> nat set"
    and ok :: "'s \<Rightarrow> bool"
  assumes alloc_range:
      "ok s \<Longrightarrow> alloc s = Inr (a, s') \<Longrightarrow> a \<noteq> 0 \<Longrightarrow>
         ok s' \<and> 16 dvd unat a \<and> unat a + bytes < 2 ^ 64 \<and>
         {unat a ..< unat a + bytes} \<subseteq> avail s \<and> avail s' = avail s - {unat a ..< unat a + bytes}"
    and alloc_refused: "ok s \<Longrightarrow> alloc s = Inr (0, s') \<Longrightarrow> ok s' \<and> avail s' = avail s"
begin

lemma range_fresh:
  assumes "ok s" and "alloc s = Inr (a, s')" and "a \<noteq> 0" and "R \<inter> avail s = {}"
  shows "R \<inter> {unat a ..< unat a + bytes} = {}" and "(R \<union> {unat a ..< unat a + bytes}) \<inter> avail s' = {}"
  using alloc_range [OF assms(1-3)] assms(4) by auto

end

section \<open>A heap\<close>

text \<open>
  \<open>hp_alloc\<close> hands out the address of a block, or 0; \<open>hp_free\<close> takes one back. \<open>ok h L\<close>: the heap
  \<open>h\<close> is in order and the addresses handed out and not yet taken back are \<open>L\<close>.
\<close>

record 'h heap_ops =
  hp_alloc :: "u64 \<Rightarrow> 'h \<Rightarrow> (u64 \<times> 'h) run"
  hp_free :: "u64 \<Rightarrow> 'h \<Rightarrow> 'h run"

locale heap_source =
  fixes hp :: "'h heap_ops"
    and ok :: "'h \<Rightarrow> u64 set \<Rightarrow> bool"
  assumes alloc_block: "ok h L \<Longrightarrow> unat sz \<le> 2 ^ 64 - 16 \<Longrightarrow>
      yields (hp_alloc hp sz h) (\<lambda>(p, h'). if p = 0 then ok h' L else p \<notin> L \<and> ok h' (insert p L))"
    and alloc_returns: "ok h L \<Longrightarrow> unat sz \<le> 2 ^ 64 - 16 \<Longrightarrow> hp_alloc hp sz h \<noteq> None"
    and free_block: "ok h L \<Longrightarrow> p \<in> L \<Longrightarrow> \<exists>h'. hp_free hp p h = ret h' \<and> ok h' (L - {p})"
    and free_null: "hp_free hp 0 h = ret h"
    and null_free: "ok h L \<Longrightarrow> 0 \<notin> L"
begin

lemma alloc_free:
  assumes "ok h L" and "unat sz \<le> 2 ^ 64 - 16" and "hp_alloc hp sz h = ret (p, h')" and "p \<noteq> 0"
  shows "\<exists>h''. hp_free hp p h' = ret h'' \<and> ok h'' L"
  using free_block [of h' "insert p L" p] yieldsD [OF alloc_block [OF assms(1,2)] assms(3)] assms(4) by auto

end

end
