(* ===== verification/Pmm.thy ===== *)
theory Pmm
  imports Boot Interfaces
begin

text \<open>
  The physical page allocator, \<^verbatim>\<open>mm/pmm.c\<close>: one bit per 4 KiB page (1 = used), page
  counters, and a next-fit cursor. \<open>pmm\<close> is the file's static state; the bitmap, which the code
  reaches through a pointer into the direct map, is the list of its bytes. Every public operation
  runs under \<^verbatim>\<open>g_pmm_lock\<close> from its first to its last access of that state, so one call
  is one step here. Linker symbols and \<^verbatim>\<open>g_hhdm_offset\<close> are arguments.
\<close>

section \<open>State\<close>

abbreviation PMM_PAGE_SIZE :: u64 where
  "PMM_PAGE_SIZE \<equiv> 4096"

abbreviation PMM_INVALID_PHYS_ADDR :: u64 where
  "PMM_INVALID_PHYS_ADDR \<equiv> UINT64_MAX"

record pmm_info =
  total_pages :: u64
  free_pages :: u64
  used_pages :: u64
  bitmap_bytes :: u64
  bitmap_phys_base :: u64
  highest_physical_address :: u64

record pmm =
  g_bitmap :: "u8 list"
  g_bitmap_ptr :: u64
  g_pmm_info :: pmm_info
  g_next_search :: u64
  pmm_initialized :: bool

section \<open>Operations\<close>

definition pmm_phys_to_virt :: "u64 \<Rightarrow> u64 \<Rightarrow> u64" where
  "pmm_phys_to_virt hhdm phys_addr = phys_addr + hhdm"

definition pmm_virt_to_phys :: "u64 \<Rightarrow> u64 \<Rightarrow> u64" where
  "pmm_virt_to_phys hhdm virt_addr = virt_addr - hhdm"

definition bit_mask :: "u64 \<Rightarrow> u8" where
  "bit_mask b = push_bit (unat (b AND 7)) 1"

definition bit_test :: "u8 list \<Rightarrow> u64 \<Rightarrow> bool" where
  "bit_test bm b = ((bm ! unat (drop_bit 3 b)) AND bit_mask b \<noteq> 0)"

definition bit_set :: "u64 \<Rightarrow> u8 list \<Rightarrow> u8 list" where
  "bit_set b bm = bm[unat (drop_bit 3 b) := (bm ! unat (drop_bit 3 b)) OR bit_mask b]"

definition bit_clear :: "u64 \<Rightarrow> u8 list \<Rightarrow> u8 list" where
  "bit_clear b bm = bm[unat (drop_bit 3 b) := (bm ! unat (drop_bit 3 b)) AND NOT (bit_mask b)]"

definition phys_to_page :: "u64 \<Rightarrow> u64" where
  "phys_to_page phys_addr = phys_addr div PMM_PAGE_SIZE"

definition mark_page_used :: "u64 \<Rightarrow> pmm \<Rightarrow> pmm" where
  "mark_page_used page s =
     (if total_pages (g_pmm_info s) \<le> page then s
      else if \<not> bit_test (g_bitmap s) page then
        s\<lparr>g_bitmap := bit_set page (g_bitmap s),
          g_pmm_info := (g_pmm_info s)
            \<lparr>free_pages := free_pages (g_pmm_info s) - 1, used_pages := used_pages (g_pmm_info s) + 1\<rparr>\<rparr>
      else s)"

definition mark_page_free :: "u64 \<Rightarrow> pmm \<Rightarrow> pmm" where
  "mark_page_free page s =
     (if total_pages (g_pmm_info s) \<le> page then s
      else if bit_test (g_bitmap s) page then
        s\<lparr>g_bitmap := bit_clear page (g_bitmap s),
          g_pmm_info := (g_pmm_info s)
            \<lparr>free_pages := free_pages (g_pmm_info s) + 1, used_pages := used_pages (g_pmm_info s) - 1\<rparr>\<rparr>
      else s)"

definition mark_range_free :: "u64 \<Rightarrow> u64 \<Rightarrow> pmm \<Rightarrow> pmm" where
  "mark_range_free start_phys end_phys s =
     (if end_phys \<le> start_phys then s
      else
        let page_start = phys_to_page (align_up start_phys PMM_PAGE_SIZE);
            page_end = phys_to_page (align_down end_phys PMM_PAGE_SIZE);
            page_end = (if total_pages (g_pmm_info s) < page_end then total_pages (g_pmm_info s)
                        else page_end)
        in fold mark_page_free (word_range page_start page_end) s)"

definition mark_range_used :: "u64 \<Rightarrow> u64 \<Rightarrow> pmm \<Rightarrow> pmm" where
  "mark_range_used start_phys end_phys s =
     (if end_phys \<le> start_phys then s
      else
        let page_start = phys_to_page (align_down start_phys PMM_PAGE_SIZE);
            page_end = phys_to_page (align_up end_phys PMM_PAGE_SIZE);
            page_end = (if total_pages (g_pmm_info s) < page_end then total_pages (g_pmm_info s)
                        else page_end)
        in fold mark_page_used (word_range page_start page_end) s)"

text \<open>\<^verbatim>\<open>base + length\<close> with the saturation every loop over the map applies to it.\<close>

definition entry_end :: "memory_map_entry \<Rightarrow> u64" where
  "entry_end e =
     (let end = mm_base e + mm_length e in if end < mm_base e then UINT64_MAX else end)"

definition max_physical_end :: "memory_map_entry list \<Rightarrow> u64" where
  "max_physical_end es =
     fold (\<lambda>e max_end. if max_end < entry_end e then entry_end e else max_end) es 0"

definition bitmap_region_fits :: "u64 \<Rightarrow> memory_map_entry \<Rightarrow> bool" where
  "bitmap_region_fits bitmap_size e =
     (let region_start = align_up (mm_base e) PMM_PAGE_SIZE;
          region_end = align_down (entry_end e) PMM_PAGE_SIZE
      in mm_type e = MEMMAP_USABLE \<and> \<not> region_end < region_start \<and>
         align_up bitmap_size PMM_PAGE_SIZE \<le> region_end - region_start)"

fun find_bitmap_region :: "memory_map_entry list \<Rightarrow> u64 \<Rightarrow> u64 option" where
  "find_bitmap_region [] bitmap_size = None"
| "find_bitmap_region (e # es) bitmap_size =
     (if bitmap_region_fits bitmap_size e then Some (align_up (mm_base e) PMM_PAGE_SIZE)
      else find_bitmap_region es bitmap_size)"

definition free_usable_entry :: "memory_map_entry \<Rightarrow> pmm \<Rightarrow> pmm" where
  "free_usable_entry e s =
     (if mm_type e = MEMMAP_USABLE then mark_range_free (mm_base e) (entry_end e) s else s)"

definition pmm_init :: "u64 \<Rightarrow> u64 \<Rightarrow> u64 \<Rightarrow> boot_memory_map \<Rightarrow> pmm outcome" where
  "pmm_init hhdm kernel_phys_start kernel_phys_end memory_map =
     (case memory_map of
        None \<Rightarrow> Inl (Panic ''PMM init failed: invalid memory map'')
      | Some es \<Rightarrow>
          if es = [] then Inl (Panic ''PMM init failed: invalid memory map'')
          else
            let highest_phys = max_physical_end es;
                total = align_up highest_phys PMM_PAGE_SIZE div PMM_PAGE_SIZE
            in if total = 0 then Inl (Panic ''PMM init failed: no physical memory pages detected'')
               else
                 let bytes = align_up total 8 div 8
                 in case find_bitmap_region es bytes of
                      None \<Rightarrow> Inl (Panic ''PMM init failed: no space for bitmap'')
                    | Some bitmap_phys \<Rightarrow>
                        let s0 = \<lparr>g_bitmap = replicate (unat bytes) 0xFF,
                                  g_bitmap_ptr = pmm_phys_to_virt hhdm bitmap_phys,
                                  g_pmm_info =
                                    \<lparr>total_pages = total, free_pages = 0, used_pages = total,
                                     bitmap_bytes = bytes, bitmap_phys_base = bitmap_phys,
                                     highest_physical_address = highest_phys\<rparr>,
                                  g_next_search = 0,
                                  pmm_initialized = False\<rparr>;
                            s1 = fold free_usable_entry es s0;
                            s2 = mark_range_used bitmap_phys (bitmap_phys + align_up bytes PMM_PAGE_SIZE) s1;
                            s3 = mark_range_used kernel_phys_start kernel_phys_end s2;
                            s4 = mark_page_used 0 s3
                        in if free_pages (g_pmm_info s4) + used_pages (g_pmm_info s4)
                                \<noteq> total_pages (g_pmm_info s4)
                           then Inl (Panic ''PMM init failed: page accounting mismatch'')
                           else Inr (s4\<lparr>g_next_search := (if 1 < total_pages (g_pmm_info s4) then 1 else 0),
                                        pmm_initialized := True\<rparr>))"

definition pmm_ready :: "pmm \<Rightarrow> bool" where
  "pmm_ready s = pmm_initialized s"

text \<open>
  The scan of \<^verbatim>\<open>pmm_try_alloc_page_phys\<close>: \<open>scanned\<close> runs through the given list, the
  page looked at wraps past the last page.
\<close>

fun pmm_scan :: "pmm \<Rightarrow> u64 \<Rightarrow> u64 list \<Rightarrow> u64 option" where
  "pmm_scan s start [] = None"
| "pmm_scan s start (scanned # rest) =
     (let page = start + scanned;
          page = (if total_pages (g_pmm_info s) \<le> page then page - total_pages (g_pmm_info s) else page)
      in if \<not> bit_test (g_bitmap s) page then Some page else pmm_scan s start rest)"

text \<open>
  The result \<open>Some phys\<close> stands for \<^verbatim>\<open>true\<close> with \<^verbatim>\<open>*out_phys_addr = phys\<close>,
  \<open>None\<close> for \<^verbatim>\<open>false\<close> with \<^verbatim>\<open>PMM_INVALID_PHYS_ADDR\<close> stored.
\<close>

definition pmm_try_alloc_page_phys :: "pmm \<Rightarrow> u64 option \<times> pmm" where
  "pmm_try_alloc_page_phys s =
     (let info = g_pmm_info s
      in if \<not> pmm_initialized s \<or> free_pages info = 0 \<or> total_pages info = 0 then (None, s)
         else
           let start = g_next_search s;
               start = (if total_pages info \<le> start then 0 else start)
           in case pmm_scan s start (word_range 0 (total_pages info)) of
                None \<Rightarrow> (None, s)
              | Some page \<Rightarrow>
                  let s1 = mark_page_used page s;
                      next = page + 1;
                      next = (if total_pages info \<le> next then 0 else next)
                  in (Some (page * PMM_PAGE_SIZE), s1\<lparr>g_next_search := next\<rparr>))"

definition pmm_alloc_page_phys :: "pmm \<Rightarrow> u64 \<times> pmm" where
  "pmm_alloc_page_phys s =
     (case pmm_try_alloc_page_phys s of
        (None, s') \<Rightarrow> (PMM_INVALID_PHYS_ADDR, s')
      | (Some phys_addr, s') \<Rightarrow> (phys_addr, s'))"

definition pmm_alloc_page :: "u64 \<Rightarrow> pmm \<Rightarrow> u64 \<times> pmm" where
  "pmm_alloc_page hhdm s =
     (case pmm_try_alloc_page_phys s of
        (None, s') \<Rightarrow> (0, s')
      | (Some phys_addr, s') \<Rightarrow> (pmm_phys_to_virt hhdm phys_addr, s'))"

definition pmm_free_page_phys :: "u64 \<Rightarrow> pmm \<Rightarrow> pmm" where
  "pmm_free_page_phys phys_addr s =
     (if \<not> pmm_initialized s then s
      else if phys_addr AND (PMM_PAGE_SIZE - 1) \<noteq> 0 then s
      else
        let page = phys_to_page phys_addr
        in if total_pages (g_pmm_info s) \<le> page then s
           else if bit_test (g_bitmap s) page then
             let s1 = mark_page_free page s
             in if page < g_next_search s1 then s1\<lparr>g_next_search := page\<rparr> else s1
           else s)"

definition pmm_free_page :: "u64 \<Rightarrow> u64 \<Rightarrow> pmm \<Rightarrow> pmm" where
  "pmm_free_page hhdm virt_addr s =
     (if virt_addr = 0 then s else pmm_free_page_phys (pmm_virt_to_phys hhdm virt_addr) s)"

definition pmm_get_info :: "pmm \<Rightarrow> pmm_info" where
  "pmm_get_info s = g_pmm_info s"

section \<open>Abstraction: the set of free pages\<close>

definition free_set :: "pmm \<Rightarrow> u64 set" where
  "free_set s = {p. p < total_pages (g_pmm_info s) \<and> \<not> bit_test (g_bitmap s) p}"

definition pmm_inv :: "pmm \<Rightarrow> bool" where
  "pmm_inv s \<longleftrightarrow>
     unat (total_pages (g_pmm_info s)) \<le> 8 * length (g_bitmap s) \<and>
     unat (total_pages (g_pmm_info s)) < 2 ^ 52 \<and>
     unat (free_pages (g_pmm_info s)) = card (free_set s) \<and>
     free_pages (g_pmm_info s) + used_pages (g_pmm_info s) = total_pages (g_pmm_info s)"

definition pmm_ok :: "pmm \<Rightarrow> bool" where
  "pmm_ok s \<longleftrightarrow> pmm_inv s \<and> pmm_initialized s"

definition pmm_avail :: "pmm \<Rightarrow> u64 set" where
  "pmm_avail s = (\<lambda>p. p * PMM_PAGE_SIZE) ` free_set s"

definition pmm_managed :: "pmm \<Rightarrow> u64 set" where
  "pmm_managed s = (\<lambda>p. p * PMM_PAGE_SIZE) ` {p. p < total_pages (g_pmm_info s)}"

text \<open>
  A page lies inside a byte range, or shares a byte with it; both written over natural numbers, so
  nothing wraps around.
\<close>

definition page_inside :: "u64 \<Rightarrow> u64 \<Rightarrow> u64 \<Rightarrow> bool" where
  "page_inside p b e \<longleftrightarrow> unat b \<le> unat p * 4096 \<and> unat p * 4096 + 4096 \<le> unat e"

definition page_touched :: "u64 \<Rightarrow> u64 \<Rightarrow> u64 \<Rightarrow> bool" where
  "page_touched p b e \<longleftrightarrow> b < e \<and> unat p * 4096 < unat e \<and> unat b < unat p * 4096 + 4096"

text \<open>What no marking operation writes: the description of the bitmap itself.\<close>

definition pmm_layout :: "pmm \<Rightarrow> u64 \<times> u64 \<times> u64 \<times> u64" where
  "pmm_layout s = (total_pages (g_pmm_info s), bitmap_bytes (g_pmm_info s),
     bitmap_phys_base (g_pmm_info s), highest_physical_address (g_pmm_info s))"

text \<open>The page the scan looks at in its \<open>x\<close>-th round.\<close>

definition scan_page :: "pmm \<Rightarrow> u64 \<Rightarrow> u64 \<Rightarrow> u64" where
  "scan_page s start x =
     (if total_pages (g_pmm_info s) \<le> start + x then start + x - total_pages (g_pmm_info s)
      else start + x)"

section \<open>The bitmap\<close>

lemma unat_drop_bit_3: "unat (drop_bit 3 b) = unat b div 8" for b :: u64
  by (simp add: unat_div drop_bit_eq_div)

lemma unat_and_7: "unat (b AND 7) = unat b mod 8" for b :: u64
  using unat_and_mask [of b 3] by (simp add: mask_eq_exp_minus_1)

lemma bit_mask_bit: "bit (bit_mask b) n \<longleftrightarrow> n = unat b mod 8"
  by (auto simp: bit_mask_def unat_and_7 bit_simps)

lemma and_bit_mask_zero: "(x AND bit_mask b = 0) \<longleftrightarrow> \<not> bit x (unat b mod 8)"
proof
  assume "x AND bit_mask b = 0"
  then have "\<not> bit (x AND bit_mask b) (unat b mod 8)" by simp
  then show "\<not> bit x (unat b mod 8)" by (simp add: bit_and_iff bit_mask_bit)
next
  assume "\<not> bit x (unat b mod 8)"
  then show "x AND bit_mask b = 0" by (intro bit_word_eqI) (auto simp: bit_and_iff bit_mask_bit)
qed

lemma bit_test_bit: "bit_test bm b \<longleftrightarrow> bit (bm ! (unat b div 8)) (unat b mod 8)"
  by (simp add: bit_test_def unat_drop_bit_3 and_bit_mask_zero)

lemma length_bit_set [simp]: "length (bit_set b bm) = length bm"
  by (simp add: bit_set_def)

lemma length_bit_clear [simp]: "length (bit_clear b bm) = length bm"
  by (simp add: bit_clear_def)

lemma div_mod_8_eq: "unat a div 8 = unat b div 8 \<Longrightarrow> unat a mod 8 = unat b mod 8 \<Longrightarrow> a = b" for a b :: u64
  by (metis div_mult_mod_eq word_unat_eq_iff)

lemma bit_test_set:
  assumes "unat b div 8 < length bm"
  shows "bit_test (bit_set b bm) p \<longleftrightarrow> p = b \<or> bit_test bm p"
  using assms div_mod_8_eq [of p b]
  by (auto simp: bit_test_bit bit_set_def unat_drop_bit_3 nth_list_update bit_or_iff bit_mask_bit)

lemma bit_test_clear:
  assumes "unat b div 8 < length bm"
  shows "bit_test (bit_clear b bm) p \<longleftrightarrow> p \<noteq> b \<and> bit_test bm p"
  using assms div_mod_8_eq [of p b]
  by (auto simp: bit_test_bit bit_clear_def unat_drop_bit_3 nth_list_update bit_and_iff bit_not_iff
      bit_mask_bit)

section \<open>Marking pages\<close>

lemma card_word_less: "card {p :: u64. p < t} = unat t"
proof -
  have "{p :: u64. p < t} = set (word_range 0 t)" by auto
  moreover have "distinct (word_range 0 t)"
    using unat_lt_64 [of t]
    by (auto simp: word_range_def distinct_map inj_on_def dest!: arg_cong [where f = unat] simp: word_nat)
  ultimately show ?thesis by (metis distinct_card length_word_range diff_zero unsigned_0)
qed

lemma card_free_set_le: "card (free_set s) \<le> unat (total_pages (g_pmm_info s))"
  using card_mono [of "{p. p < total_pages (g_pmm_info s)}" "free_set s"]
  by (auto simp: free_set_def card_word_less)

lemma pmm_inv_index: "pmm_inv s \<Longrightarrow> p < total_pages (g_pmm_info s) \<Longrightarrow> unat p div 8 < length (g_bitmap s)"
  by (auto simp: pmm_inv_def word_less_nat_alt)

lemma mark_page_frame [simp]:
  "total_pages (g_pmm_info (mark_page_used p s)) = total_pages (g_pmm_info s)"
  "total_pages (g_pmm_info (mark_page_free p s)) = total_pages (g_pmm_info s)"
  "bitmap_bytes (g_pmm_info (mark_page_used p s)) = bitmap_bytes (g_pmm_info s)"
  "bitmap_bytes (g_pmm_info (mark_page_free p s)) = bitmap_bytes (g_pmm_info s)"
  "bitmap_phys_base (g_pmm_info (mark_page_used p s)) = bitmap_phys_base (g_pmm_info s)"
  "bitmap_phys_base (g_pmm_info (mark_page_free p s)) = bitmap_phys_base (g_pmm_info s)"
  "highest_physical_address (g_pmm_info (mark_page_used p s)) = highest_physical_address (g_pmm_info s)"
  "highest_physical_address (g_pmm_info (mark_page_free p s)) = highest_physical_address (g_pmm_info s)"
  "g_next_search (mark_page_used p s) = g_next_search s"
  "g_next_search (mark_page_free p s) = g_next_search s"
  "pmm_initialized (mark_page_used p s) = pmm_initialized s"
  "pmm_initialized (mark_page_free p s) = pmm_initialized s"
  by (simp_all add: mark_page_used_def mark_page_free_def)

lemma free_set_mark_used: "pmm_inv s \<Longrightarrow> free_set (mark_page_used p s) = free_set s - {p}"
  using pmm_inv_index [of s p]
  by (auto simp: free_set_def mark_page_used_def bit_test_set not_le)

lemma free_set_mark_free:
  "pmm_inv s \<Longrightarrow>
     free_set (mark_page_free p s) = free_set s \<union> {q. q = p \<and> p < total_pages (g_pmm_info s)}"
  using pmm_inv_index [of s p]
  by (auto simp: free_set_def mark_page_free_def bit_test_clear not_le)

lemma mark_page_used_counts:
  assumes "p \<in> free_set s"
  shows "g_pmm_info (mark_page_used p s) = (g_pmm_info s)
    \<lparr>free_pages := free_pages (g_pmm_info s) - 1, used_pages := used_pages (g_pmm_info s) + 1\<rparr>"
    and "length (g_bitmap (mark_page_used p s)) = length (g_bitmap s)"
  using assms by (simp_all add: mark_page_used_def free_set_def not_le)

lemma mark_page_free_counts:
  assumes "p < total_pages (g_pmm_info s)" and "p \<notin> free_set s"
  shows "g_pmm_info (mark_page_free p s) = (g_pmm_info s)
    \<lparr>free_pages := free_pages (g_pmm_info s) + 1, used_pages := used_pages (g_pmm_info s) - 1\<rparr>"
    and "length (g_bitmap (mark_page_free p s)) = length (g_bitmap s)"
  using assms by (simp_all add: mark_page_free_def free_set_def not_le)

lemma mark_page_used_inv:
  assumes inv: "pmm_inv s"
  shows "pmm_inv (mark_page_used p s)"
proof (cases "p \<in> free_set s")
  case True
  then have "card (free_set s) \<noteq> 0" by (metis card_eq_0_iff empty_iff finite)
  then have "free_pages (g_pmm_info s) \<noteq> 0" using inv by (metis pmm_inv_def unsigned_0)
  then have "unat (free_pages (g_pmm_info s) - 1) = card (free_set s - {p})"
    using inv True by (simp add: unat_minus_one pmm_inv_def)
  then show ?thesis
    using inv mark_page_used_counts [OF True]
    by (simp add: pmm_inv_def free_set_mark_used [OF inv])
next
  case False
  then have "mark_page_used p s = s" by (simp add: free_set_def mark_page_used_def)
  then show ?thesis using inv by simp
qed

lemma mark_page_free_inv:
  assumes inv: "pmm_inv s"
  shows "pmm_inv (mark_page_free p s)"
proof (cases "p < total_pages (g_pmm_info s) \<and> p \<notin> free_set s")
  case True
  have "card (free_set s) < 2 ^ 52"
    using inv card_free_set_le [of s] by (meson le_less_trans pmm_inv_def)
  then have "unat (free_pages (g_pmm_info s) + 1) = Suc (card (free_set s))"
    using inv by (simp add: pmm_inv_def unat_plus_if')
  moreover have "free_set (mark_page_free p s) = insert p (free_set s)"
    using free_set_mark_free [OF inv, of p] True by blast
  ultimately show ?thesis
    using inv True mark_page_free_counts [of p s] by (simp add: pmm_inv_def)
next
  case False
  then have "mark_page_free p s = s" by (auto simp add: free_set_def mark_page_free_def)
  then show ?thesis using inv by simp
qed

lemma fold_mark_free:
  assumes "pmm_inv s"
  shows "pmm_inv (fold mark_page_free ps s) \<and>
     total_pages (g_pmm_info (fold mark_page_free ps s)) = total_pages (g_pmm_info s) \<and>
     free_set (fold mark_page_free ps s) = free_set s \<union> {q \<in> set ps. q < total_pages (g_pmm_info s)}"
  using assms
  by (induction ps arbitrary: s) (auto simp: mark_page_free_inv free_set_mark_free)

lemma fold_mark_used:
  assumes "pmm_inv s"
  shows "pmm_inv (fold mark_page_used ps s) \<and>
     total_pages (g_pmm_info (fold mark_page_used ps s)) = total_pages (g_pmm_info s) \<and>
     free_set (fold mark_page_used ps s) = free_set s - set ps"
  using assms
  by (induction ps arbitrary: s) (auto simp: mark_page_used_inv free_set_mark_used)

section \<open>Ranges and initialisation\<close>

lemma range_free_pages:
  assumes "unat b \<le> 18446744073709547520"
  shows "(phys_to_page (align_up b 4096) \<le> p \<and> p < phys_to_page (align_down e 4096))
    \<longleftrightarrow> page_inside p b e"
  using assms
  by (auto simp: page_inside_def phys_to_page_def word_le_nat_alt word_less_nat_alt word_nat)

lemma range_used_pages:
  assumes "unat e \<le> 18446744073709547520" and "b < e"
  shows "(phys_to_page (align_down b 4096) \<le> p \<and> p < phys_to_page (align_up e 4096))
    \<longleftrightarrow> page_touched p b e"
  using assms
  by (auto simp: page_touched_def phys_to_page_def word_le_nat_alt word_less_nat_alt word_nat)

lemma mark_range_free_spec:
  assumes "pmm_inv s" and "unat b \<le> 18446744073709547520"
  shows "pmm_inv (mark_range_free b e s) \<and>
    total_pages (g_pmm_info (mark_range_free b e s)) = total_pages (g_pmm_info s) \<and>
    free_set (mark_range_free b e s) =
      free_set s \<union> {p. p < total_pages (g_pmm_info s) \<and> page_inside p b e}"
proof (cases "e \<le> b")
  case True
  then have "\<not> page_inside p b e" for p by (simp add: page_inside_def word_le_nat_alt)
  then show ?thesis using assms True by (simp add: mark_range_free_def)
next
  case False
  then show ?thesis
    using assms fold_mark_free [OF assms(1)]
    by (auto simp: mark_range_free_def Let_def simp flip: range_free_pages [OF assms(2), of _ e])
qed

lemma mark_range_used_spec:
  assumes "pmm_inv s" and "unat e \<le> 18446744073709547520"
  shows "pmm_inv (mark_range_used b e s) \<and>
    total_pages (g_pmm_info (mark_range_used b e s)) = total_pages (g_pmm_info s) \<and>
    free_set (mark_range_used b e s) = free_set s - {p. page_touched p b e}"
proof (cases "e \<le> b")
  case True
  then have "\<not> page_touched p b e" for p by (simp add: page_touched_def leD)
  then show ?thesis using assms True by (simp add: mark_range_used_def)
next
  case False
  then have be: "b < e" by simp
  have "p < total_pages (g_pmm_info s)" if "p \<in> free_set s" for p
    using that by (simp add: free_set_def)
  then show ?thesis
    using assms False fold_mark_used [OF assms(1)]
    by (auto simp: mark_range_used_def Let_def not_le simp flip: range_used_pages [OF assms(2) be]
        dest: less_trans)
qed

lemma mm_base_le_entry_end: "mm_base e \<le> entry_end e"
  by (simp add: entry_end_def Let_def not_less)

lemma max_physical_end_ge: "e \<in> set es \<Longrightarrow> entry_end e \<le> max_physical_end es"
proof -
  have "m \<le> fold (\<lambda>e m. if m < entry_end e then entry_end e else m) es m \<and>
      (\<forall>e \<in> set es. entry_end e \<le> fold (\<lambda>e m. if m < entry_end e then entry_end e else m) es m)" for m
    by (induction es arbitrary: m) (auto intro: order_trans less_imp_le simp: not_less)
  then show "e \<in> set es \<Longrightarrow> ?thesis" by (simp add: max_physical_end_def)
qed

lemma fold_free_usable:
  assumes "pmm_inv s" and "\<forall>e \<in> set es. unat (mm_base e) \<le> 18446744073709547520"
  shows "pmm_inv (fold free_usable_entry es s) \<and>
    total_pages (g_pmm_info (fold free_usable_entry es s)) = total_pages (g_pmm_info s) \<and>
    free_set (fold free_usable_entry es s) = free_set s \<union>
      {p. p < total_pages (g_pmm_info s) \<and>
          (\<exists>e \<in> set es. mm_type e = MEMMAP_USABLE \<and> page_inside p (mm_base e) (entry_end e))}"
  using assms
proof (induction es arbitrary: s)
  case Nil
  then show ?case by simp
next
  case (Cons e es)
  have step: "pmm_inv (free_usable_entry e s) \<and>
      total_pages (g_pmm_info (free_usable_entry e s)) = total_pages (g_pmm_info s) \<and>
      free_set (free_usable_entry e s) = free_set s \<union>
        {p. p < total_pages (g_pmm_info s) \<and> mm_type e = MEMMAP_USABLE \<and>
            page_inside p (mm_base e) (entry_end e)}"
    using mark_range_free_spec [OF Cons.prems(1), of "mm_base e" "entry_end e"] Cons.prems
    by (auto simp: free_usable_entry_def)
  then show ?case using Cons.IH [of "free_usable_entry e s"] Cons.prems by auto
qed

lemma find_bitmap_region_Some:
  assumes "find_bitmap_region es n = Some b"
  shows "\<exists>e \<in> set es. bitmap_region_fits n e \<and> b = align_up (mm_base e) 4096"
  using assms by (induction es) (auto split: if_splits)

lemma find_bitmap_region_None: "find_bitmap_region es n = None \<longleftrightarrow> (\<forall>e \<in> set es. \<not> bitmap_region_fits n e)"
  by (induction es) auto

lemma bitmap_region_end:
  assumes "bitmap_region_fits n e" and "unat (entry_end e) \<le> 18446744073709547520"
  shows "unat (align_up (mm_base e) 4096 + align_up n 4096) \<le> 18446744073709547520"
    and "unat (align_up (mm_base e) 4096 + align_up n 4096) =
       unat (align_up (mm_base e) 4096) + unat (align_up n 4096)"
proof -
  let ?a = "align_up (mm_base e) 4096" and ?z = "align_down (entry_end e) 4096"
  have "?a \<le> ?z" and "align_up n 4096 \<le> ?z - ?a"
    using assms(1) by (simp_all add: bitmap_region_fits_def Let_def not_less)
  then have "unat ?a + unat (align_up n 4096) \<le> unat ?z"
    by (simp add: word_le_nat_alt unat_sub le_diff_conv2 add.commute)
  also have "\<dots> \<le> 18446744073709547520" using assms(2) by (simp add: unat_align_down_4k)
  finally have le: "unat ?a + unat (align_up n 4096) \<le> 18446744073709547520" .
  then show eq: "unat (?a + align_up n 4096) = unat ?a + unat (align_up n 4096)"
    by (simp add: unat_plus_if')
  from le show "unat (?a + align_up n 4096) \<le> 18446744073709547520" by (simp add: eq)
qed

text \<open>The state \<^verbatim>\<open>pmm_init\<close> builds before it frees anything.\<close>

lemma bit_ff: "bit (0xFF :: u8) n \<longleftrightarrow> n < 8"
proof -
  have "(0xFF :: u8) = mask 8" by (simp add: mask_eq_exp_minus_1)
  then show ?thesis by (simp only: bit_mask_iff) simp
qed

lemma fresh_bitmap_inv:
  assumes "unat tp < 2 ^ 52"
  shows "pmm_inv \<lparr>g_bitmap = replicate (unat (align_up tp 8 div 8)) 0xFF, g_bitmap_ptr = bp,
      g_pmm_info = \<lparr>total_pages = tp, free_pages = 0, used_pages = tp, bitmap_bytes = bb,
        bitmap_phys_base = b, highest_physical_address = h\<rparr>, g_next_search = n, pmm_initialized = i\<rparr>"
    (is "pmm_inv ?s")
    and "free_set \<lparr>g_bitmap = replicate (unat (align_up tp 8 div 8)) 0xFF, g_bitmap_ptr = bp,
      g_pmm_info = \<lparr>total_pages = tp, free_pages = 0, used_pages = tp, bitmap_bytes = bb,
        bitmap_phys_base = b, highest_physical_address = h\<rparr>, g_next_search = n, pmm_initialized = i\<rparr> = {}"
proof -
  have len: "unat (align_up tp 8 div 8) = (unat tp + 7) div 8"
    using assms by (simp add: unat_div unat_align_up_8)
  have "bit_test (replicate (unat (align_up tp 8 div 8)) 0xFF) p" if "p < tp" for p
    using that bit_ff [of "unat p mod 8"] by (simp add: bit_test_bit len word_less_nat_alt)
  then show empty: "free_set ?s = {}" by (auto simp: free_set_def)
  show "pmm_inv ?s" unfolding pmm_inv_def empty using assms by (simp add: len)
qed

lemma pmm_layout_mark [simp]:
  "pmm_layout (mark_page_used p s) = pmm_layout s"
  "pmm_layout (mark_page_free p s) = pmm_layout s"
  "pmm_layout (mark_range_used b e s) = pmm_layout s"
  "pmm_layout (mark_range_free b e s) = pmm_layout s"
  "pmm_layout (fold free_usable_entry es s) = pmm_layout s"
proof -
  show *: "pmm_layout (mark_page_used p s) = pmm_layout s"
    "pmm_layout (mark_page_free p s) = pmm_layout s" for p s
    by (simp_all add: pmm_layout_def)
  show "pmm_layout (mark_range_used b e s) = pmm_layout s"
    by (simp add: mark_range_used_def Let_def fold_frame [of pmm_layout, OF *(1)])
  show free: "pmm_layout (mark_range_free b e s) = pmm_layout s" for b e s
    by (simp add: mark_range_free_def Let_def fold_frame [of pmm_layout, OF *(2)])
  show "pmm_layout (fold free_usable_entry es s) = pmm_layout s"
    by (rule fold_frame) (simp add: free_usable_entry_def free)
qed

lemma pmm_init_Inr:
  assumes "pmm_init hhdm ks ke (Some es) = Inr s"
  defines "tp \<equiv> align_up (max_physical_end es) 4096 div 4096"
  defines "bytes \<equiv> align_up tp 8 div 8"
  obtains b s0 where
    "es \<noteq> []" "tp \<noteq> 0" "find_bitmap_region es bytes = Some b"
    "s0 = \<lparr>g_bitmap = replicate (unat bytes) 0xFF, g_bitmap_ptr = pmm_phys_to_virt hhdm b,
        g_pmm_info = \<lparr>total_pages = tp, free_pages = 0, used_pages = tp, bitmap_bytes = bytes,
          bitmap_phys_base = b, highest_physical_address = max_physical_end es\<rparr>,
        g_next_search = 0, pmm_initialized = False\<rparr>"
    "\<exists>n. s = (mark_page_used 0 (mark_range_used ks ke (mark_range_used b (b + align_up bytes 4096)
         (fold free_usable_entry es s0))))\<lparr>g_next_search := n, pmm_initialized := True\<rparr>"
  using assms by (auto simp: pmm_init_def Let_def split: if_splits option.splits)

lemma pmm_init_spec:
  assumes init: "pmm_init hhdm ks ke (Some es) = Inr s"
    and ke: "unat ke \<le> 18446744073709547520"
  shows "pmm_inv s \<and> pmm_initialized s \<and>
    free_set s = {p. p \<noteq> 0 \<and>
      (\<exists>e \<in> set es. mm_type e = MEMMAP_USABLE \<and> page_inside p (mm_base e) (entry_end e)) \<and>
      \<not> page_touched p (bitmap_phys_base (g_pmm_info s))
          (bitmap_phys_base (g_pmm_info s) + align_up (bitmap_bytes (g_pmm_info s)) 4096) \<and>
      \<not> page_touched p ks ke}"
proof -
  let ?h = "max_physical_end es"
  let ?tp = "align_up ?h 4096 div 4096"
  let ?n = "align_up ?tp 8 div 8"
  from pmm_init_Inr [OF init] obtain b s0 where
    tp: "?tp \<noteq> 0" and reg: "find_bitmap_region es ?n = Some b"
    and s0: "s0 = \<lparr>g_bitmap = replicate (unat ?n) 0xFF, g_bitmap_ptr = pmm_phys_to_virt hhdm b,
        g_pmm_info = \<lparr>total_pages = ?tp, free_pages = 0, used_pages = ?tp, bitmap_bytes = ?n,
          bitmap_phys_base = b, highest_physical_address = ?h\<rparr>,
        g_next_search = 0, pmm_initialized = False\<rparr>"
    and s: "\<exists>n. s = (mark_page_used 0 (mark_range_used ks ke (mark_range_used b (b + align_up ?n 4096)
         (fold free_usable_entry es s0))))\<lparr>g_next_search := n, pmm_initialized := True\<rparr>"
    by metis
  define s1 where "s1 = fold free_usable_entry es s0"
  define s2 where "s2 = mark_range_used b (b + align_up ?n 4096) s1"
  define s3 where "s3 = mark_range_used ks ke s2"
  have h: "unat ?h \<le> 18446744073709547520"
    using tp by (intro align_up_4k_zero_or_small) auto
  have utp: "unat ?tp = (unat ?h + 4095) div 4096" using h by (simp add: word_nat)
  have small: "unat ?tp < 2 ^ 52" using h by (simp add: utp)
  have ends: "unat (entry_end e) \<le> unat ?h" if "e \<in> set es" for e
    using max_physical_end_ge [OF that] by (simp add: word_le_nat_alt)
  have bases: "unat (mm_base e) \<le> 18446744073709547520" if "e \<in> set es" for e
    using ends [OF that] mm_base_le_entry_end [of e] h by (simp add: word_le_nat_alt)
  obtain e where e: "e \<in> set es" "bitmap_region_fits ?n e" "b = align_up (mm_base e) 4096"
    using find_bitmap_region_Some [OF reg] by blast
  have "unat (entry_end e) \<le> 18446744073709547520" using ends [OF e(1)] h by (rule order_trans)
  then have bend: "unat (b + align_up ?n 4096) \<le> 18446744073709547520"
    unfolding e(3) by (rule bitmap_region_end(1) [OF e(2)])
  have i0: "pmm_inv s0" "free_set s0 = {}" "total_pages (g_pmm_info s0) = ?tp"
    unfolding s0 using fresh_bitmap_inv [OF small] by auto
  have i1: "pmm_inv s1" "free_set s1 = {p. p < ?tp \<and> (\<exists>e \<in> set es. mm_type e = MEMMAP_USABLE \<and>
      page_inside p (mm_base e) (entry_end e))}"
    unfolding s1_def using fold_free_usable [OF i0(1)] bases i0 by auto
  have i2: "pmm_inv s2" "free_set s2 = free_set s1 - {p. page_touched p b (b + align_up ?n 4096)}"
    unfolding s2_def using mark_range_used_spec [OF i1(1) bend] by auto
  have i3: "pmm_inv s3" "free_set s3 = free_set s2 - {p. page_touched p ks ke}"
    unfolding s3_def using mark_range_used_spec [OF i2(1) ke] by auto
  have i4: "pmm_inv (mark_page_used 0 s3)" "free_set (mark_page_used 0 s3) = free_set s3 - {0}"
    by (rule mark_page_used_inv [OF i3(1)], rule free_set_mark_used [OF i3(1)])
  have lay: "pmm_layout (mark_page_used 0 s3) = (?tp, ?n, b, ?h)"
    by (simp add: s3_def s2_def s1_def) (simp add: pmm_layout_def s0)
  have below: "p < ?tp" if "e \<in> set es" "page_inside p (mm_base e) (entry_end e)" for p e
    using that(2) ends [OF that(1)] unfolding page_inside_def word_less_nat_alt utp by linarith
  from s obtain n where "s = (mark_page_used 0 s3)\<lparr>g_next_search := n, pmm_initialized := True\<rparr>"
    unfolding s1_def s2_def s3_def by blast
  then have "pmm_inv s" "pmm_initialized s" "free_set s = free_set s3 - {0}"
    "bitmap_phys_base (g_pmm_info s) = b" "bitmap_bytes (g_pmm_info s) = ?n"
    using i4 lay by (simp_all add: pmm_inv_def free_set_def pmm_layout_def)
  then show ?thesis using i1 i2 i3 below by auto
qed

lemma mark_ranges_inv:
  assumes "pmm_inv s"
  shows "pmm_inv (mark_range_used b e s)" "pmm_inv (fold free_usable_entry es s)"
proof -
  show "pmm_inv (mark_range_used b e s)"
    using assms fold_mark_used [OF assms] by (simp add: mark_range_used_def Let_def)
  have "pmm_inv (mark_range_free b e s)" if "pmm_inv s" for b e s
    using that fold_mark_free [OF that] by (simp add: mark_range_free_def Let_def)
  then have "pmm_inv s \<Longrightarrow> pmm_inv (fold free_usable_entry es s)" for s
    by (induction es arbitrary: s) (simp_all add: free_usable_entry_def)
  then show "pmm_inv (fold free_usable_entry es s)" using assms by simp
qed

text \<open>The final check of \<^verbatim>\<open>pmm_init\<close> never fires.\<close>

lemma pmm_init_Inr_iff:
  defines "bytes es \<equiv> align_up (align_up (max_physical_end es) 4096 div 4096) 8 div 8"
  shows "(\<exists>s. pmm_init hhdm ks ke (Some es) = Inr s) \<longleftrightarrow>
    es \<noteq> [] \<and> align_up (max_physical_end es) 4096 div 4096 \<noteq> 0 \<and>
    (\<exists>e \<in> set es. bitmap_region_fits (bytes es) e)"
proof -
  let ?tp = "align_up (max_physical_end es) 4096 div 4096"
  have acc: "free_pages (g_pmm_info s) + used_pages (g_pmm_info s) = total_pages (g_pmm_info s)"
    if "s = mark_page_used 0 (mark_range_used ks ke (mark_range_used b c (fold free_usable_entry es
        \<lparr>g_bitmap = replicate (unat (bytes es)) 0xFF, g_bitmap_ptr = q,
         g_pmm_info = \<lparr>total_pages = ?tp, free_pages = 0, used_pages = ?tp, bitmap_bytes = bytes es,
           bitmap_phys_base = b, highest_physical_address = max_physical_end es\<rparr>,
         g_next_search = 0, pmm_initialized = False\<rparr>)))" for s b c q
  proof -
    have "unat ?tp < 2 ^ 52" using unat_lt_64 [of "align_up (max_physical_end es) 4096"]
      by (simp add: unat_div_4k)
    then have "pmm_inv s" unfolding that bytes_def
      by (intro mark_page_used_inv mark_ranges_inv fresh_bitmap_inv(1))
    then show ?thesis by (simp add: pmm_inv_def)
  qed
  show ?thesis
  proof (cases "find_bitmap_region es (bytes es)")
    case None
    then have "\<not> (\<exists>e \<in> set es. bitmap_region_fits (bytes es) e)" by (simp add: find_bitmap_region_None)
    then show ?thesis using None by (simp add: pmm_init_def Let_def bytes_def)
  next
    case (Some b)
    then have "\<exists>e \<in> set es. bitmap_region_fits (bytes es) e" using find_bitmap_region_Some by blast
    then show ?thesis using Some acc [OF refl] by (simp add: pmm_init_def Let_def bytes_def [symmetric])
  qed
qed

section \<open>Allocation\<close>

lemma pmm_scan_eq:
  "pmm_scan s start xs = map_option (scan_page s start) (find (\<lambda>x. \<not> bit_test (g_bitmap s) (scan_page s start x)) xs)"
  by (induction xs) (auto simp: scan_page_def Let_def)

lemma unat_scan_page:
  assumes "pmm_inv s" and "start < total_pages (g_pmm_info s)" and "x < total_pages (g_pmm_info s)"
  shows "unat (scan_page s start x) = (unat start + unat x) mod unat (total_pages (g_pmm_info s))"
proof -
  let ?t = "total_pages (g_pmm_info s)"
  have lt: "unat start < unat ?t" "unat x < unat ?t" "unat ?t < 2 ^ 52"
    using assms by (simp_all add: word_less_nat_alt pmm_inv_def)
  then have sum: "unat (start + x) = unat start + unat x" by (simp add: unat_plus_if')
  show ?thesis
  proof (cases "?t \<le> start + x")
    case True
    then have "unat ?t \<le> unat start + unat x" by (simp add: word_le_nat_alt sum)
    moreover have "unat (start + x - ?t) = unat start + unat x - unat ?t"
      using True by (simp add: unat_sub sum)
    moreover have "(unat start + unat x) mod unat ?t = unat start + unat x - unat ?t"
      using lt \<open>unat ?t \<le> unat start + unat x\<close> by (simp add: mod_if)
    ultimately show ?thesis using True by (simp add: scan_page_def)
  next
    case False
    then have "unat start + unat x < unat ?t" by (simp add: word_le_nat_alt sum)
    then show ?thesis using False by (simp add: scan_page_def sum)
  qed
qed

lemma scan_page_less:
  assumes "pmm_inv s" and "start < total_pages (g_pmm_info s)" and "x < total_pages (g_pmm_info s)"
  shows "scan_page s start x < total_pages (g_pmm_info s)"
proof -
  have "0 < unat (total_pages (g_pmm_info s))" using assms(3) by (simp add: word_less_nat_alt)
  then show ?thesis by (simp add: word_less_nat_alt unat_scan_page [OF assms])
qed

lemma scan_page_surj:
  assumes inv: "pmm_inv s" and start: "start < total_pages (g_pmm_info s)"
    and p: "p < total_pages (g_pmm_info s)"
  shows "\<exists>x. x < total_pages (g_pmm_info s) \<and> scan_page s start x = p"
proof -
  let ?t = "unat (total_pages (g_pmm_info s))"
  define d where "d = (unat p + ?t - unat start) mod ?t"
  have lt: "unat start < ?t" "unat p < ?t" "?t < 2 ^ 52"
    using assms by (simp_all add: word_less_nat_alt pmm_inv_def)
  then have d: "d < ?t" by (simp add: d_def)
  then have ud: "unat (word_of_nat d :: u64) = d" using lt by (intro unat_word_of_nat_64) simp
  then have x: "word_of_nat d < total_pages (g_pmm_info s)" using d by (simp add: word_less_nat_alt)
  have "(unat start + d) mod ?t = (unat start + (unat p + ?t - unat start)) mod ?t"
    by (simp add: d_def mod_add_right_eq)
  also have "\<dots> = unat p" using lt by simp
  finally have "unat (scan_page s start (word_of_nat d)) = unat p"
    using unat_scan_page [OF inv start x] by (simp add: ud)
  then show ?thesis using x by (auto simp: word_unat_eq_iff)
qed

lemma pmm_scan_Some:
  assumes "pmm_inv s" and "start < total_pages (g_pmm_info s)"
    and "pmm_scan s start (word_range 0 (total_pages (g_pmm_info s))) = Some p"
  shows "p \<in> free_set s"
  using assms scan_page_less [OF assms(1,2)]
  by (auto simp: pmm_scan_eq free_set_def find_Some_iff in_set_conv_nth [symmetric]
      simp del: set_word_range dest!: nth_mem) (auto simp: set_word_range)

lemma pmm_scan_None:
  assumes "pmm_inv s" and "start < total_pages (g_pmm_info s)"
    and "pmm_scan s start (word_range 0 (total_pages (g_pmm_info s))) = None"
  shows "free_set s = {}"
  using assms scan_page_surj [OF assms(1,2)]
  by (fastforce simp: pmm_scan_eq free_set_def find_None_iff)

lemma page_addr_inj:
  assumes "pmm_inv s" and "p < total_pages (g_pmm_info s)" and "q < total_pages (g_pmm_info s)"
    and "p * 4096 = q * 4096"
  shows "p = q"
proof -
  have "unat p < 2 ^ 52" "unat q < 2 ^ 52" using assms by (simp_all add: pmm_inv_def word_less_nat_alt)
  then have "unat p * 4096 = unat q * 4096"
    using assms(4) unat_mult_4k [of p] unat_mult_4k [of q] by simp
  then show ?thesis by (simp add: word_unat_eq_iff)
qed

lemma phys_to_page_addr:
  assumes "pmm_inv s" and "p < total_pages (g_pmm_info s)"
  shows "phys_to_page (p * 4096) = p" and "p * 4096 AND 4095 = 0"
proof -
  have "unat p < 4503599627370496" using assms by (simp add: pmm_inv_def word_less_nat_alt)
  then have "unat (p * 4096) = unat p * 4096" by (rule unat_mult_4k)
  then show "phys_to_page (p * 4096) = p" and "p * 4096 AND 4095 = 0"
    by (simp_all only: phys_to_page_def word_unat_eq_iff unat_div_4k unat_and_4095) simp_all
qed

lemma aligned_page_addr: "a AND 4095 = 0 \<Longrightarrow> phys_to_page a * 4096 = a"
proof -
  assume "a AND 4095 = 0"
  then have "unat a = unat a div 4096 * 4096" by (simp add: and_4095_zero mod_eq_0_iff_dvd)
  moreover have "unat a div 4096 < 4503599627370496" using unat_lt_64 [of a] by linarith
  ultimately show ?thesis by (simp add: phys_to_page_def word_unat_eq_iff unat_mult_4k unat_div_4k)
qed

lemma pmm_next_search_irrelevant [simp]:
  "pmm_inv (s\<lparr>g_next_search := n\<rparr>) = pmm_inv s" "free_set (s\<lparr>g_next_search := n\<rparr>) = free_set s"
  by (simp_all add: pmm_inv_def free_set_def)

lemma pmm_alloc_Some:
  assumes ok: "pmm_ok s" and alloc: "pmm_try_alloc_page_phys s = (Some a, s')"
  shows "\<exists>p. p \<in> free_set s \<and> a = p * 4096 \<and> pmm_ok s' \<and> free_set s' = free_set s - {p} \<and>
    total_pages (g_pmm_info s') = total_pages (g_pmm_info s)"
proof -
  let ?t = "total_pages (g_pmm_info s)"
  define start where "start = (if ?t \<le> g_next_search s then 0 else g_next_search s)"
  have inv: "pmm_inv s" using ok by (simp add: pmm_ok_def)
  from alloc have "?t \<noteq> 0" by (auto simp: pmm_try_alloc_page_phys_def Let_def split: if_splits)
  then have start: "start < ?t" by (simp add: start_def not_le word_neq_0_conv)
  from alloc obtain p n where p: "pmm_scan s start (word_range 0 ?t) = Some p"
    and a: "a = p * 4096" and s': "s' = (mark_page_used p s)\<lparr>g_next_search := n\<rparr>"
    by (auto simp: pmm_try_alloc_page_phys_def Let_def start_def split: if_splits option.splits)
  have "pmm_inv (mark_page_used p s)" "free_set (mark_page_used p s) = free_set s - {p}"
    by (rule mark_page_used_inv [OF inv], rule free_set_mark_used [OF inv])
  then have "pmm_ok s'" "free_set s' = free_set s - {p}" "total_pages (g_pmm_info s') = ?t"
    using ok by (simp_all add: s' pmm_ok_def pmm_inv_def free_set_def)
  then show ?thesis using a pmm_scan_Some [OF inv start p] by blast
qed

lemma pmm_alloc_None:
  assumes ok: "pmm_ok s" and alloc: "pmm_try_alloc_page_phys s = (None, s')"
  shows "s' = s \<and> free_set s = {}"
proof -
  let ?t = "total_pages (g_pmm_info s)"
  define start where "start = (if ?t \<le> g_next_search s then 0 else g_next_search s)"
  have inv: "pmm_inv s" using ok by (simp add: pmm_ok_def)
  show ?thesis
  proof (cases "free_pages (g_pmm_info s) = 0 \<or> ?t = 0")
    case True
    then have "card (free_set s) = 0"
      using inv card_free_set_le [of s] by (auto simp: pmm_inv_def)
    then show ?thesis using alloc True by (simp add: pmm_try_alloc_page_phys_def)
  next
    case False
    then have start: "start < ?t" by (simp add: start_def not_le word_neq_0_conv)
    from alloc False ok have none: "pmm_scan s start (word_range 0 ?t) = None" and "s' = s"
      by (auto simp: pmm_try_alloc_page_phys_def Let_def start_def pmm_ok_def split: if_splits option.splits)
    then show ?thesis using pmm_scan_None [OF inv start none] by simp
  qed
qed

lemma pmm_free_spec:
  assumes ok: "pmm_ok s"
  shows "pmm_ok (pmm_free_page_phys a s) \<and>
    total_pages (g_pmm_info (pmm_free_page_phys a s)) = total_pages (g_pmm_info s) \<and>
    free_set (pmm_free_page_phys a s) = free_set s \<union>
      {p. p < total_pages (g_pmm_info s) \<and> p * 4096 = a}"
proof (cases "a AND 4095 = 0 \<and> phys_to_page a < total_pages (g_pmm_info s)")
  case False
  then have "pmm_free_page_phys a s = s" by (auto simp: pmm_free_page_phys_def Let_def)
  moreover have "{p. p < total_pages (g_pmm_info s) \<and> p * 4096 = a} = {}"
    using False ok phys_to_page_addr [of s] by (auto simp: pmm_ok_def)
  ultimately show ?thesis unfolding \<open>pmm_free_page_phys a s = s\<close> using ok by (simp only: sup_bot_right simp_thms)
next
  case True
  let ?p = "phys_to_page a"
  have inv: "pmm_inv s" using ok by (simp add: pmm_ok_def)
  have pages: "{p. p < total_pages (g_pmm_info s) \<and> p * 4096 = a} = {?p}"
    using True aligned_page_addr [of a] phys_to_page_addr [OF inv] by auto
  show ?thesis
  proof (cases "bit_test (g_bitmap s) ?p")
    case used: True
    let ?m = "mark_page_free ?p s"
    define n where "n = (if ?p < g_next_search ?m then ?p else g_next_search ?m)"
    have inv': "pmm_inv ?m" and free': "free_set ?m = free_set s \<union> {?p}"
      and frame: "total_pages (g_pmm_info ?m) = total_pages (g_pmm_info s)" "pmm_initialized ?m = pmm_initialized s"
      using mark_page_free_inv [OF inv] free_set_mark_free [OF inv, of ?p] True by auto
    have eq: "pmm_free_page_phys a s = ?m\<lparr>g_next_search := n\<rparr>"
      using used True ok unfolding pmm_free_page_phys_def Let_def n_def pmm_ok_def by (simp add: not_le [symmetric])
    show ?thesis
      using ok inv' frame unfolding eq pages pmm_next_search_irrelevant free' pmm_ok_def by simp
  next
    case free: False
    then have "pmm_free_page_phys a s = s" by (simp add: pmm_free_page_phys_def Let_def)
    moreover have "?p \<in> free_set s" using free True by (simp add: free_set_def)
    ultimately show ?thesis using ok unfolding pages by auto
  qed
qed

interpretation pm: page_source pmm_try_alloc_page_phys pmm_free_page_phys pmm_avail pmm_managed pmm_ok
proof
  fix s a s'
  assume ok: "pmm_ok s" and "pmm_try_alloc_page_phys s = (Some a, s')"
  then obtain p where p: "p \<in> free_set s" "a = p * 4096" "pmm_ok s'" "free_set s' = free_set s - {p}"
    "total_pages (g_pmm_info s') = total_pages (g_pmm_info s)"
    using pmm_alloc_Some by blast
  have "inj_on (\<lambda>p. p * 4096) (free_set s)"
    using page_addr_inj [of s] ok by (auto simp: inj_on_def pmm_ok_def free_set_def)
  then have "pmm_avail s' = pmm_avail s - {a}"
    using p by (auto simp: pmm_avail_def inj_on_def)
  then show "pmm_ok s' \<and> a \<in> pmm_avail s \<and> pmm_avail s' = pmm_avail s - {a} \<and>
      pmm_managed s' = pmm_managed s"
    using p by (simp add: pmm_avail_def pmm_managed_def)
next
  fix s s'
  assume "pmm_ok s" and "pmm_try_alloc_page_phys s = (None, s')"
  then show "s' = s \<and> pmm_avail s = {}" using pmm_alloc_None [of s s'] by (simp add: pmm_avail_def)
next
  fix s a
  assume "pmm_ok s"
  then show "pmm_ok (pmm_free_page_phys a s) \<and> pmm_managed (pmm_free_page_phys a s) = pmm_managed s \<and>
      pmm_avail (pmm_free_page_phys a s) = pmm_avail s \<union> ({a} \<inter> pmm_managed s)"
    using pmm_free_spec [of s a] by (auto simp: pmm_avail_def pmm_managed_def)
next
  fix s
  show "pmm_avail s \<subseteq> pmm_managed s" by (auto simp: pmm_avail_def pmm_managed_def free_set_def)
qed

lemma finite_pmm_avail: "finite (pmm_avail s)"
  by (simp add: pmm_avail_def)

lemma card_pmm_avail: "pmm_ok s \<Longrightarrow> card (pmm_avail s) = unat (free_pages (g_pmm_info s))"
proof -
  assume ok: "pmm_ok s"
  then have "inj_on (\<lambda>p. p * 4096) (free_set s)"
    using page_addr_inj [of s] by (auto simp: inj_on_def pmm_ok_def free_set_def)
  then show ?thesis using ok by (simp add: pmm_avail_def card_image pmm_ok_def pmm_inv_def)
qed

text \<open>Next fit: the page taken is the first free one from the cursor on, cyclically.\<close>

lemma find_map_first:
  "find P xs = Some x \<longleftrightarrow> (\<exists>i < length xs. xs ! i = x \<and> P x \<and> (\<forall>j < i. \<not> P (xs ! j)))"
  by (auto simp: find_Some_iff)

lemma nth_word_range: "i < unat b \<Longrightarrow> word_range 0 b ! i = word_of_nat i"
  by (simp add: word_range_def)

lemma pmm_scan_first:
  assumes inv: "pmm_inv s" and start: "start < total_pages (g_pmm_info s)"
    and scan: "pmm_scan s start (word_range 0 (total_pages (g_pmm_info s))) = Some p"
  shows "\<exists>d < unat (total_pages (g_pmm_info s)).
     unat p = (unat start + d) mod unat (total_pages (g_pmm_info s)) \<and> p \<in> free_set s \<and>
     (\<forall>q \<in> free_set s. \<forall>c < d. unat q \<noteq> (unat start + c) mod unat (total_pages (g_pmm_info s)))"
proof -
  let ?t = "total_pages (g_pmm_info s)"
  have lt: "unat ?t < 2 ^ 52" using inv by (simp add: pmm_inv_def)
  from scan obtain x where x: "find (\<lambda>x. \<not> bit_test (g_bitmap s) (scan_page s start x)) (word_range 0 ?t) = Some x"
    and p: "p = scan_page s start x" by (auto simp: pmm_scan_eq)
  then obtain i where i: "i < unat ?t" "x = word_of_nat i"
    and first: "\<forall>j < i. bit_test (g_bitmap s) (scan_page s start (word_of_nat j))"
    by (auto simp: find_map_first length_word_range nth_word_range)
  have ui: "unat (word_of_nat j :: u64) = j" if "j < unat ?t" for j
    using that lt by (intro unat_word_of_nat_64) simp
  have pos: "unat (scan_page s start (word_of_nat j)) = (unat start + j) mod unat ?t" if "j < unat ?t" for j
    using unat_scan_page [OF inv start, of "word_of_nat j"] that by (simp add: ui word_less_nat_alt)
  have "unat q \<noteq> (unat start + c) mod unat ?t" if "q \<in> free_set s" "c < i" for q c
  proof
    assume "unat q = (unat start + c) mod unat ?t"
    then have "q = scan_page s start (word_of_nat c)" using pos [of c] that(2) i(1) by (simp add: word_unat_eq_iff)
    then show False using that first by (simp add: free_set_def)
  qed
  moreover have "p \<in> free_set s" using pmm_scan_Some [OF inv start scan] .
  ultimately show ?thesis using i pos [of i] p by auto
qed

section \<open>Properties\<close>

text \<open>
  A machine with five usable pages and a reserved one, the kernel image inside page 2: the state
  that the witnesses below evaluate on.
\<close>

definition demo_map :: "memory_map_entry list" where
  "demo_map = [\<lparr>mm_base = 0, mm_length = 0x5000, mm_type = MEMMAP_USABLE\<rparr>,
    \<lparr>mm_base = 0x5000, mm_length = 0x1000, mm_type = MEMMAP_RESERVED\<rparr>]"

definition demo_pmm :: pmm where
  "demo_pmm = \<lparr>g_bitmap = [0xE5], g_bitmap_ptr = 0xFFFF800000000000,
     g_pmm_info = \<lparr>total_pages = 6, free_pages = 3, used_pages = 3, bitmap_bytes = 1,
       bitmap_phys_base = 0, highest_physical_address = 0x6000\<rparr>,
     g_next_search = 1, pmm_initialized = True\<rparr>"

lemma demo_init: "pmm_init 0xFFFF800000000000 0x2000 0x2800 (Some demo_map) = Inr demo_pmm"
  by code_simp

lemma demo_ok: "pmm_ok demo_pmm"
  using pmm_init_spec [OF demo_init] by (simp add: pmm_ok_def)

text \<open>
  C30. After a successful \<^verbatim>\<open>pmm_init\<close> the accounting invariant holds and the free pages
  are exactly those, page 0 apart, that lie wholly inside a usable entry of the memory map and
  share no byte with the bitmap's own pages or with the kernel image. The bound on the image's end
  says that rounding it up to a page does not wrap around.
\<close>

theorem pmm_init_frees_exactly:
  assumes "pmm_init hhdm ks ke (Some es) = Inr s" and "unat ke \<le> 2 ^ 64 - 4096"
  shows "pmm_ok s \<and>
    free_set s = {p. p \<noteq> 0 \<and>
      (\<exists>e \<in> set es. mm_type e = MEMMAP_USABLE \<and> page_inside p (mm_base e) (entry_end e)) \<and>
      \<not> page_touched p (bitmap_phys_base (g_pmm_info s))
          (bitmap_phys_base (g_pmm_info s) + align_up (bitmap_bytes (g_pmm_info s)) PMM_PAGE_SIZE) \<and>
      \<not> page_touched p ks ke}"
  using pmm_init_spec [OF assms(1)] assms(2) by (simp add: pmm_ok_def)

theorem pmm_init_frees_exactly_witness:
  "pmm_ok demo_pmm \<and> 3 \<in> free_set demo_pmm \<and> 2 \<notin> free_set demo_pmm"
  using pmm_init_frees_exactly [OF demo_init] by (simp add: demo_map_def demo_pmm_def page_inside_def
      page_touched_def entry_end_def align_up_def)

text \<open>
  C33. \<^verbatim>\<open>pmm_init\<close> returns, rather than panicking, exactly when the map has an entry,
  describes at least one page, and has a usable entry with room for the bitmap: the page
  accounting check at its end never fails.
\<close>

theorem pmm_init_returns_iff:
  "(\<exists>s. pmm_init hhdm ks ke (Some es) = Inr s) \<longleftrightarrow>
     es \<noteq> [] \<and> align_up (max_physical_end es) PMM_PAGE_SIZE div PMM_PAGE_SIZE \<noteq> 0 \<and>
     (\<exists>e \<in> set es. bitmap_region_fits
        (align_up (align_up (max_physical_end es) PMM_PAGE_SIZE div PMM_PAGE_SIZE) 8 div 8) e)"
  by (rule pmm_init_Inr_iff)

text \<open>
  C31. \<open>n\<close> allocations in a row hand out different, page-aligned pages, all of which were free,
  and as many of them as there were free pages (at most \<open>n\<close>); exactly those pages stop being free.
\<close>

theorem pmm_alloc_pages:
  assumes "pmm_ok s" and "alloc_seq pmm_try_alloc_page_phys n s = (as, s')"
  shows "pmm_ok s' \<and> distinct as \<and> set as \<subseteq> pmm_avail s \<and> pmm_avail s' = pmm_avail s - set as \<and>
    length as = min n (unat (free_pages (g_pmm_info s))) \<and> (\<forall>a \<in> set as. a AND (PMM_PAGE_SIZE - 1) = 0)"
proof -
  have "a AND 4095 = 0" if "a \<in> pmm_avail s" for a
    using that assms(1) phys_to_page_addr(2) [of s] by (auto simp: pmm_avail_def free_set_def pmm_ok_def)
  then show ?thesis
    using pm.alloc_seq_spec [OF assms] pm.alloc_seq_length [OF assms(1) finite_pmm_avail assms(2)]
    by (auto simp: card_pmm_avail [OF assms(1)])
qed

theorem pmm_alloc_pages_witness:
  "\<exists>s'. alloc_seq pmm_try_alloc_page_phys 5 demo_pmm = ([0x1000, 0x3000, 0x4000], s') \<and>
     pmm_ok s' \<and> pmm_avail s' = pmm_avail demo_pmm - {0x1000, 0x3000, 0x4000}"
proof -
  obtain as s' where run: "alloc_seq pmm_try_alloc_page_phys 5 demo_pmm = (as, s')" by fastforce
  have "fst (alloc_seq pmm_try_alloc_page_phys 5 demo_pmm) = [0x1000, 0x3000, 0x4000]" by code_simp
  then have "as = [0x1000, 0x3000, 0x4000]" using run by simp
  then show ?thesis using pmm_alloc_pages [OF demo_ok run] run by simp
qed

text \<open>
  C34. The allocator is next-fit: the page handed out is the first free one met when counting
  cyclically from the cursor, and the cursor then stands just behind it.
\<close>

theorem pmm_alloc_next_fit:
  assumes "pmm_ok s" and "pmm_try_alloc_page_phys s = (Some a, s')"
    and "g_next_search s < total_pages (g_pmm_info s)"
  shows "\<exists>d < unat (total_pages (g_pmm_info s)).
    let t = unat (total_pages (g_pmm_info s)); p = (unat (g_next_search s) + d) mod t
    in unat a = p * 4096 \<and> unat (g_next_search s') = (p + 1) mod t \<and>
       (\<forall>q \<in> free_set s. \<forall>c < d. unat q \<noteq> (unat (g_next_search s) + c) mod t)"
proof -
  let ?t = "total_pages (g_pmm_info s)"
  have inv: "pmm_inv s" using assms(1) by (simp add: pmm_ok_def)
  obtain p where scan: "pmm_scan s (g_next_search s) (word_range 0 ?t) = Some p" and a: "a = p * 4096"
    and nxt: "g_next_search s' = (if ?t \<le> p + 1 then 0 else p + 1)"
    using assms by (auto simp: pmm_try_alloc_page_phys_def Let_def not_less [symmetric] split: if_splits option.splits)
  obtain d where d: "d < unat ?t" "unat p = (unat (g_next_search s) + d) mod unat ?t" "p \<in> free_set s"
    "\<forall>q \<in> free_set s. \<forall>c < d. unat q \<noteq> (unat (g_next_search s) + c) mod unat ?t"
    using pmm_scan_first [OF inv assms(3) scan] by blast
  have lt: "unat p < unat ?t" "unat ?t < 4503599627370496"
    using d(3) inv by (simp_all add: free_set_def word_less_nat_alt pmm_inv_def)
  have "unat a = unat p * 4096" unfolding a using lt by (intro unat_mult_4k) simp
  moreover have "unat (p + 1) = unat p + 1" using lt by (simp add: unat_plus_if')
  then have "unat (g_next_search s') = (unat p + 1) mod unat ?t"
    using lt(1) by (auto simp: nxt word_le_nat_alt mod_if)
  ultimately show ?thesis using d by (auto simp: Let_def intro!: exI [of _ d])
qed

theorem pmm_alloc_next_fit_witness:
  "\<exists>d < 6. (1 + d) mod 6 * 4096 = (0x1000 :: nat) \<and>
     (\<forall>q \<in> free_set demo_pmm. \<forall>c < d. unat q \<noteq> (1 + c) mod 6)"
proof -
  have run: "pmm_try_alloc_page_phys demo_pmm =
      (Some 0x1000, demo_pmm\<lparr>g_bitmap := [0xE7], g_pmm_info := (g_pmm_info demo_pmm)
         \<lparr>free_pages := 2, used_pages := 4\<rparr>, g_next_search := 2\<rparr>)" by code_simp
  show ?thesis using pmm_alloc_next_fit [OF demo_ok run] by (auto simp: demo_pmm_def Let_def)
qed



end
