(* ===== verification/Page_Tree.thy ===== *)
theory Page_Tree
  imports Velox_Prelude "HOL-Library.Sublist"
begin

text \<open>
  Four-level page tables as the processor reads them, over an abstract view of memory: \<open>E t i\<close> is
  entry \<open>i\<close> of the table at physical address \<open>t\<close>. \<open>tbl\<close> follows table entries along a list of
  indices, \<open>leaf\<close> finds the entry that ends a walk together with the number of levels left below
  it (0 for a 4 KiB, 1 for a 2 MiB, 2 for a 1 GiB page). \<open>tree_ok\<close> is the invariant of the tables
  \<^verbatim>\<open>mm/paging.c\<close> builds: no table is reached along two paths, and entries that are not present
  are zero. The lemmas say what each kind of entry update does to every walk.
\<close>

definition present :: "u64 \<Rightarrow> bool" where
  "present e \<longleftrightarrow> e AND 1 \<noteq> 0"

definition huge :: "u64 \<Rightarrow> bool" where
  "huge e \<longleftrightarrow> e AND 0x80 \<noteq> 0"

definition child :: "u64 \<Rightarrow> u64" where
  "child e = e AND 0x000FFFFFFFFFF000"

type_synonym view = "u64 \<Rightarrow> u16 \<Rightarrow> u64"

definition upd :: "u64 \<Rightarrow> u16 \<Rightarrow> u64 \<Rightarrow> view \<Rightarrow> view" where
  "upd t i x E = E(t := (E t)(i := x))"

fun tbl :: "view \<Rightarrow> u64 \<Rightarrow> u16 list \<Rightarrow> u64 option" where
  "tbl E t [] = Some t"
| "tbl E t (i # is) = (if present (E t i) \<and> \<not> huge (E t i) then tbl E (child (E t i)) is else None)"

fun leaf :: "view \<Rightarrow> u64 \<Rightarrow> u16 list \<Rightarrow> (nat \<times> u64) option" where
  "leaf E t [] = None"
| "leaf E t (i # is) =
     (if \<not> present (E t i) then None
      else if is = [] \<or> huge (E t i) then Some (length is, E t i)
      else leaf E (child (E t i)) is)"

definition tree_ok :: "view \<Rightarrow> u64 \<Rightarrow> u64 set \<Rightarrow> bool" where
  "tree_ok E r U \<longleftrightarrow>
     (\<forall>p t. length p \<le> 3 \<longrightarrow> tbl E r p = Some t \<longrightarrow> t \<in> U) \<and>
     (\<forall>p q t. length p \<le> 3 \<longrightarrow> length q \<le> 3 \<longrightarrow> tbl E r p = Some t \<longrightarrow> tbl E r q = Some t \<longrightarrow> p = q) \<and>
     (\<forall>p t i. length p \<le> 3 \<longrightarrow> tbl E r p = Some t \<longrightarrow> \<not> present (E t i) \<longrightarrow> E t i = 0) \<and>
     (\<forall>i. present (E r i) \<longrightarrow> \<not> huge (E r i))"

section \<open>Entries\<close>

lemma present_bit: "present e \<longleftrightarrow> bit e 0"
  using and_exp_eq_0_iff_not_bit [of e 0] by (simp add: present_def)

lemma huge_bit: "huge e \<longleftrightarrow> bit e 7"
  using and_exp_eq_0_iff_not_bit [of e 7] by (simp add: huge_def)

lemma bit_addr_mask: "bit (0x000FFFFFFFFFF000 :: u64) n \<longleftrightarrow> 12 \<le> n \<and> n < 52"
proof -
  have "(0x000FFFFFFFFFF000 :: u64) = push_bit 12 (mask 40)"
    by (simp add: mask_eq_exp_minus_1 push_bit_eq_mult)
  then show ?thesis by (simp only:) (auto simp only: bit_simps len_num1 len_bit0; simp)
qed

lemma bit_4095: "bit (4095 :: u64) n \<longleftrightarrow> n < 12"
proof -
  have "(4095 :: u64) = mask 12" by (simp add: mask_eq_exp_minus_1)
  then show ?thesis by (simp only: bit_mask_iff) auto
qed

lemma child_aligned [simp]: "child e AND 4095 = 0"
  by (rule bit_word_eqI) (simp only: child_def bit_and_iff bit_addr_mask bit_4095 bit_0_eq, auto)

lemma child_child [simp]: "child (child e) = child e"
  by (simp add: child_def and.assoc)

lemma child_or: "child (a OR b) = child a OR child b"
  by (simp add: child_def bit.conj_disj_distrib2)

lemma child_small [simp]: "child 1 = 0" "child 2 = 0" "child 3 = 0" "child 4 = 0" "child 0 = 0"
  by (simp_all add: child_def)

lemma child_id: "a AND 4095 = 0 \<Longrightarrow> unat a < 2 ^ 52 \<Longrightarrow> child a = a"
proof -
  assume al: "a AND 4095 = 0" and lt: "unat a < 2 ^ 52"
  have lo: "12 \<le> n" if "bit a n" for n
    using that al bit_4095 [of n] by (metis bit_0_eq bit_and_iff bot_apply bot_bool_def not_less)
  have "take_bit 52 (unat a) = unat a" using lt by (rule take_bit_nat_eq_self)
  then have "take_bit 52 a = a" by (metis unsigned_take_bit_eq word_unat_eq_iff)
  then have hi: "n < 52" if "bit a n" for n using that by (metis bit_take_bit_iff)
  show "child a = a"
    by (rule bit_word_eqI) (use lo hi in \<open>auto simp only: child_def bit_and_iff bit_addr_mask\<close>)
qed

lemma table_entry:
  assumes "child n = n"
  shows "present (n OR 3)" "\<not> huge (n OR 3)" "child (n OR 3) = n"
proof -
  have "bit (child n) 7 \<longleftrightarrow> False" by (simp only: child_def bit_and_iff bit_addr_mask) simp
  then have "\<not> bit n 7" by (simp add: assms)
  then show "present (n OR 3)" "\<not> huge (n OR 3)" "child (n OR 3) = n"
    using assms by (simp_all add: present_bit huge_bit bit_or_iff child_or)
qed

lemma user_entry: "present (e OR 4) = present e" "huge (e OR 4) = huge e" "child (e OR 4) = child e"
  by (simp_all add: present_bit huge_bit bit_or_iff child_or)

lemma not_present_0 [simp]: "\<not> present 0"
  by (simp add: present_def)

section \<open>Walks\<close>

lemma tbl_append: "tbl E r (p @ q) = Option.bind (tbl E r p) (\<lambda>t. tbl E t q)"
  by (induction p arbitrary: r) auto

lemma tbl_snoc: "tbl E r p = Some t \<Longrightarrow> tbl E r (p @ [i]) = (if present (E t i) \<and> \<not> huge (E t i) then Some (child (E t i)) else None)"
  by (simp add: tbl_append)

lemma leaf_append: "tbl E r p = Some t \<Longrightarrow> q \<noteq> [] \<Longrightarrow> leaf E r (p @ q) = leaf E t q"
  by (induction p arbitrary: r) (auto split: if_splits)

lemma tbl_aligned: "child r = r \<Longrightarrow> tbl E r p = Some t \<Longrightarrow> child t = t"
proof (induction p arbitrary: r)
  case (Cons i p)
  then show ?case using Cons.IH [of "child (E r i)"] by (auto split: if_splits)
qed simp

lemma tbl_prefix: "tbl E r q = Some t \<Longrightarrow> prefix p q \<Longrightarrow> \<exists>u. tbl E r p = Some u"
  by (cases "tbl E r p") (auto simp: prefix_def tbl_append)

text \<open>A walk is not affected by an update of an entry it does not read.\<close>

lemma tbl_cong:
  assumes "\<And>q1 j u. prefix (q1 @ [j]) q \<Longrightarrow> tbl E r q1 = Some u \<Longrightarrow> E' u j = E u j"
  shows "tbl E' r q = tbl E r q"
  using assms
proof (induction q arbitrary: r)
  case Nil
  then show ?case by simp
next
  case (Cons i q)
  have same: "E' r i = E r i" using Cons.prems [of "[]" i r] by simp
  show ?case
  proof (cases "present (E r i) \<and> \<not> huge (E r i)")
    case True
    have "tbl E' (child (E r i)) q = tbl E (child (E r i)) q"
    proof (rule Cons.IH)
      fix q1 j u
      assume "prefix (q1 @ [j]) q" and "tbl E (child (E r i)) q1 = Some u"
      then show "E' u j = E u j" using Cons.prems [of "i # q1" j u] True by simp
    qed
    then show ?thesis by (simp add: same True)
  next
    case False
    then show ?thesis by (auto simp: same)
  qed
qed

lemma leaf_cong:
  assumes "\<And>q1 j u. prefix (q1 @ [j]) q \<Longrightarrow> tbl E r q1 = Some u \<Longrightarrow> E' u j = E u j"
  shows "leaf E' r q = leaf E r q"
  using assms
proof (induction q arbitrary: r)
  case Nil
  then show ?case by simp
next
  case (Cons i q)
  have same: "E' r i = E r i" using Cons.prems [of "[]" i r] by simp
  show ?case
  proof (cases "present (E r i) \<and> \<not> huge (E r i)")
    case True
    have "leaf E' (child (E r i)) q = leaf E (child (E r i)) q"
    proof (rule Cons.IH)
      fix q1 j u
      assume "prefix (q1 @ [j]) q" and "tbl E (child (E r i)) q1 = Some u"
      then show "E' u j = E u j" using Cons.prems [of "i # q1" j u] True by simp
    qed
    then show ?thesis by (simp add: same True)
  next
    case False
    then show ?thesis by (auto simp: same)
  qed
qed

section \<open>The invariant\<close>

lemma tree_okD:
  assumes "tree_ok E r U"
  shows "length p \<le> 3 \<Longrightarrow> tbl E r p = Some t \<Longrightarrow> t \<in> U"
    and "length p \<le> 3 \<Longrightarrow> length q \<le> 3 \<Longrightarrow> tbl E r p = Some t \<Longrightarrow> tbl E r q = Some t \<Longrightarrow> p = q"
    and "length p \<le> 3 \<Longrightarrow> tbl E r p = Some t \<Longrightarrow> \<not> present (E t i) \<Longrightarrow> E t i = 0"
    and "present (E r i) \<Longrightarrow> \<not> huge (E r i)"
    and "r \<in> U"
proof -
  show "length p \<le> 3 \<Longrightarrow> tbl E r p = Some t \<Longrightarrow> t \<in> U" for p t
    using assms by (simp add: tree_ok_def)
  from this [of "[]" r] show "r \<in> U" by simp
  show "length p \<le> 3 \<Longrightarrow> length q \<le> 3 \<Longrightarrow> tbl E r p = Some t \<Longrightarrow> tbl E r q = Some t \<Longrightarrow> p = q"
    using assms unfolding tree_ok_def by blast
  show "length p \<le> 3 \<Longrightarrow> tbl E r p = Some t \<Longrightarrow> \<not> present (E t i) \<Longrightarrow> E t i = 0"
    using assms unfolding tree_ok_def by blast
  show "present (E r i) \<Longrightarrow> \<not> huge (E r i)" using assms unfolding tree_ok_def by blast
qed

lemma tree_ok_mono: "tree_ok E r U \<Longrightarrow> U \<subseteq> V \<Longrightarrow> tree_ok E r V"
  unfolding tree_ok_def by blast

text \<open>The entry updated: number \<open>i\<close> of the table \<open>t\<close> at path \<open>p\<close>.\<close>

lemma upd_off_path:
  assumes "tree_ok E r U" and "tbl E r p = Some t" and "length p \<le> 3"
    and "length q \<le> 4" and "\<not> prefix (p @ [i]) q"
  shows "tbl (upd t i x E) r q = tbl E r q" and "leaf (upd t i x E) r q = leaf E r q"
proof -
  have "upd t i x E u j = E u j" if "prefix (q1 @ [j]) q" "tbl E r q1 = Some u" for q1 j u
  proof (cases "u = t \<and> j = i")
    case True
    have "length q1 \<le> 3" using that(1) assms(4) by (auto dest: prefix_length_le)
    then have "q1 = p" using tree_okD(2) [OF assms(1) _ assms(3) that(2)] True assms(2) by simp
    then show ?thesis using that(1) True assms(5) by simp
  next
    case False
    then show ?thesis by (auto simp: upd_def)
  qed
  then show "tbl (upd t i x E) r q = tbl E r q" "leaf (upd t i x E) r q = leaf E r q"
    by (auto intro: tbl_cong leaf_cong)
qed

lemma upd_on_path:
  assumes "tree_ok E r U" and "tbl E r p = Some t" and "length p \<le> 3"
  shows "tbl (upd t i x E) r (p @ i # q) =
      (if present x \<and> \<not> huge x then tbl (upd t i x E) (child x) q else None)"
    and "leaf (upd t i x E) r (p @ i # q) =
      (if \<not> present x then None else if q = [] \<or> huge x then Some (length q, x)
       else leaf (upd t i x E) (child x) q)"
proof -
  have "\<not> prefix (p @ [i]) p" by (auto dest: prefix_length_le)
  then have "tbl (upd t i x E) r p = Some t"
    using upd_off_path(1) [OF assms(1,2,3), of p] assms(2,3) by simp
  moreover have "upd t i x E t i = x" by (simp add: upd_def)
  ultimately show "tbl (upd t i x E) r (p @ i # q) =
      (if present x \<and> \<not> huge x then tbl (upd t i x E) (child x) q else None)"
    and "leaf (upd t i x E) r (p @ i # q) =
      (if \<not> present x then None else if q = [] \<or> huge x then Some (length q, x)
       else leaf (upd t i x E) (child x) q)"
    by (simp_all add: tbl_append leaf_append)
qed

text \<open>
  What the invariant needs after an update: tables reached before and after agree, apart from those
  that disappear, and the new entry is zero or present.
\<close>

lemma tree_ok_upd:
  assumes ok: "tree_ok E r U" and t: "tbl E r p = Some t" and len: "length p \<le> 3"
    and sub: "\<And>q u. length q \<le> 3 \<Longrightarrow> tbl (upd t i x E) r q = Some u \<Longrightarrow> tbl E r q = Some u"
    and x: "\<not> present x \<Longrightarrow> x = 0" and root: "p = [] \<Longrightarrow> present x \<Longrightarrow> \<not> huge x"
  shows "tree_ok (upd t i x E) r U"
  unfolding tree_ok_def
proof (intro conjI allI impI)
  fix q u j
  assume q: "length q \<le> 3" "tbl (upd t i x E) r q = Some u" and np: "\<not> present (upd t i x E u j)"
  have "tbl E r q = Some u" using sub q by simp
  then show "upd t i x E u j = 0"
    using np x tree_okD(3) [OF ok q(1), of u j] by (auto simp: upd_def split: if_splits)
next
  fix j
  assume pres: "present (upd t i x E r j)"
  show "\<not> huge (upd t i x E r j)"
  proof (cases "t = r \<and> j = i")
    case True
    then have "p = []" using tree_okD(2) [OF ok len, of "[]" t] t by simp
    then show ?thesis using root pres True by (simp add: upd_def)
  next
    case False
    then show ?thesis using pres tree_okD(4) [OF ok] by (auto simp: upd_def split: if_splits)
  qed
qed (use sub tree_okD(1,2) [OF ok] in blast)+

section \<open>Kinds of update\<close>

text \<open>A leaf entry of a last-level table.\<close>

lemma set_leaf:
  assumes ok: "tree_ok E r U" and t: "tbl E r p = Some t" and len: "length p = 3"
    and x: "\<not> present x \<Longrightarrow> x = 0"
  shows "tree_ok (upd t i x E) r U"
    and "length q \<le> 3 \<Longrightarrow> tbl (upd t i x E) r q = tbl E r q"
    and "length q = 4 \<Longrightarrow> leaf (upd t i x E) r q =
      (if q = p @ [i] then if present x then Some (0, x) else None else leaf E r q)"
proof -
  have tbls: "tbl (upd t i x E) r q = tbl E r q" if "length q \<le> 3" for q
    using that len upd_off_path(1) [OF ok t, of q i x] prefix_length_le [of "p @ [i]" q] by fastforce
  then show "length q \<le> 3 \<Longrightarrow> tbl (upd t i x E) r q = tbl E r q" .
  show "tree_ok (upd t i x E) r U"
    using tree_ok_upd [OF ok t, of i x] tbls x len by force
  assume q: "length q = 4"
  show "leaf (upd t i x E) r q = (if q = p @ [i] then if present x then Some (0, x) else None else leaf E r q)"
  proof (cases "q = p @ [i]")
    case True
    then show ?thesis using upd_on_path(2) [OF ok t, of i x "[]"] len by simp
  next
    case False
    then have "\<not> prefix (p @ [i]) q" using q len by (auto simp: prefix_def)
    then show ?thesis using upd_off_path(2) [OF ok t, of q i x] q len False by simp
  qed
qed

text \<open>Flag bits of an entry that points to a table.\<close>

lemma reflag:
  assumes ok: "tree_ok E r U" and t: "tbl E r p = Some t" and len: "length p \<le> 2"
    and old: "present (E t i)" "\<not> huge (E t i)"
    and new: "present x" "\<not> huge x" "child x = child (E t i)"
  shows "tree_ok (upd t i x E) r U"
    and "length q \<le> 3 \<Longrightarrow> tbl (upd t i x E) r q = tbl E r q"
    and "length q = 4 \<Longrightarrow> leaf (upd t i x E) r q = leaf E r q"
proof -
  have below: "tbl (upd t i x E) (child x) q' = tbl E (child x) q'"
    "leaf (upd t i x E) (child x) q' = leaf E (child x) q'"
    if "length (p @ i # q') \<le> 4" for q'
  proof -
    have "upd t i x E u j = E u j" if pre: "prefix (q1 @ [j]) q'" "tbl E (child x) q1 = Some u" for q1 j u
    proof (cases "u = t \<and> j = i")
      case True
      have "tbl E r (p @ i # q1) = Some t" using pre(2) True t old new(3) by (simp add: tbl_append)
      moreover have "length (p @ i # q1) \<le> 3" using \<open>length (p @ i # q') \<le> 4\<close> pre(1) by (auto dest: prefix_length_le)
      ultimately have "p @ i # q1 = p" using tree_okD(2) [OF ok _ _ _ t, of "p @ i # q1"] len by linarith
      then show ?thesis by simp
    qed (auto simp: upd_def)
    then show "tbl (upd t i x E) (child x) q' = tbl E (child x) q'"
      "leaf (upd t i x E) (child x) q' = leaf E (child x) q'" by (auto intro: tbl_cong leaf_cong)
  qed
  have both: "tbl (upd t i x E) r q = tbl E r q \<and> (length q = 4 \<longrightarrow> leaf (upd t i x E) r q = leaf E r q)"
    if "length q \<le> 4" for q
  proof (cases "prefix (p @ [i]) q")
    case True
    then obtain q' where q': "q = p @ i # q'" by (auto simp: prefix_def)
    have "length q = 4 \<longrightarrow> q' \<noteq> []" using q' len by auto
    then show ?thesis
      using upd_on_path [OF ok t, of i x q'] below [of q'] that t old new len
      by (simp add: q' tbl_append leaf_append)
  next
    case False
    then show ?thesis using upd_off_path [OF ok t, of q i x] len that by simp
  qed
  then show "length q \<le> 3 \<Longrightarrow> tbl (upd t i x E) r q = tbl E r q"
    and "length q = 4 \<Longrightarrow> leaf (upd t i x E) r q = leaf E r q" by auto
  show "tree_ok (upd t i x E) r U"
    using tree_ok_upd [OF ok t, of i x] both new len by force
qed

text \<open>A page outside the tree, wiped before it becomes a table.\<close>

lemma wipe:
  assumes ok: "tree_ok E r U" and n: "n \<notin> U"
  shows "tree_ok (E(n := \<lambda>_. 0)) r U"
    and "length q \<le> 4 \<Longrightarrow> tbl (E(n := \<lambda>_. 0)) r q = tbl E r q"
    and "length q \<le> 4 \<Longrightarrow> leaf (E(n := \<lambda>_. 0)) r q = leaf E r q"
proof -
  let ?E = "E(n := \<lambda>_. 0)"
  have same: "?E u j = E u j" if "length q \<le> 4" "prefix (q1 @ [j]) q" "tbl E r q1 = Some u" for q q1 j u
  proof -
    have "length q1 \<le> 3" using that(1,2) by (auto dest: prefix_length_le)
    then have "u \<noteq> n" using tree_okD(1) [OF ok _ that(3)] n by auto
    then show ?thesis by simp
  qed
  show tbls: "length q \<le> 4 \<Longrightarrow> tbl ?E r q = tbl E r q" for q
    using same by (intro tbl_cong) blast
  show "length q \<le> 4 \<Longrightarrow> leaf ?E r q = leaf E r q"
    using same by (intro leaf_cong) blast
  show "tree_ok ?E r U"
    using ok tbls n unfolding tree_ok_def by (auto split: if_splits)
qed

text \<open>A wiped page becomes the table below entry \<open>i\<close> of \<open>t\<close>, which was not present.\<close>

lemma link:
  assumes ok: "tree_ok E r U" and t: "tbl E r p = Some t" and len: "length p \<le> 2"
    and old: "\<not> present (E t i)"
    and new: "present x" "\<not> huge x" "child x = n" and n: "n \<notin> U"
  defines "E' \<equiv> upd t i x (E(n := \<lambda>_. 0))"
  shows "tree_ok E' r (insert n U)"
    and "length q \<le> 3 \<Longrightarrow> tbl E' r q = (if q = p @ [i] then Some n else tbl E r q)"
    and "length q = 4 \<Longrightarrow> leaf E' r q = leaf E r q"
proof -
  let ?E = "E(n := \<lambda>_. 0)"
  have okE: "tree_ok ?E r U" and tE: "tbl ?E r p = Some t"
    using wipe(1) [OF ok n] wipe(2) [OF ok n, of p] t len by auto
  have "t \<in> U" using tree_okD(1) [OF ok _ t] len by simp
  then have nt: "n \<noteq> t" using n by auto
  have zero: "E' n j = 0" for j using nt by (simp add: E'_def upd_def)
  then have below: "tbl E' n q' = (if q' = [] then Some n else None)" "leaf E' n q' = None" for q'
    by (cases q'; simp)+
  have both: "tbl E' r q = (if q = p @ [i] then Some n else tbl E r q) \<and>
      (length q = 4 \<longrightarrow> leaf E' r q = leaf E r q)" if "length q \<le> 4" for q
  proof (cases "prefix (p @ [i]) q")
    case True
    then obtain q' where q': "q = p @ i # q'" by (auto simp: prefix_def)
    have "length q = 4 \<longrightarrow> q' \<noteq> []" using q' len by auto
    then show ?thesis
      using upd_on_path [OF okE tE, of i x q'] below [of q'] t old new len
      by (simp add: q' E'_def [symmetric] tbl_append leaf_append)
  next
    case False
    then show ?thesis
      using upd_off_path [OF okE tE, of q i x] wipe(2,3) [OF ok n, of q] len that
      by (auto simp: E'_def)
  qed
  then show tbls: "length q \<le> 3 \<Longrightarrow> tbl E' r q = (if q = p @ [i] then Some n else tbl E r q)"
    and "length q = 4 \<Longrightarrow> leaf E' r q = leaf E r q" for q by auto
  show "tree_ok E' r (insert n U)"
    unfolding tree_ok_def
  proof (intro conjI allI impI)
    fix q u j
    assume q: "length q \<le> 3" "tbl E' r q = Some u" and np: "\<not> present (E' u j)"
    show "E' u j = 0"
    proof (cases "u = n \<or> u = t \<and> j = i")
      case True
      then show ?thesis using zero np new(1) nt by (auto simp: E'_def upd_def)
    next
      case False
      then have "q \<noteq> p @ [i]" using tbls [OF q(1)] q(2) by auto
      then have "tbl E r q = Some u" using tbls [OF q(1)] q(2) by simp
      moreover have "E' u j = E u j" using False by (auto simp: E'_def upd_def)
      ultimately show ?thesis using np tree_okD(3) [OF ok q(1)] by simp
    qed
  next
    fix j
    assume "present (E' r j)"
    then show "\<not> huge (E' r j)"
      using tree_okD(4,5) [OF ok] n new by (auto simp: E'_def upd_def split: if_splits)
  qed (use tbls tree_okD(1,2) [OF ok] n in \<open>auto split: if_splits\<close>)
qed

text \<open>An entry loses the table below it.\<close>

lemma upd_cut:
  assumes ok: "tree_ok E r U" and t: "tbl E r p = Some t" and len: "length p \<le> 2"
    and new: "\<not> present x \<or> huge x" and x: "\<not> present x \<Longrightarrow> x = 0" and root: "p = [] \<Longrightarrow> present x \<Longrightarrow> \<not> huge x"
  shows "length q \<le> 4 \<Longrightarrow> tbl (upd t i x E) r q = (if prefix (p @ [i]) q then None else tbl E r q)"
    and "tree_ok (upd t i x E) r (U - {u. tbl E r (p @ [i]) = Some u})"
    and "length q \<le> 4 \<Longrightarrow> leaf (upd t i x E) r q =
      (if prefix (p @ [i]) q
       then if present x then Some (length q - Suc (length p), x) else None else leaf E r q)"
proof -
  let ?E = "upd t i x E"
  have len3: "length p \<le> 3" using len by simp
  have both: "tbl ?E r q = (if prefix (p @ [i]) q then None else tbl E r q) \<and>
      leaf ?E r q = (if prefix (p @ [i]) q
        then if present x then Some (length q - Suc (length p), x) else None else leaf E r q)"
    if "length q \<le> 4" for q
  proof (cases "prefix (p @ [i]) q")
    case True
    then obtain q' where q': "q = p @ i # q'" by (auto simp: prefix_def)
    then show ?thesis using upd_on_path [OF ok t len3, of i x q'] new by auto
  next
    case False
    then show ?thesis using upd_off_path [OF ok t len3 that False, of x] by simp
  qed
  then show tbls: "length q \<le> 4 \<Longrightarrow> tbl ?E r q = (if prefix (p @ [i]) q then None else tbl E r q)"
    and "length q \<le> 4 \<Longrightarrow> leaf ?E r q = (if prefix (p @ [i]) q
        then if present x then Some (length q - Suc (length p), x) else None else leaf E r q)" for q
    by auto
  have "tree_ok ?E r U"
    by (rule tree_ok_upd [OF ok t len3 _ x root]) (auto simp: tbls split: if_splits)
  moreover have "u \<noteq> v" if "length q \<le> 3" "tbl ?E r q = Some u" "tbl E r (p @ [i]) = Some v" for q u v
  proof
    assume "u = v"
    have "\<not> prefix (p @ [i]) q" "tbl E r q = Some u" using tbls [of q] that by (auto split: if_splits)
    then show False using tree_okD(2) [OF ok that(1), of "p @ [i]" u] that \<open>u = v\<close> len by simp
  qed
  ultimately show "tree_ok ?E r (U - {u. tbl E r (p @ [i]) = Some u})"
    unfolding tree_ok_def by blast
qed

lemma unlink:
  assumes ok: "tree_ok E r U" and t: "tbl E r p = Some t" and len: "length p \<le> 2"
    and old: "present (E t i)" "\<not> huge (E t i)" and empty: "\<And>j. E (child (E t i)) j = 0"
  shows "tree_ok (upd t i 0 E) r (U - {child (E t i)})"
    and "length q \<le> 4 \<Longrightarrow> tbl (upd t i 0 E) r q = (if prefix (p @ [i]) q then None else tbl E r q)"
    and "length q = 4 \<Longrightarrow> leaf (upd t i 0 E) r q = leaf E r q"
proof -
  have sn: "tbl E r (p @ [i]) = Some (child (E t i))" using tbl_snoc [OF t, of i] old by simp
  show "length q \<le> 4 \<Longrightarrow> tbl (upd t i 0 E) r q = (if prefix (p @ [i]) q then None else tbl E r q)"
    by (rule upd_cut(1) [OF ok t len]) auto
  have "tree_ok (upd t i 0 E) r (U - {u. tbl E r (p @ [i]) = Some u})"
    by (rule upd_cut(2) [OF ok t len]) auto
  then show "tree_ok (upd t i 0 E) r (U - {child (E t i)})" by (simp add: sn)
  assume q: "length q = 4"
  have "leaf E r q = None" if pre: "prefix (p @ [i]) q"
  proof -
    obtain q' where q': "q = (p @ [i]) @ q'" using pre by (rule prefixE)
    then have "q' \<noteq> []" using q len by auto
    then have "leaf E r q = leaf E (child (E t i)) q'" unfolding q' using leaf_append [OF sn] by blast
    also have "\<dots> = None" using empty by (cases q') auto
    finally show ?thesis .
  qed
  moreover have "leaf (upd t i 0 E) r q = (if prefix (p @ [i]) q
      then if present 0 then Some (length q - Suc (length p), 0) else None else leaf E r q)"
    by (rule upd_cut(3) [OF ok t len]) (use q in auto)
  ultimately show "leaf (upd t i 0 E) r q = leaf E r q" by simp
qed

end
