(* ===== verification/Paging.thy ===== *)
theory Paging
  imports Pmm Page_Tree
begin

text \<open>
  The page tables, \<^verbatim>\<open>mm/paging.c\<close>. The state \<open>vm\<close> holds the file's statics, the
  allocator it takes table pages from, the control registers, and the memory it writes through the
  direct map. That memory is a function from addresses to the 64-bit cell stored there: every
  access of the file is to \<^verbatim>\<open>table[i]\<close> for a page-aligned physical table, so two accesses
  are to the same cell or to disjoint bytes. TLB maintenance is an event log. Each public operation
  runs under \<^verbatim>\<open>g_paging_lock\<close> and is one step. Output through \<^verbatim>\<open>printk\<close> is
  left out; linker symbols, the stack pointer and the framebuffer are arguments.
\<close>

section \<open>State\<close>

abbreviation PAGE_SIZE_4K :: u64 where "PAGE_SIZE_4K \<equiv> 0x1000"
abbreviation PAGE_SIZE_2M :: u64 where "PAGE_SIZE_2M \<equiv> 0x200000"
abbreviation PAGE_SIZE_1G :: u64 where "PAGE_SIZE_1G \<equiv> 0x40000000"

abbreviation PAGE_PRESENT :: u64 where "PAGE_PRESENT \<equiv> 1"
abbreviation PAGE_WRITABLE :: u64 where "PAGE_WRITABLE \<equiv> 2"
abbreviation PAGE_USER :: u64 where "PAGE_USER \<equiv> 4"
abbreviation PAGE_PWT :: u64 where "PAGE_PWT \<equiv> 8"
abbreviation PAGE_PCD :: u64 where "PAGE_PCD \<equiv> 0x10"
abbreviation PAGE_PS :: u64 where "PAGE_PS \<equiv> 0x80"
abbreviation PAGE_GLOBAL :: u64 where "PAGE_GLOBAL \<equiv> 0x100"
abbreviation PAGE_NX :: u64 where "PAGE_NX \<equiv> 0x8000000000000000"

abbreviation PAGING_FLAG_WRITABLE :: u64 where "PAGING_FLAG_WRITABLE \<equiv> 1"
abbreviation PAGING_FLAG_USER :: u64 where "PAGING_FLAG_USER \<equiv> 2"
abbreviation PAGING_FLAG_EXEC :: u64 where "PAGING_FLAG_EXEC \<equiv> 4"
abbreviation PAGING_FLAG_GLOBAL :: u64 where "PAGING_FLAG_GLOBAL \<equiv> 8"
abbreviation PAGING_FLAG_NO_CACHE :: u64 where "PAGING_FLAG_NO_CACHE \<equiv> 0x10"
abbreviation PAGING_FLAG_WRITE_THROUGH :: u64 where "PAGING_FLAG_WRITE_THROUGH \<equiv> 0x20"

abbreviation ENTRY_ADDR_MASK_4K :: u64 where "ENTRY_ADDR_MASK_4K \<equiv> 0x000FFFFFFFFFF000"
abbreviation ENTRY_ADDR_MASK_2M :: u64 where "ENTRY_ADDR_MASK_2M \<equiv> 0x000FFFFFFFE00000"
abbreviation ENTRY_ADDR_MASK_1G :: u64 where "ENTRY_ADDR_MASK_1G \<equiv> 0x000FFFFFC0000000"

abbreviation STACK_PROTECT_WINDOW_BYTES :: u64 where "STACK_PROTECT_WINDOW_BYTES \<equiv> 0x10000"

record paging_info =
  initialized :: bool
  root_pml4_phys :: u64
  table_pages_allocated :: u64
  mapped_kernel_pages :: u64
  mapped_hhdm_2m_pages :: u64
  mapped_hhdm_4k_pages :: u64
  mapped_passthrough_pages :: u64
  reclaimed_bootloader_pages :: u64

datatype tlb_event = Invlpg u64 | Tlb_shootdown | Load_cr3 u64 | Write_cr4 u64

record vm =
  vm_pmm :: pmm
  vm_mem :: "u64 \<Rightarrow> u64"
  vm_hhdm :: u64
  g_paging_info :: paging_info
  g_paging_initialized :: bool
  g_nx_enabled :: bool
  vm_cr3 :: u64
  vm_cr4 :: u64
  vm_ipi_ready :: bool
  vm_tlb :: "tlb_event list"

definition read64 :: "vm \<Rightarrow> u64 \<Rightarrow> u64" where
  "read64 s a = vm_mem s a"

definition write64 :: "u64 \<Rightarrow> u64 \<Rightarrow> vm \<Rightarrow> vm" where
  "write64 a x s = s\<lparr>vm_mem := (vm_mem s)(a := x)\<rparr>"

text \<open>The address of \<^verbatim>\<open>table[index]\<close>.\<close>

definition entry_addr :: "u64 \<Rightarrow> u16 \<Rightarrow> u64" where
  "entry_addr table index = table + 8 * ucast index"

definition table_indices :: "u16 list" where
  "table_indices = map word_of_nat [0..<512]"

definition bump_tables :: "u64 \<Rightarrow> vm \<Rightarrow> vm" where
  "bump_tables d s =
     s\<lparr>g_paging_info := (g_paging_info s)
         \<lparr>table_pages_allocated := table_pages_allocated (g_paging_info s) + d\<rparr>\<rparr>"

section \<open>Indices, tables and entries\<close>

definition pml4_index :: "u64 \<Rightarrow> u16" where
  "pml4_index virt_addr = ucast (drop_bit 39 virt_addr AND 0x1FF)"

definition pdpt_index :: "u64 \<Rightarrow> u16" where
  "pdpt_index virt_addr = ucast (drop_bit 30 virt_addr AND 0x1FF)"

definition pd_index :: "u64 \<Rightarrow> u16" where
  "pd_index virt_addr = ucast (drop_bit 21 virt_addr AND 0x1FF)"

definition pt_index :: "u64 \<Rightarrow> u16" where
  "pt_index virt_addr = ucast (drop_bit 12 virt_addr AND 0x1FF)"

definition table_virt_from_phys :: "vm \<Rightarrow> u64 \<Rightarrow> u64" where
  "table_virt_from_phys s phys_addr = pmm_phys_to_virt (vm_hhdm s) phys_addr"

definition alloc_table_page :: "vm \<Rightarrow> (u64 \<times> vm) outcome" where
  "alloc_table_page s =
     (case pmm_try_alloc_page_phys (vm_pmm s) of
        (None, pm) \<Rightarrow> Inl (Panic ''Paging init failed: out of memory for page tables'')
      | (Some table_phys, pm) \<Rightarrow>
          if table_phys = PMM_INVALID_PHYS_ADDR
          then Inl (Panic ''Paging init failed: out of memory for page tables'')
          else
            let s1 = s\<lparr>vm_pmm := pm\<rparr>;
                table = table_virt_from_phys s1 table_phys;
                s2 = fold (\<lambda>i. write64 (entry_addr table i) 0) table_indices s1
            in Inr (table_phys, bump_tables 1 s2))"

definition get_or_create_table :: "u64 \<Rightarrow> u16 \<Rightarrow> bool \<Rightarrow> vm \<Rightarrow> (u64 \<times> vm) outcome" where
  "get_or_create_table parent_table index user s =
     (let entry = read64 s (entry_addr parent_table index)
      in if entry AND PAGE_PRESENT \<noteq> 0 then
           (if entry AND PAGE_PS \<noteq> 0
            then Inl (Panic ''Paging: huge-page entry in intermediate table walk'')
            else
              let s1 = (if user \<and> entry AND PAGE_USER = 0
                        then write64 (entry_addr parent_table index) (entry OR PAGE_USER) s else s)
              in Inr (entry AND ENTRY_ADDR_MASK_4K, s1))
         else
           andthen (alloc_table_page s) (\<lambda>(child_phys, s1).
             let new_entry = child_phys OR PAGE_PRESENT OR PAGE_WRITABLE;
                 new_entry = (if user then new_entry OR PAGE_USER else new_entry)
             in Inr (child_phys, write64 (entry_addr parent_table index) new_entry s1)))"

definition paging_flags_to_hw :: "bool \<Rightarrow> u64 \<Rightarrow> u64" where
  "paging_flags_to_hw nx flags =
     (let hw = 0;
          hw = (if flags AND PAGING_FLAG_WRITABLE \<noteq> 0 then hw OR PAGE_WRITABLE else hw);
          hw = (if flags AND PAGING_FLAG_USER \<noteq> 0 then hw OR PAGE_USER else hw);
          hw = (if flags AND PAGING_FLAG_GLOBAL \<noteq> 0 then hw OR PAGE_GLOBAL else hw);
          hw = (if flags AND PAGING_FLAG_WRITE_THROUGH \<noteq> 0 then hw OR PAGE_PWT else hw);
          hw = (if flags AND PAGING_FLAG_NO_CACHE \<noteq> 0 then hw OR PAGE_PCD else hw);
          hw = (if flags AND PAGING_FLAG_EXEC = 0 \<and> nx then hw OR PAGE_NX else hw)
      in hw)"

text \<open>\<open>Some pte\<close> is the address stored in \<^verbatim>\<open>*out_pte\<close>, \<open>None\<close> the result \<^verbatim>\<open>false\<close>.\<close>

definition walk_to_pte :: "u64 \<Rightarrow> u64 \<Rightarrow> bool \<Rightarrow> bool \<Rightarrow> vm \<Rightarrow> (u64 option \<times> vm) outcome" where
  "walk_to_pte root virt_addr create user s =
     (let pml4 = table_virt_from_phys s (root AND ENTRY_ADDR_MASK_4K);
          l4 = pml4_index virt_addr
      in if read64 s (entry_addr pml4 l4) AND PAGE_PRESENT = 0 \<and> \<not> create then Inr (None, s)
         else andthen (get_or_create_table pml4 l4 user s) (\<lambda>(pdpt_phys, s1).
           let pdpt = table_virt_from_phys s1 pdpt_phys;
               l3 = pdpt_index virt_addr
           in if read64 s1 (entry_addr pdpt l3) AND PAGE_PS \<noteq> 0 then Inr (None, s1)
              else if read64 s1 (entry_addr pdpt l3) AND PAGE_PRESENT = 0 \<and> \<not> create then Inr (None, s1)
              else andthen (get_or_create_table pdpt l3 user s1) (\<lambda>(pd_phys, s2).
                let pd = table_virt_from_phys s2 pd_phys;
                    l2 = pd_index virt_addr
                in if read64 s2 (entry_addr pd l2) AND PAGE_PS \<noteq> 0 then Inr (None, s2)
                   else if read64 s2 (entry_addr pd l2) AND PAGE_PRESENT = 0 \<and> \<not> create then Inr (None, s2)
                   else andthen (get_or_create_table pd l2 user s2) (\<lambda>(pt_phys, s3).
                     Inr (Some (entry_addr (table_virt_from_phys s3 pt_phys) (pt_index virt_addr)), s3)))))"

definition translate_with_cr3 :: "vm \<Rightarrow> u64 \<Rightarrow> u64 \<Rightarrow> u64 option" where
  "translate_with_cr3 s root_cr3_phys virt_addr =
     (let pml4 = table_virt_from_phys s (root_cr3_phys AND ENTRY_ADDR_MASK_4K);
          pml4e = read64 s (entry_addr pml4 (pml4_index virt_addr))
      in if pml4e AND PAGE_PRESENT = 0 then None
         else
           let pdpt = table_virt_from_phys s (pml4e AND ENTRY_ADDR_MASK_4K);
               pdpte = read64 s (entry_addr pdpt (pdpt_index virt_addr))
           in if pdpte AND PAGE_PRESENT = 0 then None
              else if pdpte AND PAGE_PS \<noteq> 0
              then Some ((pdpte AND ENTRY_ADDR_MASK_1G) OR (virt_addr AND (PAGE_SIZE_1G - 1)))
              else
                let pd = table_virt_from_phys s (pdpte AND ENTRY_ADDR_MASK_4K);
                    pde = read64 s (entry_addr pd (pd_index virt_addr))
                in if pde AND PAGE_PRESENT = 0 then None
                   else if pde AND PAGE_PS \<noteq> 0
                   then Some ((pde AND ENTRY_ADDR_MASK_2M) OR (virt_addr AND (PAGE_SIZE_2M - 1)))
                   else
                     let pt = table_virt_from_phys s (pde AND ENTRY_ADDR_MASK_4K);
                         pte = read64 s (entry_addr pt (pt_index virt_addr))
                     in if pte AND PAGE_PRESENT = 0 then None
                        else Some ((pte AND ENTRY_ADDR_MASK_4K) OR (virt_addr AND (PAGE_SIZE_4K - 1))))"

section \<open>Mapping, unmapping, protecting\<close>

definition paging_invlpg :: "u64 \<Rightarrow> vm \<Rightarrow> vm" where
  "paging_invlpg virt_addr s =
     s\<lparr>vm_tlb := vm_tlb s @ [Invlpg virt_addr] @ (if vm_ipi_ready s then [Tlb_shootdown] else [])\<rparr>"

definition paging_tlb_flush_all :: "vm \<Rightarrow> vm" where
  "paging_tlb_flush_all s =
     (let s1 = s\<lparr>vm_tlb := vm_tlb s @ [Load_cr3 (vm_cr3 s)]\<rparr>;
          cr4 = vm_cr4 s1
      in if cr4 AND 0x80 \<noteq> 0
         then s1\<lparr>vm_tlb := vm_tlb s1 @ [Write_cr4 (cr4 AND NOT 0x80), Write_cr4 cr4]\<rparr>
         else s1)"

definition paging_map_page :: "u64 \<Rightarrow> u64 \<Rightarrow> u64 \<Rightarrow> u64 \<Rightarrow> vm \<Rightarrow> (bool \<times> vm) outcome" where
  "paging_map_page root virt_addr phys_addr flags s =
     (if (virt_addr OR phys_addr) AND (PAGE_SIZE_4K - 1) \<noteq> 0 then Inr (False, s)
      else if flags AND PAGING_FLAG_GLOBAL \<noteq> 0 \<and> flags AND PAGING_FLAG_USER \<noteq> 0 then Inr (False, s)
      else case translate_with_cr3 s root virt_addr of
        Some existing_phys \<Rightarrow> Inr (False, s)
      | None \<Rightarrow>
          andthen (walk_to_pte root virt_addr True (flags AND PAGING_FLAG_USER \<noteq> 0) s)
            (\<lambda>(pte, s1). case pte of
               None \<Rightarrow> Inr (False, s1)
             | Some a \<Rightarrow>
                 let hw_flags = paging_flags_to_hw (g_nx_enabled s1) flags OR PAGE_PRESENT;
                     s2 = write64 a ((phys_addr AND ENTRY_ADDR_MASK_4K) OR hw_flags) s1
                 in Inr (True, paging_invlpg virt_addr s2)))"

text \<open>The loop of \<^verbatim>\<open>paging_map_range\<close>: the first page that cannot be mapped ends it.\<close>

fun map_pages :: "u64 \<Rightarrow> u64 \<Rightarrow> u64 \<Rightarrow> u64 \<Rightarrow> u64 list \<Rightarrow> vm \<Rightarrow> (bool \<times> vm) outcome" where
  "map_pages root virt_addr phys_addr flags [] s = Inr (True, s)"
| "map_pages root virt_addr phys_addr flags (offset # offsets) s =
     andthen (paging_map_page root (virt_addr + offset) (phys_addr + offset) flags s)
       (\<lambda>(ok, s1). if ok then map_pages root virt_addr phys_addr flags offsets s1 else Inr (False, s1))"

definition paging_map_range :: "u64 \<Rightarrow> u64 \<Rightarrow> u64 \<Rightarrow> u64 \<Rightarrow> u64 \<Rightarrow> vm \<Rightarrow> (bool \<times> vm) outcome" where
  "paging_map_range root virt_addr phys_addr bytes flags s =
     (if bytes = 0 then Inr (False, s)
      else if UINT64_MAX - bytes < virt_addr \<or> UINT64_MAX - bytes < phys_addr then Inr (False, s)
      else
        let aligned = align_up bytes PAGE_SIZE_4K
        in if aligned < bytes then Inr (False, s)
           else map_pages root virt_addr phys_addr flags (step_range PAGE_SIZE_4K 0 aligned) s)"

definition is_table_empty :: "vm \<Rightarrow> u64 \<Rightarrow> bool" where
  "is_table_empty s table_phys =
     (let table = table_virt_from_phys s table_phys
      in list_all (\<lambda>i. read64 s (entry_addr table i) = 0) table_indices)"

text \<open>One level of \<^verbatim>\<open>free_empty_tables\<close>: give the child table back and clear the entry
  that points to it.\<close>

definition release_table :: "u64 \<Rightarrow> u64 \<Rightarrow> vm \<Rightarrow> vm" where
  "release_table child_phys parent_entry s =
     (let s1 = s\<lparr>vm_pmm := pmm_free_page_phys child_phys (vm_pmm s)\<rparr>;
          s2 = bump_tables (- 1) s1
      in write64 parent_entry 0 s2)"

definition free_empty_tables :: "u64 \<Rightarrow> u64 \<Rightarrow> vm \<Rightarrow> vm" where
  "free_empty_tables root virt_addr s =
     (let pml4 = table_virt_from_phys s (root AND ENTRY_ADDR_MASK_4K);
          l4 = entry_addr pml4 (pml4_index virt_addr);
          pml4e = read64 s l4
      in if pml4e AND PAGE_PRESENT = 0 \<or> pml4e AND PAGE_PS \<noteq> 0 then s
         else
           let pdpt_phys = pml4e AND ENTRY_ADDR_MASK_4K;
               l3 = entry_addr (table_virt_from_phys s pdpt_phys) (pdpt_index virt_addr);
               pdpte = read64 s l3
           in if pdpte AND PAGE_PRESENT = 0 \<or> pdpte AND PAGE_PS \<noteq> 0 then s
              else
                let pd_phys = pdpte AND ENTRY_ADDR_MASK_4K;
                    l2 = entry_addr (table_virt_from_phys s pd_phys) (pd_index virt_addr);
                    pde = read64 s l2
                in if pde AND PAGE_PRESENT = 0 \<or> pde AND PAGE_PS \<noteq> 0 then s
                   else
                     let pt_phys = pde AND ENTRY_ADDR_MASK_4K
                     in if is_table_empty s pt_phys then
                          let s1 = release_table pt_phys l2 s
                          in if is_table_empty s1 pd_phys then
                               let s2 = release_table pd_phys l3 s1
                               in if is_table_empty s2 pdpt_phys then release_table pdpt_phys l4 s2 else s2
                             else s1
                        else s)"

text \<open>\<open>Some phys\<close> stands for \<^verbatim>\<open>true\<close> with the frame's base in \<^verbatim>\<open>*out_phys_addr\<close>.\<close>

definition paging_unmap_page :: "u64 \<Rightarrow> u64 \<Rightarrow> vm \<Rightarrow> (u64 option \<times> vm) outcome" where
  "paging_unmap_page root virt_addr s =
     andthen (walk_to_pte root virt_addr False False s) (\<lambda>(pte, s1). case pte of
        None \<Rightarrow> Inr (None, s1)
      | Some a \<Rightarrow>
          let entry = read64 s1 a
          in if entry AND PAGE_PRESENT = 0 then Inr (None, s1)
             else
               let s2 = paging_invlpg virt_addr (write64 a 0 s1)
               in Inr (Some (entry AND ENTRY_ADDR_MASK_4K), free_empty_tables root virt_addr s2))"

definition paging_protect_page :: "u64 \<Rightarrow> u64 \<Rightarrow> u64 \<Rightarrow> vm \<Rightarrow> (bool \<times> vm) outcome" where
  "paging_protect_page root virt_addr flags s =
     andthen (walk_to_pte root virt_addr False False s) (\<lambda>(pte, s1). case pte of
        None \<Rightarrow> Inr (False, s1)
      | Some a \<Rightarrow>
          let entry = read64 s1 a
          in if entry AND PAGE_PRESENT = 0 then Inr (False, s1)
             else
               let phys_addr = entry AND ENTRY_ADDR_MASK_4K;
                   hw_flags = paging_flags_to_hw (g_nx_enabled s1) flags OR PAGE_PRESENT
               in Inr (True, paging_invlpg virt_addr (write64 a (phys_addr OR hw_flags) s1)))"

fun protect_pages :: "u64 \<Rightarrow> u64 \<Rightarrow> u64 \<Rightarrow> u64 list \<Rightarrow> bool \<Rightarrow> vm \<Rightarrow> (bool \<times> vm) outcome" where
  "protect_pages root virt_addr flags [] ok s = Inr (ok, s)"
| "protect_pages root virt_addr flags (offset # offsets) ok s =
     andthen (paging_protect_page root (virt_addr + offset) flags s)
       (\<lambda>(done, s1). protect_pages root virt_addr flags offsets (ok \<and> done) s1)"

definition paging_protect_range :: "u64 \<Rightarrow> u64 \<Rightarrow> u64 \<Rightarrow> u64 \<Rightarrow> vm \<Rightarrow> (bool \<times> vm) outcome" where
  "paging_protect_range root virt_addr bytes flags s =
     (if bytes = 0 then Inr (False, s)
      else if UINT64_MAX - bytes < virt_addr then Inr (False, s)
      else
        let aligned = align_up bytes PAGE_SIZE_4K
        in if aligned < bytes then Inr (False, s)
           else protect_pages root virt_addr flags (step_range PAGE_SIZE_4K 0 aligned) True s)"

definition paging_ready :: "vm \<Rightarrow> bool" where
  "paging_ready s = g_paging_initialized s"

definition paging_get_info :: "vm \<Rightarrow> paging_info" where
  "paging_get_info s = g_paging_info s"

definition paging_set_nx_enabled :: "bool \<Rightarrow> vm \<Rightarrow> vm" where
  "paging_set_nx_enabled enabled s = s\<lparr>g_nx_enabled := enabled\<rparr>"

definition paging_translate :: "vm \<Rightarrow> u64 \<Rightarrow> u64 \<Rightarrow> u64 option" where
  "paging_translate s root virt_addr = translate_with_cr3 s root virt_addr"

section \<open>Tables seen as a tree\<close>

text \<open>
  The tables in memory as a view: what \<open>read64\<close> finds in entry \<open>i\<close> of the table at the page-aligned
  physical address \<open>t\<close>.
\<close>

definition ptview :: "vm \<Rightarrow> view" where
  "ptview s = (\<lambda>t i. if t AND 4095 = 0 \<and> i < 512 then read64 s (entry_addr (table_virt_from_phys s t) i) else 0)"

definition vpath :: "u64 \<Rightarrow> u16 list" where
  "vpath v = [pml4_index v, pdpt_index v, pd_index v, pt_index v]"

text \<open>The physical address a walk yields that ends \<open>k\<close> levels above the last with entry \<open>e\<close>.\<close>

definition leaf_addr :: "u64 \<Rightarrow> nat \<times> u64 \<Rightarrow> u64" where
  "leaf_addr v = (\<lambda>(k, e).
     if k = 0 then (e AND ENTRY_ADDR_MASK_4K) OR (v AND (PAGE_SIZE_4K - 1))
     else if k = 1 then (e AND ENTRY_ADDR_MASK_2M) OR (v AND (PAGE_SIZE_2M - 1))
     else (e AND ENTRY_ADDR_MASK_1G) OR (v AND (PAGE_SIZE_1G - 1)))"

text \<open>Pages taken from the allocator, and what page-table code leaves alone.\<close>

definition used_pages_of :: "vm \<Rightarrow> u64 set" where
  "used_pages_of s = pmm_managed (vm_pmm s) - pmm_avail (vm_pmm s)"

definition vm_env :: "vm \<Rightarrow> u64 \<times> bool \<times> bool \<times> u64 \<times> u64 \<times> bool \<times> u64 \<times> u64 set" where
  "vm_env s = (vm_hhdm s, g_paging_initialized s, g_nx_enabled s, vm_cr3 s, vm_cr4 s, vm_ipi_ready s,
     root_pml4_phys (g_paging_info s), pmm_managed (vm_pmm s))"

text \<open>
  The invariant for the address space with root \<open>r\<close>: the allocator is consistent and manages
  memory below \<open>2 ^ 52\<close>, and the tables form a tree of allocated pages, none of them among the pages
  \<open>F\<close> that belong to somebody else.
\<close>

definition vm_inv :: "vm \<Rightarrow> u64 \<Rightarrow> u64 set \<Rightarrow> bool" where
  "vm_inv s r F \<longleftrightarrow>
     pmm_ok (vm_pmm s) \<and> unat (total_pages (g_pmm_info (vm_pmm s))) \<le> 2 ^ 40 \<and> child r = r \<and>
     F \<inter> pmm_avail (vm_pmm s) = {} \<and> tree_ok (ptview s) r (used_pages_of s - F)"

text \<open>
  What every operation keeps: the invariant, the parts of the state that are not its business, and
  the contents of the pages \<open>F\<close>.
\<close>

definition vm_keeps :: "u64 \<Rightarrow> u64 set \<Rightarrow> vm \<Rightarrow> vm \<Rightarrow> bool" where
  "vm_keeps r F s s' \<longleftrightarrow>
     vm_inv s' r F \<and> vm_env s' = vm_env s \<and> (\<forall>t \<in> F. ptview s' t = ptview s t)"

text \<open>Tables may have been added, no translation has changed.\<close>

definition grows :: "u64 \<Rightarrow> u64 set \<Rightarrow> vm \<Rightarrow> vm \<Rightarrow> bool" where
  "grows r F s s' \<longleftrightarrow>
     vm_keeps r F s s' \<and> pmm_avail (vm_pmm s') \<subseteq> pmm_avail (vm_pmm s) \<and>
     (\<forall>q u. length q \<le> 3 \<longrightarrow> tbl (ptview s) r q = Some u \<longrightarrow> tbl (ptview s') r q = Some u) \<and>
     (\<forall>q. length q = 4 \<longrightarrow> leaf (ptview s') r q = leaf (ptview s) r q)"

lemma index_less [simp]:
  "pml4_index v < 512" "pdpt_index v < 512" "pd_index v < 512" "pt_index v < 512"
proof -
  have "ucast (w AND 0x1FF) < (512 :: u16)" for w :: u64
  proof -
    have "unat (w AND 0x1FF) < 512" using unat_and_mask [of w 9] by (simp add: mask_eq_exp_minus_1)
    then show ?thesis by (simp add: word_less_nat_alt unsigned_ucast_eq take_bit_nat_eq_self)
  qed
  then show "pml4_index v < 512" "pdpt_index v < 512" "pd_index v < 512" "pt_index v < 512"
    by (simp_all add: pml4_index_def pdpt_index_def pd_index_def pt_index_def)
qed

lemma entry_addr_inj:
  assumes "t AND 4095 = 0" and "t' AND 4095 = 0" and "i < 512" and "i' < 512"
    and "entry_addr (t + h) i = entry_addr (t' + h) i'"
  shows "t = t' \<and> i = i'"
proof -
  have eq: "t + 8 * ucast i = t' + 8 * ucast i'" using assms(5) by (simp add: entry_addr_def algebra_simps)
  have off: "unat (8 * ucast j :: u64) = 8 * unat j" if "j < 512" for j :: u16
    using that by (simp add: word_less_nat_alt unat_word_ariths unsigned_ucast_eq take_bit_nat_eq_self)
  have sum: "unat (u + 8 * ucast j) = unat u + 8 * unat j" if "u AND 4095 = 0" "j < 512" for u :: u64 and j :: u16
  proof -
    have "unat u mod 4096 = 0" using that(1) by (simp add: and_4095_zero)
    then have "unat u \<le> 18446744073709551616 - 4096" using unat_lt_64 [of u] by (auto simp: mod_eq_0_iff_dvd elim!: dvdE)
    then show ?thesis using that(2) by (simp add: unat_plus_if' off word_less_nat_alt)
  qed
  have nat: "unat t + 8 * unat i = unat t' + 8 * unat i'"
    using arg_cong [OF eq, of unat] sum assms by simp
  have m: "unat t mod 4096 = 0" "unat t' mod 4096 = 0" "8 * unat i < 4096" "8 * unat i' < 4096"
    using assms by (simp_all add: and_4095_zero word_less_nat_alt)
  have div: "(a + k) div 4096 * 4096 = a" if "a mod 4096 = 0" "k < 4096" for a k :: nat
    using that by (auto simp: mod_eq_0_iff_dvd elim!: dvdE)
  have "unat t = unat t'" using div [OF m(1,3)] div [OF m(2,4)] nat by simp
  then show ?thesis using nat by (simp add: word_unat_eq_iff)
qed

lemma ptview_write:
  assumes "t AND 4095 = 0" and "i < 512"
  shows "ptview (write64 (entry_addr (table_virt_from_phys s t) i) x s) = upd t i x (ptview s)"
proof (intro ext)
  fix t' i'
  let ?s = "write64 (entry_addr (table_virt_from_phys s t) i) x s"
  show "ptview ?s t' i' = upd t i x (ptview s) t' i'"
  proof (cases "t' AND 4095 = 0 \<and> i' < 512")
    case True
    have "entry_addr (t + vm_hhdm s) i = entry_addr (t' + vm_hhdm s) i' \<longleftrightarrow> t = t' \<and> i = i'"
      using entry_addr_inj [OF assms(1) _ assms(2), of t' i' "vm_hhdm s"] True by blast
    then show ?thesis using True
      by (simp add: ptview_def upd_def read64_def write64_def table_virt_from_phys_def pmm_phys_to_virt_def) auto
  next
    case False
    then show ?thesis using assms by (auto simp: ptview_def upd_def)
  qed
qed

lemma ptview_read:
  "t AND 4095 = 0 \<Longrightarrow> i < 512 \<Longrightarrow> read64 s (entry_addr (table_virt_from_phys s t) i) = ptview s t i"
  by (simp add: ptview_def)

lemma write64_frame [simp]:
  "vm_pmm (write64 a x s) = vm_pmm s" "vm_env (write64 a x s) = vm_env s" "vm_tlb (write64 a x s) = vm_tlb s"
  "table_virt_from_phys (write64 a x s) = table_virt_from_phys s"
  "g_paging_info (write64 a x s) = g_paging_info s" "vm_hhdm (write64 a x s) = vm_hhdm s"
  by (simp_all add: write64_def vm_env_def table_virt_from_phys_def fun_eq_iff)

lemma ptview_cong: "vm_mem s' = vm_mem s \<Longrightarrow> vm_hhdm s' = vm_hhdm s \<Longrightarrow> ptview s' = ptview s"
  unfolding ptview_def read64_def table_virt_from_phys_def by (simp only:)

lemma read64_eq: "read64 s a = vm_mem s a"
  by (simp add: read64_def)

lemma set_table_indices: "set table_indices = {i. i < 512}"
proof -
  have "i \<in> set table_indices" if "i < 512" for i
    using that by (auto simp: table_indices_def word_less_nat_alt image_iff intro!: bexI [of _ "unat i"])
  moreover have "word_of_nat n < (512 :: u16)" if "n < 512" for n
    using that by (simp add: word_less_nat_alt unat_of_nat)
  ultimately show ?thesis by (auto simp: table_indices_def)
qed

lemma fold_zero:
  assumes "t AND 4095 = 0" and "set is \<subseteq> {i. i < 512}"
  defines "w s \<equiv> fold (\<lambda>i. write64 (entry_addr (t + vm_hhdm s) i) 0) is s"
  shows "ptview (w s) = (ptview s)(t := \<lambda>i. if i \<in> set is then 0 else ptview s t i) \<and>
    vm_pmm (w s) = vm_pmm s \<and> vm_env (w s) = vm_env s \<and> vm_tlb (w s) = vm_tlb s \<and>
    g_paging_info (w s) = g_paging_info s"
  unfolding w_def using assms(2)
proof (induction "is" arbitrary: s)
  case (Cons i js)
  let ?s = "write64 (entry_addr (t + vm_hhdm s) i) 0 s"
  have "ptview ?s = upd t i 0 (ptview s)"
    using ptview_write [OF assms(1), of i s 0] Cons.prems
    by (simp add: table_virt_from_phys_def pmm_phys_to_virt_def)
  then show ?case using Cons.IH [of ?s] Cons.prems by (auto simp: upd_def fun_eq_iff)
qed (simp add: fun_eq_iff)

lemma bump_tables_frame [simp]:
  "vm_pmm (bump_tables d s) = vm_pmm s" "vm_env (bump_tables d s) = vm_env s"
  "vm_tlb (bump_tables d s) = vm_tlb s" "ptview (bump_tables d s) = ptview s"
  "vm_mem (bump_tables d s) = vm_mem s" "vm_hhdm (bump_tables d s) = vm_hhdm s"
  by (simp_all add: bump_tables_def vm_env_def) (rule ptview_cong; simp)

lemma avail_page:
  assumes "vm_inv s r F" and "n \<in> pmm_avail (vm_pmm s)"
  shows "child n = n" and "n AND 4095 = 0" and "n \<noteq> - 1" and "n \<in> pmm_managed (vm_pmm s)"
proof -
  have ok: "pmm_inv (vm_pmm s)" "unat (total_pages (g_pmm_info (vm_pmm s))) \<le> 2 ^ 40"
    using assms(1) by (simp_all add: vm_inv_def pmm_ok_def)
  obtain p where p: "p < total_pages (g_pmm_info (vm_pmm s))" "n = p * 4096"
    using assms(2) by (auto simp: pmm_avail_def free_set_def)
  then have up: "unat p < 2 ^ 40" using ok(2) by (simp add: word_less_nat_alt)
  show al: "n AND 4095 = 0" using phys_to_page_addr(2) [OF ok(1) p(1)] p(2) by simp
  have "unat n = unat p * 4096" using up by (simp add: p(2) unat_mult_4k)
  then show c: "child n = n" using up al by (intro child_id) simp_all
  show "n \<noteq> - 1" using al by auto
  show "n \<in> pmm_managed (vm_pmm s)" using p by (auto simp: pmm_managed_def)
qed

lemma alloc_table_page_spec:
  assumes inv: "vm_inv s r F"
  shows "safely (alloc_table_page s) (pmm_avail (vm_pmm s) = {}) (\<lambda>(n, s').
        n \<in> pmm_avail (vm_pmm s) \<and> pmm_ok (vm_pmm s') \<and>
        pmm_avail (vm_pmm s') = pmm_avail (vm_pmm s) - {n} \<and>
        total_pages (g_pmm_info (vm_pmm s')) = total_pages (g_pmm_info (vm_pmm s)) \<and>
        vm_env s' = vm_env s \<and> vm_tlb s' = vm_tlb s \<and> ptview s' = (ptview s)(n := \<lambda>_. 0))"
proof -
  have ok: "pmm_ok (vm_pmm s)" using inv by (simp add: vm_inv_def)
  obtain o' pm where run: "pmm_try_alloc_page_phys (vm_pmm s) = (o', pm)" by fastforce
  show ?thesis
  proof (cases o')
    case None
    then show ?thesis using run pm.alloc_None [OF ok] by (simp add: alloc_table_page_def)
  next
    case (Some n)
    let ?s1 = "s\<lparr>vm_pmm := pm\<rparr>"
    have a: "pmm_ok pm" "n \<in> pmm_avail (vm_pmm s)" "pmm_avail pm = pmm_avail (vm_pmm s) - {n}"
      "pmm_managed pm = pmm_managed (vm_pmm s)"
      using pm.alloc_Some [OF ok, of n pm] run Some by auto
    have tp: "total_pages (g_pmm_info pm) = total_pages (g_pmm_info (vm_pmm s))"
      using pmm_alloc_Some [OF ok, of n pm] run Some by auto
    note n = avail_page [OF inv a(2)]
    define w where "w = fold (\<lambda>i. write64 (entry_addr (n + vm_hhdm s) i) 0) table_indices ?s1"
    have s1: "ptview ?s1 = ptview s" by (rule ptview_cong) simp_all
    have w: "ptview w = (ptview s)(n := \<lambda>i. if i < 512 then 0 else ptview s n i)" "vm_pmm w = pm"
      "vm_env w = vm_env ?s1" "vm_tlb w = vm_tlb s"
      using fold_zero [OF n(2), of table_indices ?s1] unfolding w_def set_table_indices s1 by simp_all
    have "(\<lambda>i. if i < 512 then 0 else ptview s n i) = (\<lambda>_. 0)" by (auto simp: ptview_def)
    then have pw: "ptview w = (ptview s)(n := \<lambda>_. 0)" using w(1) by simp
    have "vm_env ?s1 = vm_env s" using a(4) by (simp add: vm_env_def)
    moreover have "alloc_table_page s = Inr (n, bump_tables 1 w)"
      using run Some n(3)
      by (simp add: alloc_table_page_def Let_def table_virt_from_phys_def pmm_phys_to_virt_def w_def)
    ultimately show ?thesis using w pw a tp by simp
  qed
qed

lemma vm_invD:
  assumes "vm_inv s r F"
  shows "pmm_ok (vm_pmm s)" "child r = r" "r AND 4095 = 0" "F \<inter> pmm_avail (vm_pmm s) = {}"
    "tree_ok (ptview s) r (used_pages_of s - F)" "unat (total_pages (g_pmm_info (vm_pmm s))) \<le> 2 ^ 40"
  using assms child_aligned [of r] by (simp_all add: vm_inv_def)

lemma vm_inv_table:
  assumes "vm_inv s r F" and "tbl (ptview s) r p = Some t"
  shows "child t = t" and "t AND 4095 = 0"
proof -
  show "child t = t" using assms by (blast intro: tbl_aligned dest: vm_invD(2))
  then show "t AND 4095 = 0" using child_aligned [of t] by simp
qed

lemma vm_keeps_refl: "vm_inv s r F \<Longrightarrow> vm_keeps r F s s"
  by (simp add: vm_keeps_def)

lemma vm_keeps_trans: "vm_keeps r F s s' \<Longrightarrow> vm_keeps r F s' s'' \<Longrightarrow> vm_keeps r F s s''"
  by (simp add: vm_keeps_def)

lemma grows_refl: "vm_inv s r F \<Longrightarrow> grows r F s s"
  by (simp add: grows_def vm_keeps_refl)

lemma grows_trans: "grows r F s s' \<Longrightarrow> grows r F s' s'' \<Longrightarrow> grows r F s s''"
  unfolding grows_def using vm_keeps_trans by (metis subset_trans)

lemma grows_inv: "grows r F s s' \<Longrightarrow> vm_inv s' r F"
  by (simp add: grows_def vm_keeps_def)

lemma table_env: "vm_env s' = vm_env s \<Longrightarrow> table_virt_from_phys s' = table_virt_from_phys s"
  by (simp add: vm_env_def table_virt_from_phys_def fun_eq_iff)

lemma get_or_create_table_spec:
  assumes inv: "vm_inv s r F" and t: "tbl (ptview s) r p = Some t" and len: "length p \<le> 2"
    and i: "i < 512" and nohuge: "present (ptview s t i) \<Longrightarrow> \<not> huge (ptview s t i)"
  shows "safely (get_or_create_table (table_virt_from_phys s t) i user s) (pmm_avail (vm_pmm s) = {})
      (\<lambda>(c, s'). grows r F s s' \<and> vm_tlb s' = vm_tlb s \<and> tbl (ptview s') r (p @ [i]) = Some c \<and>
        card (pmm_avail (vm_pmm s)) \<le> Suc (card (pmm_avail (vm_pmm s'))))"
proof -
  let ?E = "ptview s" and ?a = "entry_addr (table_virt_from_phys s t) i"
  note al = vm_inv_table(2) [OF inv t] and ok = vm_invD(5) [OF inv]
  have rd: "read64 s ?a = ?E t i" by (rule ptview_read [OF al i])
  have tU: "t \<in> used_pages_of s - F" using tree_okD(1) [OF ok _ t] len by simp
  show ?thesis
  proof (cases "present (?E t i)")
    case True
    have sn: "tbl ?E r (p @ [i]) = Some (child (?E t i))" using tbl_snoc [OF t] True nohuge by simp
    let ?x = "?E t i OR 4" and ?s = "write64 ?a (?E t i OR 4) s"
    note x = reflag [OF ok t len True nohuge [OF True], of ?x, unfolded user_entry,
        OF True nohuge [OF True] refl]
    have pv: "ptview ?s = upd t i ?x ?E" by (rule ptview_write [OF al i])
    have same: "used_pages_of ?s = used_pages_of s" by (simp add: used_pages_of_def)
    have "grows r F s ?s"
      using x inv tU unfolding grows_def vm_keeps_def vm_inv_def pv same
      by (auto simp: upd_def)
    moreover have "tbl (ptview ?s) r (p @ [i]) = Some (child (?E t i))" using x(2) [of "p @ [i]"] len sn pv by simp
    ultimately show ?thesis
      using True nohuge sn grows_refl [OF inv]
      by (simp add: get_or_create_table_def rd Let_def present_def [symmetric] huge_def [symmetric]
          child_def [symmetric])
  next
    case False
    show ?thesis
    proof (cases "alloc_table_page s")
      case (Inl h)
      then show ?thesis using alloc_table_page_spec [OF inv] False
        by (simp add: get_or_create_table_def rd present_def [symmetric])
    next
      case (Inr res)
      obtain n s1 where res: "res = (n, s1)" by (cases res)
      have n: "n \<in> pmm_avail (vm_pmm s)" "pmm_ok (vm_pmm s1)"
        "pmm_avail (vm_pmm s1) = pmm_avail (vm_pmm s) - {n}"
        "total_pages (g_pmm_info (vm_pmm s1)) = total_pages (g_pmm_info (vm_pmm s))"
        "vm_env s1 = vm_env s" "vm_tlb s1 = vm_tlb s" "ptview s1 = ?E(n := \<lambda>_. 0)"
        using alloc_table_page_spec [OF inv] Inr res by auto
      note cn = avail_page [OF inv n(1)]
      define x where "x = (if user then (n OR 3) OR 4 else n OR 3)"
      have x: "present x" "\<not> huge x" "child x = n"
        using table_entry [OF cn(1)] by (simp_all add: x_def user_entry)
      have nU: "n \<notin> used_pages_of s - F" using n(1) by (simp add: used_pages_of_def)
      note L = link [OF ok t len False x nU]
      let ?s = "write64 ?a x s1"
      have pv: "ptview ?s = upd t i x (?E(n := \<lambda>_. 0))"
        using ptview_write [OF al i, of s1 x] n(7) by (simp add: table_env [OF n(5)])
      have man: "pmm_managed (vm_pmm s1) = pmm_managed (vm_pmm s)" using n(5) by (simp add: vm_env_def)
      have nF: "n \<notin> F" using vm_invD(4) [OF inv] n(1) by blast
      have U: "insert n (used_pages_of s - F) \<subseteq> used_pages_of ?s - F"
        using n cn(4) nF by (auto simp: used_pages_of_def man)
      have "tree_ok (ptview ?s) r (used_pages_of ?s - F)"
        using tree_ok_mono [OF L(1) U] pv by simp
      then have "grows r F s ?s"
        using L(2,3) n inv tU nF False tbl_snoc [OF t, of i] unfolding grows_def vm_keeps_def vm_inv_def pv
        by (auto simp: upd_def)
      moreover have "tbl (ptview ?s) r (p @ [i]) = Some n" using L(2) [of "p @ [i]"] len pv by simp
      moreover have "card (pmm_avail (vm_pmm s)) \<le> Suc (card (pmm_avail (vm_pmm s1)))"
        using n(1,3) card_Suc_Diff1 [OF finite_pmm_avail n(1)] by simp
      moreover have "get_or_create_table (table_virt_from_phys s t) i user s = Inr (n, ?s)"
        using Inr res False by (simp add: get_or_create_table_def rd Let_def present_def [symmetric] x_def)
      ultimately show ?thesis using n(6) by simp
    qed
  qed
qed

section \<open>Walks\<close>

lemma vpath_take: "take 3 (vpath v) = [pml4_index v, pdpt_index v, pd_index v]"
  by (simp add: vpath_def)

lemma length_vpath [simp]: "length (vpath v) = 4"
  by (simp add: vpath_def)

lemma root_masked: "child r = r \<Longrightarrow> r AND 0x000FFFFFFFFFF000 = r"
  by (simp add: child_def)

text \<open>\<^verbatim>\<open>translate_with_cr3\<close> computes the walk of the tree, whatever the tables hold.\<close>

lemma translate_leaf:
  assumes "child r = r" and "\<And>i. present (ptview s r i) \<Longrightarrow> \<not> huge (ptview s r i)"
  shows "translate_with_cr3 s r v = map_option (leaf_addr v) (leaf (ptview s) r (vpath v))"
proof -
  have al: "r AND 4095 = 0" using assms(1) child_aligned [of r] by simp
  have rd: "read64 s (entry_addr (table_virt_from_phys s (child e)) i) = ptview s (child e) i" if "i < 512" for e i
    using that by (intro ptview_read) simp_all
  define e4 where "e4 = ptview s r (pml4_index v)"
  define e3 where "e3 = ptview s (child e4) (pdpt_index v)"
  define e2 where "e2 = ptview s (child e3) (pd_index v)"
  define e1 where "e1 = ptview s (child e2) (pt_index v)"
  note e = e1_def [symmetric] e2_def [symmetric] e3_def [symmetric] e4_def [symmetric]
  have tr: "translate_with_cr3 s r v =
      (if \<not> present e4 then None else if \<not> present e3 then None
       else if huge e3 then Some (leaf_addr v (2, e3)) else if \<not> present e2 then None
       else if huge e2 then Some (leaf_addr v (1, e2)) else if \<not> present e1 then None
       else Some (leaf_addr v (0, e1)))"
    unfolding translate_with_cr3_def Let_def child_def [symmetric] assms(1) ptview_read [OF al index_less(1)]
      rd [OF index_less(2)] rd [OF index_less(3)] rd [OF index_less(4)] e
    by (simp add: present_def huge_def leaf_addr_def child_def)
  have "leaf (ptview s) r (vpath v) =
      (if \<not> present e4 then None else if huge e4 then Some (3, e4) else if \<not> present e3 then None
       else if huge e3 then Some (2, e3) else if \<not> present e2 then None
       else if huge e2 then Some (1, e2) else if \<not> present e1 then None else Some (0, e1))"
    unfolding vpath_def leaf.simps e by simp
  then show ?thesis unfolding tr using assms(2) [of "pml4_index v"] by (auto simp: e)
qed

lemma vm_inv_translate:
  "vm_inv s r F \<Longrightarrow> translate_with_cr3 s r v = map_option (leaf_addr v) (leaf (ptview s) r (vpath v))"
  using vm_invD [of s r F] tree_okD(4) [of "ptview s" r "used_pages_of s - F"] by (intro translate_leaf) auto

text \<open>
  \<open>reached\<close> describes a walk in progress: it stands at table \<open>t\<close> at path \<open>p\<close>, and has taken at most
  one page per level from the allocator.
\<close>

definition reached :: "u64 \<Rightarrow> u64 set \<Rightarrow> vm \<Rightarrow> u16 list \<Rightarrow> u64 \<times> vm \<Rightarrow> bool" where
  "reached r F s p = (\<lambda>(t, s').
     grows r F s s' \<and> vm_tlb s' = vm_tlb s \<and> tbl (ptview s') r p = Some t \<and>
     card (pmm_avail (vm_pmm s)) \<le> length p + card (pmm_avail (vm_pmm s')))"

lemma walk_level:
  assumes at: "reached r F s p (t, s1)" and len: "length p \<le> 2"
    and i: "i < 512" and leaf: "leaf (ptview s) r (p @ i # q) = None" and q: "length p + length q = 3"
  shows "read64 s1 (entry_addr (table_virt_from_phys s1 t) i) AND PAGE_PS = 0"
    and "safely (get_or_create_table (table_virt_from_phys s1 t) i user s1)
      (card (pmm_avail (vm_pmm s)) < 3) (reached r F s (p @ [i]))"
proof -
  have inv: "vm_inv s1 r F" and t: "tbl (ptview s1) r p = Some t" and g: "grows r F s s1"
    and c: "card (pmm_avail (vm_pmm s)) \<le> length p + card (pmm_avail (vm_pmm s1))" "vm_tlb s1 = vm_tlb s"
    using at grows_inv by (auto simp: reached_def)
  have lf: "leaf (ptview s1) r (p @ i # q) = None" using g leaf q by (simp add: grows_def)
  have nh: "\<not> huge (ptview s1 t i)"
  proof (cases "present (ptview s1 t i)")
    case True
    then show ?thesis using lf leaf_append [OF t, of "i # q"] by (auto split: if_splits)
  next
    case False
    then have "ptview s1 t i = 0" using tree_okD(3) [OF vm_invD(5) [OF inv] _ t] len by simp
    then show ?thesis by (simp add: huge_def)
  qed
  then show "read64 s1 (entry_addr (table_virt_from_phys s1 t) i) AND PAGE_PS = 0"
    by (simp add: ptview_read [OF vm_inv_table(2) [OF inv t] i] huge_def)
  show "safely (get_or_create_table (table_virt_from_phys s1 t) i user s1)
      (card (pmm_avail (vm_pmm s)) < 3) (reached r F s (p @ [i]))"
    by (rule safely_mono [OF get_or_create_table_spec [OF inv t len i nh]])
      (use c len grows_trans [OF g] in \<open>auto simp: reached_def\<close>)
qed

lemma walk_create_spec:
  assumes inv: "vm_inv s r F" and unmapped: "leaf (ptview s) r (vpath v) = None"
  shows "safely (walk_to_pte r v True user s) (card (pmm_avail (vm_pmm s)) < 3)
     (\<lambda>(a, s'). \<exists>t. reached r F s (take 3 (vpath v)) (t, s') \<and>
             a = Some (entry_addr (table_virt_from_phys s' t) (pt_index v)))"
proof -
  let ?i4 = "pml4_index v" and ?i3 = "pdpt_index v" and ?i2 = "pd_index v" and ?i1 = "pt_index v"
  let ?S = "card (pmm_avail (vm_pmm s)) < 3"
  let ?Q = "\<lambda>(a, s'). \<exists>t. reached r F s (take 3 (vpath v)) (t, s') \<and>
             a = Some (entry_addr (table_virt_from_phys s' t) (pt_index v))"
  have start: "reached r F s [] (r, s)" using grows_refl [OF inv] by (simp add: reached_def)
  have l2: "safely (andthen (get_or_create_table (table_virt_from_phys s2 t2) ?i2 user s2)
      (\<lambda>(pt_phys, s3). Inr (Some (entry_addr (table_virt_from_phys s3 pt_phys) ?i1), s3))) ?S ?Q"
    if "reached r F s [?i4, ?i3] (t2, s2)" for t2 s2
    by (rule safely_andthen, rule walk_level(2) [OF that, where q = "[?i1]"])
      (use unmapped in \<open>auto simp: vpath_def\<close>)
  have p2: "read64 s2 (entry_addr (table_virt_from_phys s2 t2) ?i2) AND PAGE_PS = 0"
    if "reached r F s [?i4, ?i3] (t2, s2)" for t2 s2
    by (rule walk_level(1) [OF that, where q = "[?i1]"]) (use unmapped in \<open>auto simp: vpath_def\<close>)
  have l3: "safely (get_or_create_table (table_virt_from_phys s1 t3) ?i3 user s1) ?S (reached r F s [?i4, ?i3])"
    if "reached r F s [?i4] (t3, s1)" for t3 s1
    using walk_level(2) [OF that, of ?i3 "[?i2, ?i1]"] unmapped by (simp add: vpath_def)
  have p3: "read64 s1 (entry_addr (table_virt_from_phys s1 t3) ?i3) AND PAGE_PS = 0"
    if "reached r F s [?i4] (t3, s1)" for t3 s1
    by (rule walk_level(1) [OF that, where q = "[?i2, ?i1]"]) (use unmapped in \<open>auto simp: vpath_def\<close>)
  have l4: "safely (get_or_create_table (table_virt_from_phys s r) ?i4 user s) ?S (reached r F s [?i4])"
    using walk_level(2) [OF start, of ?i4 "[?i3, ?i2, ?i1]"] unmapped by (simp add: vpath_def)
  show ?thesis
    unfolding walk_to_pte_def Let_def root_masked [OF vm_invD(2) [OF inv]]
    by (simp, rule safely_andthen [OF l4], clarsimp simp: p3, rule safely_andthen [OF l3], assumption,
        clarsimp simp: p2, rule l2)
qed

lemma entry_bits: "e AND 1 = 0 \<longleftrightarrow> \<not> present e" "e AND 0x80 = 0 \<longleftrightarrow> \<not> huge e"
  by (simp_all add: present_def huge_def)

lemma get_table_present:
  assumes "t AND 4095 = 0" and "i < 512" and "present (ptview s t i)" and "\<not> huge (ptview s t i)"
  shows "get_or_create_table (table_virt_from_phys s t) i False s = Inr (child (ptview s t i), s)"
  using assms by (simp add: get_or_create_table_def ptview_read present_def huge_def child_def)

lemma walk_lookup:
  assumes inv: "vm_inv s r F"
  shows "walk_to_pte r v False False s =
    Inr (map_option (\<lambda>t. entry_addr (table_virt_from_phys s t) (pt_index v)) (tbl (ptview s) r (take 3 (vpath v))), s)"
proof -
  define e4 where "e4 = ptview s r (pml4_index v)"
  define e3 where "e3 = ptview s (child e4) (pdpt_index v)"
  define e2 where "e2 = ptview s (child e3) (pd_index v)"
  have h4: "present e4 \<Longrightarrow> \<not> huge e4"
    using tree_okD(4) [OF vm_invD(5) [OF inv]] by (simp add: e4_def)
  have g4: "present e4 \<Longrightarrow> get_or_create_table (table_virt_from_phys s r) (pml4_index v) False s = Inr (child e4, s)"
    using get_table_present [OF vm_invD(3) [OF inv] index_less(1)] h4 by (simp add: e4_def)
  have g3: "present e3 \<Longrightarrow> \<not> huge e3 \<Longrightarrow>
      get_or_create_table (table_virt_from_phys s (child e4)) (pdpt_index v) False s = Inr (child e3, s)"
    using get_table_present [OF child_aligned index_less(2)] by (simp add: e3_def)
  have g2: "present e2 \<Longrightarrow> \<not> huge e2 \<Longrightarrow>
      get_or_create_table (table_virt_from_phys s (child e3)) (pd_index v) False s = Inr (child e2, s)"
    using get_table_present [OF child_aligned index_less(3)] by (simp add: e2_def)
  have r4: "read64 s (entry_addr (table_virt_from_phys s r) (pml4_index v)) = e4"
    and r3: "read64 s (entry_addr (table_virt_from_phys s (child e4)) (pdpt_index v)) = e3"
    and r2: "read64 s (entry_addr (table_virt_from_phys s (child e3)) (pd_index v)) = e2"
    using ptview_read [OF vm_invD(3) [OF inv] index_less(1)] ptview_read [OF child_aligned index_less(2)]
      ptview_read [OF child_aligned index_less(3)] by (simp_all add: e4_def e3_def e2_def)
  have "tbl (ptview s) r (take 3 (vpath v)) =
      (if \<not> present e4 then None else if \<not> present e3 \<or> huge e3 then None
       else if \<not> present e2 \<or> huge e2 then None else Some (child e2))"
    using h4 unfolding vpath_take tbl.simps e4_def [symmetric] e3_def [symmetric] e2_def [symmetric] by auto
  then show ?thesis
    using g4 g3 g2 unfolding walk_to_pte_def Let_def root_masked [OF vm_invD(2) [OF inv]] r4
    by (auto simp: entry_bits r3 r2)
qed

lemma leaf_via_table:
  "leaf E r (vpath v) = Some (0, e) \<longleftrightarrow>
     (\<exists>t. tbl E r (take 3 (vpath v)) = Some t \<and> present (E t (pt_index v)) \<and> e = E t (pt_index v))"
  by (auto simp: vpath_def split: if_splits)

lemma paging_invlpg_frame [simp]:
  "vm_pmm (paging_invlpg v s) = vm_pmm s" "vm_env (paging_invlpg v s) = vm_env s"
  "ptview (paging_invlpg v s) = ptview s" "used_pages_of (paging_invlpg v s) = used_pages_of s"
  "vm_inv (paging_invlpg v s) r F = vm_inv s r F"
  "g_paging_info (paging_invlpg v s) = g_paging_info s"
proof -
  show *: "ptview (paging_invlpg v s) = ptview s"
    by (rule ptview_cong) (simp_all add: paging_invlpg_def)
  show "vm_inv (paging_invlpg v s) r F = vm_inv s r F"
    unfolding vm_inv_def * by (simp add: paging_invlpg_def used_pages_of_def)
qed (simp_all add: paging_invlpg_def vm_env_def used_pages_of_def)

text \<open>Writing a last-level entry.\<close>

lemma write_pte:
  assumes inv: "vm_inv s r F" and t: "tbl (ptview s) r (take 3 (vpath v)) = Some t"
    and x: "\<not> present x \<Longrightarrow> x = 0"
  defines "s' \<equiv> write64 (entry_addr (table_virt_from_phys s t) (pt_index v)) x s"
  shows "vm_keeps r F s s'" and "vm_pmm s' = vm_pmm s"
    and "length q = 4 \<Longrightarrow> leaf (ptview s') r q =
      (if q = vpath v then if present x then Some (0, x) else None else leaf (ptview s) r q)"
proof -
  note al = vm_inv_table(2) [OF inv t]
  have pv: "ptview s' = upd t (pt_index v) x (ptview s)"
    unfolding s'_def by (rule ptview_write [OF al index_less(4)])
  have len: "length (take 3 (vpath v)) = 3" by simp
  note L = set_leaf [OF vm_invD(5) [OF inv] t len x, where i = "pt_index v"]
  have "t \<in> used_pages_of s - F" using tree_okD(1) [OF vm_invD(5) [OF inv] _ t] by simp
  moreover have "used_pages_of s' = used_pages_of s" by (simp add: s'_def used_pages_of_def)
  ultimately show "vm_keeps r F s s'"
    using inv L(1) unfolding vm_keeps_def vm_inv_def pv by (auto simp: s'_def upd_def)
  show "vm_pmm s' = vm_pmm s" by (simp add: s'_def)
  assume "length q = 4"
  moreover have "vpath v = take 3 (vpath v) @ [pt_index v]" by (simp add: vpath_def)
  ultimately show "leaf (ptview s') r q =
      (if q = vpath v then if present x then Some (0, x) else None else leaf (ptview s) r q)"
    using L(3) unfolding pv by metis
qed

section \<open>Mapping\<close>

text \<open>The entry \<^verbatim>\<open>paging_map_page\<close> and \<^verbatim>\<open>paging_protect_page\<close> store for a frame and flags.\<close>

definition pte_of :: "bool \<Rightarrow> u64 \<Rightarrow> u64 \<Rightarrow> u64" where
  "pte_of nx phys flags = (phys AND ENTRY_ADDR_MASK_4K) OR paging_flags_to_hw nx flags OR PAGE_PRESENT"

definition tlb_flushed :: "u64 \<Rightarrow> vm \<Rightarrow> tlb_event list" where
  "tlb_flushed v s = vm_tlb s @ [Invlpg v] @ (if vm_ipi_ready s then [Tlb_shootdown] else [])"

lemma child_hw: "child (paging_flags_to_hw nx flags) = 0"
proof -
  have "child 8 = 0" "child 0x10 = 0" "child 0x100 = 0" "child 0x8000000000000000 = 0" by (simp_all add: child_def)
  then show ?thesis by (simp add: paging_flags_to_hw_def Let_def child_or if_distrib [of child])
qed

lemma pte_of_present [simp]: "present (pte_of nx phys flags)"
  by (simp add: pte_of_def present_bit bit_or_iff)

lemma child_pte_of: "child (pte_of nx phys flags) = child phys"
  by (simp add: pte_of_def child_or child_hw child_def [symmetric])

definition flags_allowed :: "u64 \<Rightarrow> bool" where
  "flags_allowed flags \<longleftrightarrow> flags AND PAGING_FLAG_GLOBAL = 0 \<or> flags AND PAGING_FLAG_USER = 0"

lemma env_nx: "vm_env s' = vm_env s \<Longrightarrow> g_nx_enabled s' = g_nx_enabled s \<and> vm_ipi_ready s' = vm_ipi_ready s"
  by (simp add: vm_env_def)

lemma paging_map_page_spec:
  assumes inv: "vm_inv s r F" and al: "(v OR phys) AND 4095 = 0" and fl: "flags_allowed flags"
    and unmapped: "leaf (ptview s) r (vpath v) = None"
  shows "safely (paging_map_page r v phys flags s) (card (pmm_avail (vm_pmm s)) < 3) (\<lambda>(ok, s').
     ok \<and> vm_keeps r F s s' \<and> pmm_avail (vm_pmm s') \<subseteq> pmm_avail (vm_pmm s) \<and>
     card (pmm_avail (vm_pmm s)) \<le> 3 + card (pmm_avail (vm_pmm s')) \<and> vm_tlb s' = tlb_flushed v s \<and>
     (\<forall>q. length q = 4 \<longrightarrow> leaf (ptview s') r q =
       (if q = vpath v then Some (0, pte_of (g_nx_enabled s) phys flags) else leaf (ptview s) r q)))"
proof -
  have tr: "translate_with_cr3 s r v = None" using vm_inv_translate [OF inv, of v] unmapped by simp
  let ?user = "flags AND PAGING_FLAG_USER \<noteq> 0"
  have run: "paging_map_page r v phys flags s = andthen (walk_to_pte r v True ?user s) (\<lambda>(pte, s1).
      case pte of None \<Rightarrow> Inr (False, s1)
      | Some a \<Rightarrow> Inr (True, paging_invlpg v (write64 a (pte_of (g_nx_enabled s1) phys flags) s1)))"
    using al tr fl [unfolded flags_allowed_def]
    unfolding paging_map_page_def pte_of_def Let_def by auto
  show ?thesis unfolding run
  proof (rule safely_andthen [OF walk_create_spec [OF inv unmapped]], goal_cases)
    case (1 x)
    then obtain t s1 where at: "reached r F s (take 3 (vpath v)) (t, s1)"
      and x: "x = (Some (entry_addr (table_virt_from_phys s1 t) (pt_index v)), s1)" by auto
    then have g: "grows r F s s1" and t: "tbl (ptview s1) r (take 3 (vpath v)) = Some t"
      and c: "card (pmm_avail (vm_pmm s)) \<le> 3 + card (pmm_avail (vm_pmm s1))" "vm_tlb s1 = vm_tlb s"
      by (auto simp: reached_def)
    let ?x = "pte_of (g_nx_enabled s1) phys flags"
    let ?s = "write64 (entry_addr (table_virt_from_phys s1 t) (pt_index v)) ?x s1"
    have k: "vm_keeps r F s s1" "vm_env s1 = vm_env s" using g by (auto simp: grows_def vm_keeps_def)
    note nx = env_nx [OF k(2)]
    note W = write_pte [OF grows_inv [OF g] t, of ?x, simplified]
    have "vm_keeps r F s ?s" using vm_keeps_trans [OF k(1) W(1)] .
    moreover have "vm_tlb (paging_invlpg v ?s) = tlb_flushed v s"
      using c(2) nx by (simp add: paging_invlpg_def tlb_flushed_def write64_def)
    ultimately show ?case unfolding x
      using W(3) g c nx by (simp add: grows_def vm_keeps_def)
  qed
qed

lemma paging_map_page_refuses:
  assumes "vm_inv s r F"
    and "(v OR phys) AND 4095 \<noteq> 0 \<or> \<not> flags_allowed flags \<or> leaf (ptview s) r (vpath v) \<noteq> None"
  shows "paging_map_page r v phys flags s = Inr (False, s)"
  using assms vm_inv_translate [OF assms(1), of v]
  by (auto simp: paging_map_page_def flags_allowed_def)

section \<open>Unmapping and protecting\<close>

text \<open>Tables may have been given back, no translation has changed.\<close>

definition shrinks :: "u64 \<Rightarrow> u64 set \<Rightarrow> vm \<Rightarrow> vm \<Rightarrow> bool" where
  "shrinks r F s s' \<longleftrightarrow>
     vm_keeps r F s s' \<and> pmm_avail (vm_pmm s) \<subseteq> pmm_avail (vm_pmm s') \<and> vm_tlb s' = vm_tlb s \<and>
     (\<forall>q. length q = 4 \<longrightarrow> leaf (ptview s') r q = leaf (ptview s) r q)"

lemma shrinks_refl: "vm_inv s r F \<Longrightarrow> shrinks r F s s"
  by (simp add: shrinks_def vm_keeps_refl)

lemma shrinks_trans: "shrinks r F s s' \<Longrightarrow> shrinks r F s' s'' \<Longrightarrow> shrinks r F s s''"
  unfolding shrinks_def using vm_keeps_trans by (metis subset_trans)

lemma is_table_empty_iff: "t AND 4095 = 0 \<Longrightarrow> is_table_empty s t \<longleftrightarrow> (\<forall>j. ptview s t j = 0)"
  by (auto simp: is_table_empty_def list_all_iff set_table_indices ptview_def)

lemma release_table_spec:
  assumes inv: "vm_inv s r F" and t: "tbl (ptview s) r p = Some t" and len: "length p \<le> 2"
    and i: "i < 512" and c: "tbl (ptview s) r (p @ [i]) = Some c" and empty: "is_table_empty s c"
  defines "s' \<equiv> release_table c (entry_addr (table_virt_from_phys s t) i) s"
  shows "shrinks r F s s'"
    and "length q \<le> 4 \<Longrightarrow> \<not> prefix (p @ [i]) q \<Longrightarrow> tbl (ptview s') r q = tbl (ptview s) r q"
proof -
  let ?E = "ptview s"
  note ok = vm_invD(5) [OF inv] and pok = vm_invD(1) [OF inv]
  have e: "present (?E t i)" "\<not> huge (?E t i)" "c = child (?E t i)"
    using c tbl_snoc [OF t, of i] by (auto split: if_splits)
  have z: "?E (child (?E t i)) j = 0" for j using empty is_table_empty_iff [of c s] by (simp add: e(3))
  note U = unlink [OF ok t len e(1,2) z, folded e(3)]
  define s1 where "s1 = bump_tables (- 1) (s\<lparr>vm_pmm := pmm_free_page_phys c (vm_pmm s)\<rparr>)"
  have s1: "ptview s1 = ?E" "table_virt_from_phys s1 = table_virt_from_phys s" "vm_tlb s1 = vm_tlb s"
    "vm_pmm s1 = pmm_free_page_phys c (vm_pmm s)"
    by (rule ptview_cong) (simp_all add: s1_def table_virt_from_phys_def fun_eq_iff)
  have s': "s' = write64 (entry_addr (table_virt_from_phys s1 t) i) 0 s1"
    by (simp add: s'_def release_table_def s1_def Let_def table_virt_from_phys_def fun_eq_iff)
  have pv: "ptview s' = upd t i 0 ?E"
    unfolding s' using ptview_write [OF vm_inv_table(2) [OF inv t] i, of s1 0] s1(1) by simp
  have cU: "c \<in> used_pages_of s - F" using tree_okD(1) [OF ok _ c] len by simp
  then have rel: "pmm_avail (vm_pmm s') = insert c (pmm_avail (vm_pmm s))"
    "pmm_managed (vm_pmm s') = pmm_managed (vm_pmm s)" "pmm_ok (vm_pmm s')"
    "total_pages (g_pmm_info (vm_pmm s')) = total_pages (g_pmm_info (vm_pmm s))"
    using pm.release_law [OF pok, of c] pmm_free_spec [OF pok, of c] by (auto simp: s' s1 used_pages_of_def)
  have env: "vm_env s' = vm_env s" using rel(2) by (simp add: s' s1) (simp add: s1_def bump_tables_def vm_env_def)
  have "used_pages_of s' - F = used_pages_of s - F - {c}" using rel by (auto simp: used_pages_of_def)
  then have "vm_inv s' r F"
    using U(1) rel inv cU unfolding vm_inv_def pv by auto
  moreover have "t \<notin> F" using tree_okD(1) [OF ok _ t] len by auto
  ultimately have "vm_keeps r F s s'" using env unfolding vm_keeps_def pv by (auto simp: upd_def)
  then show "shrinks r F s s'" using U(3) rel(1) unfolding shrinks_def pv by (auto simp: s' s1)
  show "length q \<le> 4 \<Longrightarrow> \<not> prefix (p @ [i]) q \<Longrightarrow> tbl (ptview s') r q = tbl ?E r q"
    using U(2) unfolding pv by simp
qed

lemma shrinks_inv: "shrinks r F s s' \<Longrightarrow> vm_inv s' r F"
  by (simp add: shrinks_def vm_keeps_def)

lemma shrinks_tables: "shrinks r F s s' \<Longrightarrow> table_virt_from_phys s' = table_virt_from_phys s"
  by (rule table_env) (simp add: shrinks_def vm_keeps_def)

lemma free_empty_tables_spec:
  assumes inv: "vm_inv s r F"
  shows "shrinks r F s (free_empty_tables r v s)"
proof -
  let ?i4 = "pml4_index v" and ?i3 = "pdpt_index v" and ?i2 = "pd_index v"
  define e4 where "e4 = ptview s r ?i4"
  define e3 where "e3 = ptview s (child e4) ?i3"
  define e2 where "e2 = ptview s (child e3) ?i2"
  let ?l4 = "entry_addr (table_virt_from_phys s r) ?i4"
    and ?l3 = "entry_addr (table_virt_from_phys s (child e4)) ?i3"
    and ?l2 = "entry_addr (table_virt_from_phys s (child e3)) ?i2"
  define s1 where "s1 = release_table (child e2) ?l2 s"
  define s2 where "s2 = release_table (child e3) ?l3 s1"
  have rd: "read64 s ?l4 = e4" "read64 s ?l3 = e3" "read64 s ?l2 = e2"
    using ptview_read [OF vm_invD(3) [OF inv] index_less(1)] ptview_read [OF child_aligned index_less(2)]
      ptview_read [OF child_aligned index_less(3)] by (simp_all add: e4_def e3_def e2_def)
  show ?thesis
  proof (cases "present e4 \<and> \<not> huge e4 \<and> present e3 \<and> \<not> huge e3 \<and> present e2 \<and> \<not> huge e2 \<and> is_table_empty s (child e2)")
    case False
    then have "free_empty_tables r v s = s"
      unfolding free_empty_tables_def Let_def child_def [symmetric] vm_invD(2) [OF inv] rd entry_bits
      by auto
    then show ?thesis using shrinks_refl [OF inv] by simp
  next
    case T: True
    have run: "free_empty_tables r v s =
        (if is_table_empty s1 (child e3) then
           if is_table_empty s2 (child e4) then release_table (child e4) ?l4 s2 else s2 else s1)"
      using T unfolding free_empty_tables_def Let_def child_def [symmetric] vm_invD(2) [OF inv] rd
        entry_bits by (simp add: s1_def s2_def)
    have t: "tbl (ptview s) r [?i4] = Some (child e4)" "tbl (ptview s) r [?i4, ?i3] = Some (child e3)"
      "tbl (ptview s) r [?i4, ?i3, ?i2] = Some (child e2)"
      using T by (simp_all add: e4_def e3_def e2_def)
    have t2: "tbl (ptview s) r ([?i4, ?i3] @ [?i2]) = Some (child e2)" using t(3) by simp
    note Q1 = release_table_spec [OF inv t(2) _ index_less(3) t2, folded s1_def]
    have R1: "shrinks r F s s1" "tbl (ptview s1) r [?i4] = Some (child e4)"
      "tbl (ptview s1) r ([?i4] @ [?i3]) = Some (child e3)"
      using Q1(1) Q1(2) [of "[?i4]"] Q1(2) [of "[?i4, ?i3]"] t T by (simp_all del: tbl.simps)
    note Q2 = release_table_spec [OF shrinks_inv [OF R1(1)] R1(2) _ index_less(2) R1(3),
        unfolded shrinks_tables [OF R1(1)], folded s2_def]
    have R2: "shrinks r F s1 s2" "tbl (ptview s2) r ([] @ [?i4]) = Some (child e4)" if "is_table_empty s1 (child e3)"
      using Q2(1) Q2(2) [of "[?i4]"] R1(2) that by (simp_all del: tbl.simps)
    have R3: "shrinks r F s2 (release_table (child e4) ?l4 s2)"
      if em: "is_table_empty s1 (child e3)" "is_table_empty s2 (child e4)"
    proof -
      note sh = R2(1) [OF em(1)]
      have "tbl (ptview s2) r [] = Some r" by simp
      from release_table_spec(1) [OF shrinks_inv [OF sh] this _ index_less(1) R2(2) [OF em(1)] em(2)]
      show ?thesis by (simp add: shrinks_tables [OF sh] shrinks_tables [OF R1(1)])
    qed
    have A: "is_table_empty s1 (child e3) \<Longrightarrow> shrinks r F s s2" by (rule shrinks_trans [OF R1(1) R2(1)])
    have B: "is_table_empty s1 (child e3) \<Longrightarrow> is_table_empty s2 (child e4) \<Longrightarrow>
        shrinks r F s (release_table (child e4) ?l4 s2)" by (rule shrinks_trans [OF A R3])
    show ?thesis unfolding run using A B R1(1) by presburger
  qed
qed

lemma paging_unmap_page_spec:
  assumes inv: "vm_inv s r F" and leaf: "leaf (ptview s) r (vpath v) = Some (0, e)"
  shows "\<exists>s'. paging_unmap_page r v s = Inr (Some (child e), s') \<and> vm_keeps r F s s' \<and>
     pmm_avail (vm_pmm s) \<subseteq> pmm_avail (vm_pmm s') \<and> vm_tlb s' = tlb_flushed v s \<and>
     (\<forall>q. length q = 4 \<longrightarrow> leaf (ptview s') r q = (if q = vpath v then None else leaf (ptview s) r q))"
proof -
  obtain t where t: "tbl (ptview s) r (take 3 (vpath v)) = Some t" and pr: "present (ptview s t (pt_index v))"
    and e: "e = ptview s t (pt_index v)" using leaf by (auto simp: leaf_via_table)
  let ?a = "entry_addr (table_virt_from_phys s t) (pt_index v)"
  define s1 where "s1 = write64 ?a 0 s"
  define s2 where "s2 = paging_invlpg v s1"
  have rd: "read64 s ?a = e" using ptview_read [OF vm_inv_table(2) [OF inv t] index_less(4)] e by simp
  have run: "paging_unmap_page r v s = Inr (Some (child e), free_empty_tables r v s2)"
    using pr by (simp add: paging_unmap_page_def walk_lookup [OF inv] t rd Let_def entry_bits s1_def s2_def
        child_def [symmetric] e [symmetric])
  note W = write_pte [OF inv t, of 0, folded s1_def, simplified]
  have inv2: "vm_inv s2 r F" using W(1) by (simp add: s2_def vm_keeps_def)
  note sh = free_empty_tables_spec [OF inv2, of v]
  have pvs: "ptview s2 = ptview s1" "vm_pmm s2 = vm_pmm s1" by (simp_all add: s2_def)
  have "vm_keeps r F s s2" using W(1) by (simp add: vm_keeps_def s2_def)
  moreover have "vm_tlb s2 = tlb_flushed v s"
    by (simp add: s2_def s1_def paging_invlpg_def tlb_flushed_def write64_def)
  ultimately show ?thesis
    using sh W(2,3) vm_keeps_trans [of r F s s2 "free_empty_tables r v s2"]
    by (intro exI [of _ "free_empty_tables r v s2"]) (simp add: run shrinks_def s2_def [symmetric] pvs)
qed



lemma paging_protect_page_none:
  assumes inv: "vm_inv s r F" and leaf: "\<And>e. leaf (ptview s) r (vpath v) \<noteq> Some (0, e)"
  shows "paging_protect_page r v flags s = Inr (False, s)"
proof (cases "tbl (ptview s) r (take 3 (vpath v))")
  case None
  then show ?thesis by (simp add: paging_protect_page_def walk_lookup [OF inv])
next
  case (Some t)
  have "\<not> present (ptview s t (pt_index v))"
    using leaf [of "ptview s t (pt_index v)"] Some by (simp add: leaf_via_table)
  then show ?thesis using ptview_read [OF vm_inv_table(2) [OF inv Some] index_less(4)]
    by (simp add: paging_protect_page_def walk_lookup [OF inv] Some entry_bits)
qed

section \<open>The address space a root describes\<close>

text \<open>
  Two virtual addresses are in the same page when they agree in bits 12 to 47, the bits the four
  index functions read.
\<close>

definition same_page :: "u64 \<Rightarrow> u64 \<Rightarrow> bool" where
  "same_page v w \<longleftrightarrow> drop_bit 12 (take_bit 48 v) = drop_bit 12 (take_bit 48 w)"

lemma bit_1FF: "bit (0x1FF :: u64) n \<longleftrightarrow> n < 9"
proof -
  have "(0x1FF :: u64) = mask 9" by (simp add: mask_eq_exp_minus_1)
  then show ?thesis by (simp only: bit_mask_iff) auto
qed

lemma bit_index:
  "bit (pml4_index v) n \<longleftrightarrow> n < 9 \<and> bit v (39 + n)" "bit (pdpt_index v) n \<longleftrightarrow> n < 9 \<and> bit v (30 + n)"
  "bit (pd_index v) n \<longleftrightarrow> n < 9 \<and> bit v (21 + n)" "bit (pt_index v) n \<longleftrightarrow> n < 9 \<and> bit v (12 + n)"
  unfolding pml4_index_def pdpt_index_def pd_index_def pt_index_def
  by (simp_all only: bit_unsigned_iff bit_and_iff bit_1FF bit_drop_bit_eq) auto

lemma bits_eq_iff: "drop_bit 12 (take_bit 48 v) = drop_bit 12 (take_bit 48 w) \<longleftrightarrow>
    (\<forall>n. 12 \<le> n \<longrightarrow> n < 48 \<longrightarrow> bit v n = bit w n)" for v w :: u64
proof (rule iffI)
  assume eq: "drop_bit 12 (take_bit 48 v) = drop_bit 12 (take_bit 48 w)"
  have "bit v n = bit w n" if n: "12 \<le> n" "n < 48" for n
  proof -
    have "bit (drop_bit 12 (take_bit 48 v)) (n - 12) = bit (drop_bit 12 (take_bit 48 w)) (n - 12)"
      by (simp only: eq)
    then show ?thesis using n by (simp add: bit_drop_bit_eq bit_take_bit_iff)
  qed
  then show "\<forall>n. 12 \<le> n \<longrightarrow> n < 48 \<longrightarrow> bit v n = bit w n" by blast
next
  assume "\<forall>n. 12 \<le> n \<longrightarrow> n < 48 \<longrightarrow> bit v n = bit w n"
  then show "drop_bit 12 (take_bit 48 v) = drop_bit 12 (take_bit 48 w)"
    by (intro bit_word_eqI) (simp only: bit_drop_bit_eq bit_take_bit_iff comp_apply, auto)
qed

lemma same_page_iff: "same_page v w \<longleftrightarrow> vpath v = vpath w"
proof
  assume "same_page v w"
  then have eq: "bit v n = bit w n" if "12 \<le> n" "n < 48" for n
    using that by (simp add: same_page_def bits_eq_iff)
  have "pml4_index v = pml4_index w" "pdpt_index v = pdpt_index w" "pd_index v = pd_index w" "pt_index v = pt_index w"
    by (rule bit_word_eqI; use eq in \<open>auto simp: bit_index\<close>)+
  then show "vpath v = vpath w" by (simp add: vpath_def)
next
  assume "vpath v = vpath w"
  then have idx: "\<And>n. bit (pml4_index v) n = bit (pml4_index w) n" "\<And>n. bit (pdpt_index v) n = bit (pdpt_index w) n"
    "\<And>n. bit (pd_index v) n = bit (pd_index w) n" "\<And>n. bit (pt_index v) n = bit (pt_index w) n"
    by (simp_all add: vpath_def)
  have "bit v n = bit w n" if n: "12 \<le> n" "n < 48" for n
  proof -
    consider "n < 21" | "21 \<le> n" "n < 30" | "30 \<le> n" "n < 39" | "39 \<le> n" by linarith
    then show ?thesis
      using n idx(1) [of "n - 39"] idx(2) [of "n - 30"] idx(3) [of "n - 21"] idx(4) [of "n - 12"]
      by cases (auto simp: bit_index)
  qed
  then show "same_page v w" by (simp add: same_page_def bits_eq_iff)
qed

lemma leaf_addr_pte_of:
  assumes "phys AND 4095 = 0" and "unat phys < 2 ^ 52"
  shows "leaf_addr w (0, pte_of nx phys flags) = phys OR (w AND 4095)"
proof -
  have "child (pte_of nx phys flags) = phys" using child_id [OF assms] child_pte_of by simp
  then show ?thesis by (simp add: leaf_addr_def child_def)
qed

lemma or_aligned: "(a OR b) AND 4095 = 0 \<longleftrightarrow> a AND 4095 = 0 \<and> b AND 4095 = 0" for a b :: u64
  by (simp add: bit.conj_disj_distrib2 or_eq_0_iff)

text \<open>What the operations do, in terms of translations alone.\<close>

lemma map_page_translations:
  assumes inv: "vm_inv s r F" and v: "v AND 4095 = 0" and p: "phys AND 4095 = 0" "unat phys < 2 ^ 52"
    and fl: "flags_allowed flags" and free: "paging_translate s r v = None"
    and mem: "3 \<le> card (pmm_avail (vm_pmm s))"
  shows "\<exists>s'. paging_map_page r v phys flags s = Inr (True, s') \<and> vm_keeps r F s s' \<and>
    pmm_avail (vm_pmm s') \<subseteq> pmm_avail (vm_pmm s) \<and> vm_tlb s' = tlb_flushed v s \<and>
    card (pmm_avail (vm_pmm s)) \<le> 3 + card (pmm_avail (vm_pmm s')) \<and>
    (\<forall>w. paging_translate s' r w =
       (if same_page v w then Some (phys OR (w AND 4095)) else paging_translate s r w))"
proof -
  have unm: "leaf (ptview s) r (vpath v) = None"
    using free by (simp add: paging_translate_def vm_inv_translate [OF inv])
  have "(v OR phys) AND 4095 = 0" using v p by (simp add: or_aligned)
  from safely_returns [OF paging_map_page_spec [OF inv this fl unm]] mem
  obtain s' where s': "paging_map_page r v phys flags s = Inr (True, s')" "vm_keeps r F s s'"
    "pmm_avail (vm_pmm s') \<subseteq> pmm_avail (vm_pmm s)" "vm_tlb s' = tlb_flushed v s"
    "card (pmm_avail (vm_pmm s)) \<le> 3 + card (pmm_avail (vm_pmm s'))"
    "\<And>q. length q = 4 \<Longrightarrow> leaf (ptview s') r q =
       (if q = vpath v then Some (0, pte_of (g_nx_enabled s) phys flags) else leaf (ptview s) r q)"
    by auto
  have "vm_inv s' r F" using s'(2) by (simp add: vm_keeps_def)
  then have "paging_translate s' r w =
      (if same_page v w then Some (phys OR (w AND 4095)) else paging_translate s r w)" for w
    using s'(6) [of "vpath w"] leaf_addr_pte_of [OF p]
    by (simp add: paging_translate_def vm_inv_translate [OF inv] vm_inv_translate same_page_iff)
  then show ?thesis using s' by blast
qed


section \<open>Properties\<close>

text \<open>
  A machine for the witnesses: the allocator state of \<open>demo_pmm\<close>, whose free pages are 1, 3 and 4,
  and an empty root table in page 5.
\<close>

definition demo_vm :: vm where
  "demo_vm = \<lparr>vm_pmm = demo_pmm, vm_mem = (\<lambda>_. 0), vm_hhdm = 0xFFFF800000000000,
     g_paging_info = \<lparr>initialized = True, root_pml4_phys = 0x5000, table_pages_allocated = 1,
       mapped_kernel_pages = 0, mapped_hhdm_2m_pages = 0, mapped_hhdm_4k_pages = 0,
       mapped_passthrough_pages = 0, reclaimed_bootloader_pages = 0\<rparr>,
     g_paging_initialized = True, g_nx_enabled = True, vm_cr3 = 0x5000, vm_cr4 = 0,
     vm_ipi_ready = False, vm_tlb = []\<rparr>"

lemma demo_vm_simps [simp]:
  "vm_pmm demo_vm = demo_pmm" "g_nx_enabled demo_vm" "vm_hhdm demo_vm = 0xFFFF800000000000"
  by (simp_all add: demo_vm_def)

lemma demo_avail: "pmm_avail demo_pmm = {0x1000, 0x3000, 0x4000}"
proof -
  obtain as s' where run: "alloc_seq pmm_try_alloc_page_phys 5 demo_pmm = (as, s')" by fastforce
  have "fst (alloc_seq pmm_try_alloc_page_phys 5 demo_pmm) = [0x1000, 0x3000, 0x4000]" by code_simp
  then have "as = [0x1000, 0x3000, 0x4000]" using run by simp
  moreover have "card (pmm_avail demo_pmm) = 3" using card_pmm_avail [OF demo_ok] by (simp add: demo_pmm_def)
  ultimately show ?thesis
    using pm.alloc_seq_spec [OF demo_ok run] card_subset_eq [OF finite_pmm_avail, of "set as" demo_pmm] by simp
qed

lemma demo_managed: "0x5000 \<in> pmm_managed demo_pmm"
  by (auto simp: pmm_managed_def demo_pmm_def image_iff intro!: exI [of _ 5])

text \<open>An address space with nothing in it: a zero page that is not free, as the root.\<close>

lemma vm_inv_zero:
  assumes "pmm_ok (vm_pmm s)" and "unat (total_pages (g_pmm_info (vm_pmm s))) \<le> 2 ^ 40" and "child r = r"
    and "r \<in> pmm_managed (vm_pmm s)" and "r \<notin> pmm_avail (vm_pmm s)" and "vm_mem s = (\<lambda>_. 0)"
  shows "vm_inv s r {}" and "paging_translate s r v = None" and "leaf (ptview s) r p = None"
proof -
  have zero: "ptview s = (\<lambda>_ _. 0)" using assms(6) by (simp add: ptview_def read64_def fun_eq_iff)
  have "tbl (\<lambda>_ _. 0) r p = Some t \<longleftrightarrow> p = [] \<and> t = r" for r p t by (cases p) auto
  then have "tree_ok (ptview s) r (used_pages_of s)"
    using assms(4,5) by (auto simp: tree_ok_def zero used_pages_of_def)
  then show "vm_inv s r {}" using assms by (simp add: vm_inv_def)
  show "paging_translate s r v = None"
    using assms(6) by (simp add: paging_translate_def translate_with_cr3_def read64_def)
  show "leaf (ptview s) r p = None" by (cases p) (simp_all add: zero)
qed

lemma demo_vm_inv: "vm_inv demo_vm 0x5000 {}"
  using demo_ok demo_managed
  by (intro vm_inv_zero) (simp_all add: child_def demo_avail, simp_all add: demo_vm_def demo_pmm_def)

lemma demo_vm_unmapped: "paging_translate demo_vm 0x5000 v = None"
  by (simp add: paging_translate_def translate_with_cr3_def read64_def demo_vm_def)

text \<open>
  C9. \<^verbatim>\<open>paging_map_page\<close> implements the update of one page of the address space: with an
  unmapped, aligned virtual page, an aligned frame below \<open>2 ^ 52\<close>, permitted flags and three free
  pages for tables, it returns true, afterwards every address of that page translates into the frame
  and every other address translates as before. The invariant is kept, and the pages \<open>F\<close> that others
  own are neither taken for tables nor written.
\<close>

theorem paging_map_page_updates:
  assumes "vm_inv s r F" and "v AND (PAGE_SIZE_4K - 1) = 0"
    and "phys AND (PAGE_SIZE_4K - 1) = 0" and "unat phys < 2 ^ 52"
    and "flags AND PAGING_FLAG_GLOBAL = 0 \<or> flags AND PAGING_FLAG_USER = 0"
    and "paging_translate s r v = None" and "3 \<le> card (pmm_avail (vm_pmm s))"
  shows "\<exists>s'. paging_map_page r v phys flags s = Inr (True, s') \<and> vm_inv s' r F \<and>
    (\<forall>t \<in> F. ptview s' t = ptview s t) \<and>
    (\<forall>w. paging_translate s' r w =
       (if same_page v w then Some (phys OR (w AND (PAGE_SIZE_4K - 1))) else paging_translate s r w))"
  using map_page_translations [of s r F v phys flags] assms by (auto simp: flags_allowed_def vm_keeps_def)

theorem paging_map_page_updates_witness:
  "\<exists>s'. paging_map_page 0x5000 0xFFFF900000000000 0x2000 PAGING_FLAG_WRITABLE demo_vm = Inr (True, s') \<and>
     paging_translate s' 0x5000 0xFFFF900000000123 = Some 0x2123"
proof -
  have "same_page 0xFFFF900000000000 0xFFFF900000000123" by (simp add: same_page_def)
  moreover have "card (pmm_avail (vm_pmm demo_vm)) = 3" by (simp add: demo_avail)
  ultimately show ?thesis
    using paging_map_page_updates [OF demo_vm_inv, where v = "0xFFFF900000000000" and phys = "0x2000" and flags = PAGING_FLAG_WRITABLE]
      demo_vm_unmapped by auto
qed

text \<open>
  C13. \<^verbatim>\<open>paging_map_page\<close> never replaces a live mapping and never maps an unaligned page or a
  page that is both global and user: it returns false and leaves the whole state as it was.
\<close>

theorem paging_map_page_rejects:
  assumes "vm_inv s r F"
    and "paging_translate s r v \<noteq> None \<or> (v OR phys) AND (PAGE_SIZE_4K - 1) \<noteq> 0 \<or>
      (flags AND PAGING_FLAG_GLOBAL \<noteq> 0 \<and> flags AND PAGING_FLAG_USER \<noteq> 0)"
  shows "paging_map_page r v phys flags s = Inr (False, s)"
  using paging_map_page_refuses [OF assms(1)] assms
  by (auto simp: flags_allowed_def paging_translate_def vm_inv_translate [OF assms(1)])

theorem paging_map_page_rejects_witness:
  "paging_map_page 0x5000 0x1001 0x2000 0 demo_vm = Inr (False, demo_vm)"
  by (rule paging_map_page_rejects [OF demo_vm_inv]) simp



text \<open>
  C12. Mapping a page and unmapping it again is the identity on the address space, and the unmap
  hands back the frame that was mapped.
\<close>

theorem paging_map_unmap_roundtrip:
  assumes "vm_inv s r F" and "v AND (PAGE_SIZE_4K - 1) = 0"
    and "phys AND (PAGE_SIZE_4K - 1) = 0" and "unat phys < 2 ^ 52" and "paging_translate s r v = None"
    and "paging_map_page r v phys flags s = Inr (True, s')"
  shows "\<exists>s''. paging_unmap_page r v s' = Inr (Some phys, s'') \<and> vm_inv s'' r F \<and>
    (\<forall>w. paging_translate s'' r w = paging_translate s r w)"
proof -
  have unm: "leaf (ptview s) r (vpath v) = None"
    using assms(5) by (simp add: paging_translate_def vm_inv_translate [OF assms(1)])
  have al: "(v OR phys) AND 4095 = 0" using assms(2,3) by (simp add: or_aligned)
  have fl: "flags_allowed flags" using paging_map_page_refuses [OF assms(1), of v phys flags] assms(6) by force
  let ?e = "pte_of (g_nx_enabled s) phys flags"
  have m: "vm_keeps r F s s'" "\<And>q. length q = 4 \<Longrightarrow> leaf (ptview s') r q = (if q = vpath v then Some (0, ?e) else leaf (ptview s) r q)"
    using safely_InrD [OF paging_map_page_spec [OF assms(1) al fl unm] assms(6)] by auto
  then have inv': "vm_inv s' r F" and e: "leaf (ptview s') r (vpath v) = Some (0, ?e)" by (simp_all add: vm_keeps_def)
  have ce: "child ?e = phys" using child_pte_of child_id [of phys] assms(3,4) by simp
  obtain s'' where u: "paging_unmap_page r v s' = Inr (Some phys, s'')" "vm_keeps r F s' s''"
    "\<And>q. length q = 4 \<Longrightarrow> leaf (ptview s'') r q = (if q = vpath v then None else leaf (ptview s') r q)"
    using paging_unmap_page_spec [OF inv' e] unfolding ce by blast
  have inv'': "vm_inv s'' r F" using u(2) by (simp add: vm_keeps_def)
  moreover have "leaf (ptview s'') r (vpath w) = leaf (ptview s) r (vpath w)" for w
    using m(2) u(3) unm by simp
  ultimately show ?thesis
    using u(1) by (simp add: paging_translate_def vm_inv_translate [OF assms(1)] vm_inv_translate [OF inv''])
qed

theorem paging_map_unmap_roundtrip_witness:
  "\<exists>s' s''. paging_map_page 0x5000 0x200000 0x2000 0 demo_vm = Inr (True, s') \<and>
     paging_unmap_page 0x5000 0x200000 s' = Inr (Some 0x2000, s'')"
proof -
  have "card (pmm_avail (vm_pmm demo_vm)) = 3" by (simp add: demo_avail)
  then obtain s' where "paging_map_page 0x5000 0x200000 0x2000 0 demo_vm = Inr (True, s')"
    using map_page_translations [OF demo_vm_inv, where v = "0x200000" and phys = "0x2000" and flags = 0] demo_vm_unmapped
    by (auto simp: flags_allowed_def)
  then show ?thesis using paging_map_unmap_roundtrip [OF demo_vm_inv, where v = "0x200000" and phys = "0x2000" and flags = 0 and s' = s'] demo_vm_unmapped by auto
qed



end
