(* ===== verification/Paging_Init.thy ===== *)
theory Paging_Init
  imports Paging
begin

text \<open>
  The boot part of \<^verbatim>\<open>mm/paging.c\<close>: \<^verbatim>\<open>paging_init\<close> builds the kernel's own
  tables while the boot loader's are still in use, switches to them, and gives the loader's memory
  back to the allocator. Linker symbols, the stack pointer and the framebuffer are arguments; the
  progress messages are left out.
\<close>

section \<open>Operations\<close>

definition map_page_2m :: "u64 \<Rightarrow> u64 \<Rightarrow> u64 \<Rightarrow> u64 \<Rightarrow> vm \<Rightarrow> vm outcome" where
  "map_page_2m root virt_addr phys_addr flags s =
     (if (virt_addr OR phys_addr) AND (PAGE_SIZE_2M - 1) \<noteq> 0
      then Inl (Panic ''Paging init failed: 2 MiB mapping not aligned'')
      else
        andthen (get_or_create_table (table_virt_from_phys s root) (pml4_index virt_addr) False s)
        (\<lambda>(pdpt_phys, s1).
           andthen (get_or_create_table (table_virt_from_phys s1 pdpt_phys) (pdpt_index virt_addr) False s1)
           (\<lambda>(pd_phys, s2).
              Inr (write64 (entry_addr (table_virt_from_phys s2 pd_phys) (pd_index virt_addr))
                ((phys_addr AND ENTRY_ADDR_MASK_2M) OR flags OR PAGE_PRESENT OR PAGE_PS) s2))))"

definition map_page_4k :: "u64 \<Rightarrow> u64 \<Rightarrow> u64 \<Rightarrow> u64 \<Rightarrow> vm \<Rightarrow> vm outcome" where
  "map_page_4k root virt_addr phys_addr flags s =
     (if (virt_addr OR phys_addr) AND (PAGE_SIZE_4K - 1) \<noteq> 0
      then Inl (Panic ''Paging init failed: 4 KiB mapping not aligned'')
      else
        andthen (get_or_create_table (table_virt_from_phys s root) (pml4_index virt_addr) False s)
        (\<lambda>(pdpt_phys, s1).
           andthen (get_or_create_table (table_virt_from_phys s1 pdpt_phys) (pdpt_index virt_addr) False s1)
           (\<lambda>(pd_phys, s2).
              let pd = table_virt_from_phys s2 pd_phys;
                  pd_entry = read64 s2 (entry_addr pd (pd_index virt_addr))
              in if pd_entry AND PAGE_PRESENT \<noteq> 0 \<and> pd_entry AND PAGE_PS \<noteq> 0
                 then Inl (Panic ''Paging init failed: 4 KiB mapping conflicts with 2 MiB mapping'')
                 else
                   andthen (get_or_create_table pd (pd_index virt_addr) False s2)
                   (\<lambda>(pt_phys, s3).
                      Inr (write64 (entry_addr (table_virt_from_phys s3 pt_phys) (pt_index virt_addr))
                        ((phys_addr AND ENTRY_ADDR_MASK_4K) OR flags OR PAGE_PRESENT) s3)))))"

definition ensure_page_mapping :: "u64 \<Rightarrow> u64 \<Rightarrow> u64 \<Rightarrow> u64 \<Rightarrow> vm \<Rightarrow> (bool \<times> vm) outcome" where
  "ensure_page_mapping root virt_addr phys_addr flags s =
     (case translate_with_cr3 s root virt_addr of
        Some mapped_phys \<Rightarrow>
          if align_down mapped_phys PAGE_SIZE_4K \<noteq> align_down phys_addr PAGE_SIZE_4K
          then Inl (Panic ''Paging init failed: virtual address already mapped to different physical page'')
          else Inr (False, s)
      | None \<Rightarrow> andthen (map_page_4k root virt_addr phys_addr flags s) (\<lambda>s1. Inr (True, s1)))"

text \<open>One round of the loop of \<^verbatim>\<open>map_kernel_range_from_old_cr3\<close>.\<close>

definition map_kernel_page :: "u64 \<Rightarrow> u64 \<Rightarrow> u64 \<Rightarrow> vm \<Rightarrow> vm outcome" where
  "map_kernel_page new_pml4 old_cr3 virt s =
     (case translate_with_cr3 s old_cr3 virt of
        None \<Rightarrow> Inl (Panic ''Paging init failed: old CR3 missing kernel mapping'')
      | Some phys \<Rightarrow>
          map_page_4k new_pml4 virt (align_down phys PAGE_SIZE_4K) (PAGE_WRITABLE OR PAGE_GLOBAL) s)"

definition map_kernel_range_from_old_cr3 ::
    "u64 \<Rightarrow> u64 \<Rightarrow> u64 \<Rightarrow> u64 \<Rightarrow> vm \<Rightarrow> (u64 \<times> vm) outcome" where
  "map_kernel_range_from_old_cr3 kernel_virt_start kernel_virt_end new_pml4 old_cr3 s =
     (if kernel_virt_end \<le> kernel_virt_start
      then Inl (Panic ''Paging init failed: invalid kernel mapping bounds'')
      else
        let page_count = align_up (kernel_virt_end - kernel_virt_start) PAGE_SIZE_4K div PAGE_SIZE_4K
        in andthen
             (fold_outcome (\<lambda>page. map_kernel_page new_pml4 old_cr3 (kernel_virt_start + page * PAGE_SIZE_4K))
               (word_range 0 page_count) s)
             (\<lambda>s1. Inr (page_count, s1)))"

text \<open>
  The two loops of \<^verbatim>\<open>map_hhdm_range\<close>, by 2 MiB as far as that goes, then by 4 KiB. Both
  counters stop at or before \<open>hhdm_span_bytes\<close>, which is page-aligned, so they do not wrap around.
\<close>

definition map_hhdm_2m :: "u64 \<Rightarrow> u64 \<Rightarrow> vm \<Rightarrow> vm outcome" where
  "map_hhdm_2m new_pml4 phys s =
     (let virt = vm_hhdm s + phys
      in if virt < vm_hhdm s then Inl (Panic ''Paging init failed: HHDM virtual overflow'')
         else andthen (map_page_2m new_pml4 virt phys (PAGE_WRITABLE OR PAGE_GLOBAL) s)
           (\<lambda>s1. Inr (s1\<lparr>g_paging_info := (g_paging_info s1)
              \<lparr>mapped_hhdm_2m_pages := mapped_hhdm_2m_pages (g_paging_info s1) + 1\<rparr>\<rparr>)))"

definition map_hhdm_4k :: "u64 \<Rightarrow> u64 \<Rightarrow> vm \<Rightarrow> vm outcome" where
  "map_hhdm_4k new_pml4 phys s =
     (let virt = vm_hhdm s + phys
      in if virt < vm_hhdm s then Inl (Panic ''Paging init failed: HHDM virtual overflow'')
         else andthen (map_page_4k new_pml4 virt phys (PAGE_WRITABLE OR PAGE_GLOBAL) s)
           (\<lambda>s1. Inr (s1\<lparr>g_paging_info := (g_paging_info s1)
              \<lparr>mapped_hhdm_4k_pages := mapped_hhdm_4k_pages (g_paging_info s1) + 1\<rparr>\<rparr>)))"

definition map_hhdm_range :: "u64 \<Rightarrow> u64 \<Rightarrow> vm \<Rightarrow> vm outcome" where
  "map_hhdm_range new_pml4 hhdm_span_bytes s =
     (let two_mib_limit = (if vm_hhdm s AND (PAGE_SIZE_2M - 1) = 0
                           then align_down hhdm_span_bytes PAGE_SIZE_2M else 0)
      in andthen (fold_outcome (map_hhdm_2m new_pml4) (step_range PAGE_SIZE_2M 0 two_mib_limit) s)
           (\<lambda>s1. fold_outcome (map_hhdm_4k new_pml4) (step_range PAGE_SIZE_4K two_mib_limit hhdm_span_bytes) s1))"

definition map_old_page :: "u64 \<Rightarrow> u64 \<Rightarrow> u64 \<Rightarrow> u64 \<times> vm \<Rightarrow> (u64 \<times> vm) outcome" where
  "map_old_page new_pml4 old_cr3 virt = (\<lambda>(mapped, s).
     case translate_with_cr3 s old_cr3 virt of
       None \<Rightarrow> Inl (Panic ''Paging init failed: old CR3 translation missing for required range'')
     | Some phys \<Rightarrow>
         andthen (ensure_page_mapping new_pml4 virt (align_down phys PAGE_SIZE_4K) (PAGE_WRITABLE OR PAGE_GLOBAL) s)
           (\<lambda>(new, s1). Inr (if new then mapped + 1 else mapped, s1)))"

definition map_range_from_old_cr3 :: "u64 \<Rightarrow> u64 \<Rightarrow> u64 \<Rightarrow> u64 \<Rightarrow> vm \<Rightarrow> (u64 \<times> vm) outcome" where
  "map_range_from_old_cr3 new_pml4 old_cr3 virt_start virt_end s =
     (let page_start = align_down virt_start PAGE_SIZE_4K;
          page_end = align_up virt_end PAGE_SIZE_4K
      in fold_outcome (map_old_page new_pml4 old_cr3) (step_range PAGE_SIZE_4K page_start page_end) (0, s))"

definition reclaim_entry :: "u64 \<Rightarrow> u64 \<Rightarrow> memory_map_entry \<Rightarrow> u64 \<times> vm \<Rightarrow> u64 \<times> vm" where
  "reclaim_entry skip_start skip_end e x =
     (if mm_type e \<noteq> MEMMAP_BOOTLOADER_RECLAIMABLE then x
      else
        let start = align_up (mm_base e) PAGE_SIZE_4K;
            end' = align_down (entry_end e) PAGE_SIZE_4K
        in fold (\<lambda>phys (n, s).
                 if skip_start \<le> phys \<and> phys < skip_end then (n, s)
                 else (n + 1, s\<lparr>vm_pmm := pmm_free_page_phys phys (vm_pmm s)\<rparr>))
             (step_range PAGE_SIZE_4K start end') x)"

definition reclaim_bootloader_reclaimable :: "boot_memory_map \<Rightarrow> u64 \<Rightarrow> u64 \<Rightarrow> vm \<Rightarrow> u64 \<times> vm" where
  "reclaim_bootloader_reclaimable memory_map skip_start skip_end s =
     (case memory_map of None \<Rightarrow> (0, s) | Some es \<Rightarrow> fold (reclaim_entry skip_start skip_end) es (0, s))"

definition paging_load_cr3 :: "u64 \<Rightarrow> vm \<Rightarrow> vm" where
  "paging_load_cr3 phys_addr s = s\<lparr>vm_cr3 := phys_addr, vm_tlb := vm_tlb s @ [Load_cr3 phys_addr]\<rparr>"

definition add_passthrough :: "u64 \<Rightarrow> vm \<Rightarrow> vm" where
  "add_passthrough n s = s\<lparr>g_paging_info := (g_paging_info s)
     \<lparr>mapped_passthrough_pages := mapped_passthrough_pages (g_paging_info s) + n\<rparr>\<rparr>"

text \<open>Step 4: the pages around the stack pointer, and the framebuffer.\<close>

definition map_stack_window :: "u64 \<Rightarrow> u64 \<Rightarrow> u64 \<Rightarrow> vm \<Rightarrow> vm outcome" where
  "map_stack_window new_pml4 old_cr3 rsp s =
     (let stack_window_start = (if STACK_PROTECT_WINDOW_BYTES < rsp then rsp - STACK_PROTECT_WINDOW_BYTES else 0);
          stack_window_end = rsp + STACK_PROTECT_WINDOW_BYTES;
          stack_window_end = (if stack_window_end < rsp then UINT64_MAX else stack_window_end)
      in andthen (map_range_from_old_cr3 new_pml4 old_cr3 stack_window_start stack_window_end s)
           (\<lambda>(n, s1). Inr (add_passthrough n s1)))"

definition map_framebuffer :: "u64 \<Rightarrow> u64 \<Rightarrow> boot_framebuffer \<Rightarrow> vm \<Rightarrow> vm outcome" where
  "map_framebuffer new_pml4 old_cr3 fb s =
     (if fb_address fb \<noteq> 0 \<and> fb_pitch fb \<noteq> 0 \<and> fb_height fb \<noteq> 0 then
        if UINT64_MAX div fb_height fb < fb_pitch fb
        then Inl (Panic ''Paging init failed: framebuffer size overflow'')
        else
          let fb_base = fb_address fb;
              fb_size = fb_pitch fb * fb_height fb;
              fb_end = fb_base + fb_size;
              fb_end = (if fb_end < fb_base then UINT64_MAX else fb_end)
          in andthen (map_range_from_old_cr3 new_pml4 old_cr3 fb_base fb_end s)
               (\<lambda>(n, s1). Inr (add_passthrough n s1))
      else Inr s)"

text \<open>The physical window around the stack that reclaiming must skip.\<close>

definition reclaim_skip :: "u64 option \<Rightarrow> u64 \<times> u64" where
  "reclaim_skip stack =
     (case stack of
        None \<Rightarrow> (0, 0)
      | Some stack_phys \<Rightarrow>
          let skip_start = (if STACK_PROTECT_WINDOW_BYTES < stack_phys
                then align_down (stack_phys - STACK_PROTECT_WINDOW_BYTES) PAGE_SIZE_4K else 0);
              skip_end = align_up (stack_phys + STACK_PROTECT_WINDOW_BYTES) PAGE_SIZE_4K;
              skip_end = (if skip_end < skip_start then UINT64_MAX else skip_end)
          in (skip_start, skip_end))"

definition paging_init ::
    "u64 \<Rightarrow> u64 \<Rightarrow> u64 \<Rightarrow> boot_framebuffer \<Rightarrow> boot_memory_map \<Rightarrow> vm \<Rightarrow> vm outcome" where
  "paging_init kernel_virt_start kernel_virt_end rsp fb memory_map s =
     (if memory_map = None \<or> memory_map = Some [] then Inl (Panic ''Paging init failed: invalid memory map'')
      else if g_paging_initialized s then Inr s
      else if \<not> pmm_ready (vm_pmm s) then Inl (Panic ''Paging init failed: PMM is not ready'')
      else
        let highest = highest_physical_address (pmm_get_info (vm_pmm s))
        in if highest = 0 \<or> highest = UINT64_MAX then Inl (Panic ''Paging init failed: invalid PMM info'')
           else
             let hhdm_span_bytes = align_up highest PAGE_SIZE_4K;
                 old_cr3 = vm_cr3 s AND ENTRY_ADDR_MASK_4K
             in if translate_with_cr3 s old_cr3 kernel_virt_start = None
                then Inl (Panic ''Paging init failed: unable to translate kernel start from old CR3'')
                else
                  andthen (alloc_table_page s) (\<lambda>(new_pml4, s1).
                  let s2 = s1\<lparr>g_paging_info := (g_paging_info s1)\<lparr>root_pml4_phys := new_pml4\<rparr>\<rparr>
                  in andthen (map_kernel_range_from_old_cr3 kernel_virt_start kernel_virt_end new_pml4 old_cr3 s2)
                  (\<lambda>(kpages, s3).
                  let s4 = s3\<lparr>g_paging_info := (g_paging_info s3)\<lparr>mapped_kernel_pages := kpages\<rparr>\<rparr>
                  in andthen (map_hhdm_range new_pml4 hhdm_span_bytes s4) (\<lambda>s5.
                  andthen (map_stack_window new_pml4 old_cr3 rsp s5) (\<lambda>s6.
                  andthen (map_framebuffer new_pml4 old_cr3 fb s6) (\<lambda>s7.
                  let (skip_start, skip_end) = reclaim_skip (translate_with_cr3 s7 old_cr3 rsp);
                      s8 = paging_load_cr3 new_pml4 s7;
                      (reclaimed, s9) = reclaim_bootloader_reclaimable memory_map skip_start skip_end s8
                  in Inr (s9\<lparr>g_paging_info := (g_paging_info s9)
                             \<lparr>reclaimed_bootloader_pages := reclaimed, initialized := True\<rparr>,
                           g_paging_initialized := True\<rparr>)))))))"

end
