(* ===== verification/Gpt.thy ===== *)
theory Gpt
  imports Velox_Prelude
begin

text \<open>
  The partition table, \<^verbatim>\<open>fs/partition/gpt.c\<close>. The block driver enters as the function
  \<open>blk\<close>: the bytes of \<open>count\<close> sectors from sector \<open>lba\<close> on, or \<open>None\<close> when
  \<^verbatim>\<open>virtio_blk_read\<close> returns false. Packed structures are read from the byte buffers at their
  offsets, little endian; an access outside a buffer or outside the table of 128 partitions is
  \<open>Overrun\<close>.
\<close>

section \<open>Bytes\<close>

type_synonym bytes = "u8 list"
type_synonym block_read = "u64 \<Rightarrow> u32 \<Rightarrow> bytes option"

definition le16 :: "bytes \<Rightarrow> nat \<Rightarrow> u16" where
  "le16 bs i = ucast (bs ! i) OR push_bit 8 (ucast (bs ! (i + 1)))"

definition le32 :: "bytes \<Rightarrow> nat \<Rightarrow> u32" where
  "le32 bs i = ucast (le16 bs i) OR push_bit 16 (ucast (le16 bs (i + 2)))"

definition le64 :: "bytes \<Rightarrow> nat \<Rightarrow> u64" where
  "le64 bs i = ucast (le32 bs i) OR push_bit 32 (ucast (le32 bs (i + 4)))"

definition slice :: "nat \<Rightarrow> nat \<Rightarrow> 'a list \<Rightarrow> 'a list" where
  "slice i n xs = take n (drop i xs)"

section \<open>State\<close>

record gpt_header =
  gh_signature :: bytes
  gh_revision :: u32
  gh_header_size :: u32
  gh_crc32 :: u32
  gh_reserved :: u32
  gh_current_lba :: u64
  gh_backup_lba :: u64
  gh_first_usable_lba :: u64
  gh_last_usable_lba :: u64
  gh_disk_guid :: bytes
  gh_partition_entries_lba :: u64
  gh_num_partition_entries :: u32
  gh_partition_entry_size :: u32
  gh_partition_array_crc32 :: u32

record gpt_partition =
  gp_type_guid :: bytes
  gp_unique_guid :: bytes
  gp_start_lba :: u64
  gp_end_lba :: u64
  gp_num_sectors :: u64
  gp_attributes :: u64
  gp_name :: bytes

record gpt =
  gpt_hdr :: gpt_header
  partitions :: "gpt_partition list"
  partition_count :: nat

section \<open>Operations\<close>

text \<open>
  \<^verbatim>\<open>guid_to_utf8\<close>: the name is read from the entry on, whatever follows it, up to a zero unit
  or \<open>max_chars - 1\<close> units; the rest of the output keeps what it held, except its last byte.
\<close>

fun name_units :: "bytes \<Rightarrow> nat \<Rightarrow> nat \<Rightarrow> nat \<Rightarrow> bytes \<Rightarrow> bytes outcome" where
  "name_units src off i 0 out = Inr out"
| "name_units src off i (Suc n) out =
     (if length src < off + 2 * i + 2 then Inl Overrun
      else
        let u = le16 src (off + 2 * i)
        in if u = 0 then Inr out
           else name_units src off (i + 1) n (out[i := (if u < 0x80 then ucast u else 0x3F)]))"

definition guid_to_utf8 :: "bytes \<Rightarrow> nat \<Rightarrow> bytes \<Rightarrow> nat \<Rightarrow> bytes outcome" where
  "guid_to_utf8 src off out max_chars =
     andthen (name_units src off 0 (max_chars - 1) out) (\<lambda>out. Inr (out[max_chars - 1 := 0]))"

definition parse_header :: "bytes \<Rightarrow> gpt_header" where
  "parse_header sector =
     \<lparr>gh_signature = slice 0 8 sector, gh_revision = le32 sector 8, gh_header_size = le32 sector 12,
      gh_crc32 = le32 sector 16, gh_reserved = le32 sector 20, gh_current_lba = le64 sector 24,
      gh_backup_lba = le64 sector 32, gh_first_usable_lba = le64 sector 40, gh_last_usable_lba = le64 sector 48,
      gh_disk_guid = slice 56 16 sector, gh_partition_entries_lba = le64 sector 72,
      gh_num_partition_entries = le32 sector 80, gh_partition_entry_size = le32 sector 84,
      gh_partition_array_crc32 = le32 sector 88\<rparr>"

definition gpt_scan_entry :: "bytes \<Rightarrow> u32 \<Rightarrow> u32 \<Rightarrow> gpt \<Rightarrow> gpt outcome" where
  "gpt_scan_entry buf esize i g =
     (let off = unat (i * esize)
      in if length buf < off + 16 then Inl Overrun
         else if \<forall>b \<in> set (slice off 16 buf). b = 0 then Inr g
         else if length (partitions g) \<le> partition_count g \<or> length buf < off + 56 then Inl Overrun
         else
           let p = partitions g ! partition_count g
           in andthen (guid_to_utf8 buf (off + 56) (gp_name p) 72) (\<lambda>name.
                Inr (g\<lparr>partitions := (partitions g)[partition_count g :=
                         \<lparr>gp_type_guid = slice off 16 buf, gp_unique_guid = slice (off + 16) 16 buf,
                          gp_start_lba = le64 buf (off + 32), gp_end_lba = le64 buf (off + 40),
                          gp_num_sectors = le64 buf (off + 40) - le64 buf (off + 32) + 1,
                          gp_attributes = le64 buf (off + 48), gp_name = name\<rparr>],
                       partition_count := partition_count g + 1\<rparr>)))"

definition gpt_init :: "block_read \<Rightarrow> gpt \<Rightarrow> (bool \<times> gpt) outcome" where
  "gpt_init blk g =
     (case blk 1 1 of
        None \<Rightarrow> Inr (False, g)
      | Some sector \<Rightarrow>
          let hdr = parse_header sector; g1 = g\<lparr>gpt_hdr := hdr\<rparr>
          in if gh_signature hdr \<noteq> [0x45, 0x46, 0x49, 0x20, 0x50, 0x41, 0x52, 0x54] then Inr (False, g1)
             else case blk 2 32 of
               None \<Rightarrow> Inr (False, g1)
             | Some buf \<Rightarrow>
                 andthen (fold_outcome (gpt_scan_entry buf (gh_partition_entry_size hdr))
                            (map word_of_nat [0..<unat (gh_num_partition_entries hdr)]) (g1\<lparr>partition_count := 0\<rparr>))
                   (\<lambda>g2. Inr (True, g2)))"

definition gpt_get_partition_count :: "gpt \<Rightarrow> nat" where
  "gpt_get_partition_count g = partition_count g"

definition gpt_get_partition :: "gpt \<Rightarrow> int \<Rightarrow> gpt_partition option" where
  "gpt_get_partition g index =
     (if index < 0 \<or> int (partition_count g) \<le> index then None else Some (partitions g ! nat index))"

definition gpt_read_partition_sectors :: "block_read \<Rightarrow> gpt \<Rightarrow> int \<Rightarrow> u64 \<Rightarrow> u32 \<Rightarrow> bytes option" where
  "gpt_read_partition_sectors blk g index relative_lba count =
     (if index < 0 \<or> int (partition_count g) \<le> index then None
      else
        let p = partitions g ! nat index
        in if gp_num_sectors p < relative_lba + ucast count then None
           else blk (gp_start_lba p + relative_lba) count)"

section \<open>Reading the table\<close>

text \<open>What an entry of the array says, and whether it is in use.\<close>

definition entry_used :: "bytes \<Rightarrow> nat \<Rightarrow> bool" where
  "entry_used buf off \<longleftrightarrow> (\<exists>b \<in> set (slice off 16 buf). b \<noteq> 0)"

definition describes :: "bytes \<Rightarrow> nat \<Rightarrow> gpt_partition \<Rightarrow> bool" where
  "describes buf off p \<longleftrightarrow> gp_type_guid p = slice off 16 buf \<and> gp_unique_guid p = slice (off + 16) 16 buf \<and>
     gp_start_lba p = le64 buf (off + 32) \<and> gp_end_lba p = le64 buf (off + 40) \<and>
     gp_num_sectors p = gp_end_lba p - gp_start_lba p + 1 \<and> gp_attributes p = le64 buf (off + 48)"

definition name_ends :: "bytes \<Rightarrow> nat \<Rightarrow> bool" where
  "name_ends buf off \<longleftrightarrow> (\<exists>j < 36. le16 buf (off + 56 + 2 * j) = 0)"

lemma name_units_returns:
  "le16 src (off + 2 * j) = 0 \<Longrightarrow> off + 2 * j + 2 \<le> length src \<Longrightarrow> i \<le> j \<Longrightarrow> \<exists>out'. name_units src off i n out = Inr out'"
proof (induction n arbitrary: i out)
  case (Suc n)
  then show ?case by (cases "i = j") (auto simp: Let_def)
qed simp

lemma guid_to_utf8_returns:
  "name_ends buf off \<Longrightarrow> off + 128 \<le> length buf \<Longrightarrow> \<exists>name. guid_to_utf8 buf (off + 56) out 72 = Inr name"
  using name_units_returns [of buf "off + 56" _ 0 71 out] by (fastforce simp: name_ends_def guid_to_utf8_def andthen_def)

lemma gpt_scan_entry_spec:
  assumes "off = unat (i * esize)" and "off + 128 \<le> length buf" and "partition_count g < length (partitions g)"
    and "entry_used buf off \<Longrightarrow> name_ends buf off"
  shows "\<exists>g'. gpt_scan_entry buf esize i g = Inr g' \<and> gpt_hdr g' = gpt_hdr g \<and> length (partitions g') = length (partitions g) \<and>
    partition_count g' = partition_count g + (if entry_used buf off then 1 else 0) \<and>
    (\<forall>k < partition_count g. partitions g' ! k = partitions g ! k) \<and>
    (entry_used buf off \<longrightarrow> describes buf off (partitions g' ! partition_count g))"
proof (cases "entry_used buf off")
  case False
  then show ?thesis using assms(2) by (auto simp: gpt_scan_entry_def Let_def assms(1) [symmetric] entry_used_def)
next
  case True
  obtain name where "guid_to_utf8 buf (off + 56) (gp_name (partitions g ! partition_count g)) 72 = Inr name"
    using guid_to_utf8_returns [OF assms(4) [OF True] assms(2)] by blast
  moreover have "\<not> (\<forall>b \<in> set (slice off 16 buf). b = 0)" using True by (auto simp: entry_used_def)
  ultimately show ?thesis using assms(2,3) True
    by (simp add: gpt_scan_entry_def Let_def assms(1) [symmetric] describes_def)
qed

lemma unat_ucast_32 [simp]: "unat (ucast x :: u64) = unat x" for x :: u32
proof -
  have "unat x < 2 ^ 32" using unsigned_less [of x, where 'a = nat] by simp
  then show ?thesis by (simp add: unsigned_ucast_eq take_bit_nat_eq_self)
qed

lemma gpt_scan_loop:
  assumes "\<And>i. i \<in> set is \<Longrightarrow> unat (i * esize) + 128 \<le> length buf \<and>
      (entry_used buf (unat (i * esize)) \<longrightarrow> name_ends buf (unat (i * esize)))"
    and "partition_count g + length is \<le> length (partitions g)"
  defines "used \<equiv> filter (entry_used buf) (map (\<lambda>i. unat (i * esize)) is)"
  shows "\<exists>g'. fold_outcome (gpt_scan_entry buf esize) is g = Inr g' \<and> gpt_hdr g' = gpt_hdr g \<and>
    partition_count g' = partition_count g + length used \<and>
    (\<forall>k < partition_count g. partitions g' ! k = partitions g ! k) \<and>
    (\<forall>k < length used. describes buf (used ! k) (partitions g' ! (partition_count g + k)))"
  using assms(1,2) unfolding used_def
proof (induction "is" arbitrary: g)
  case (Cons i "is")
  let ?off = "unat (i * esize)" and ?used = "filter (entry_used buf) (map (\<lambda>i. unat (i * esize)) is)"
  obtain g1 where g1: "gpt_scan_entry buf esize i g = Inr g1" "gpt_hdr g1 = gpt_hdr g" "length (partitions g1) = length (partitions g)"
    "partition_count g1 = partition_count g + (if entry_used buf ?off then 1 else 0)"
    "\<And>k. k < partition_count g \<Longrightarrow> partitions g1 ! k = partitions g ! k"
    "entry_used buf ?off \<Longrightarrow> describes buf ?off (partitions g1 ! partition_count g)"
    using gpt_scan_entry_spec [OF refl, of i esize buf g] Cons.prems by auto
  obtain g' where g': "fold_outcome (gpt_scan_entry buf esize) is g1 = Inr g'" "gpt_hdr g' = gpt_hdr g1"
    "partition_count g' = partition_count g1 + length ?used"
    "\<And>k. k < partition_count g1 \<Longrightarrow> partitions g' ! k = partitions g1 ! k"
    "\<And>k. k < length ?used \<Longrightarrow> describes buf (?used ! k) (partitions g' ! (partition_count g1 + k))"
    using Cons.IH [of g1] Cons.prems g1(3,4) by (auto split: if_splits)
  show ?case
  proof (cases "entry_used buf ?off")
    case False
    then show ?thesis using g1 g' by simp
  next
    case True
    have "describes buf ((?off # ?used) ! k) (partitions g' ! (partition_count g + k))" if "k < Suc (length ?used)" for k
      using that g1(4,6) g'(4) [of "partition_count g"] g'(5) [of "k - 1"] True by (cases k) auto
    then show ?thesis using True g1 g' by simp
  qed
qed simp

section \<open>Properties\<close>

text \<open>
  C24. \<^verbatim>\<open>gpt_init\<close> on a disk with a valid signature and a table it can hold (at most 128 entries of at
  least 128 bytes inside the 32 sectors read, every name terminated) succeeds without leaving a
  buffer, and afterwards the table lists exactly the entries in use, in their order on disk, each
  with the fields of its entry and its number of sectors.
\<close>

theorem gpt_init_lists_partitions:
  assumes "blk 1 1 = Some sector" and "slice 0 8 sector = [0x45, 0x46, 0x49, 0x20, 0x50, 0x41, 0x52, 0x54]"
    and "blk 2 32 = Some buf" and "n = unat (le32 sector 80)" and "esize = le32 sector 84"
    and "n \<le> length (partitions g)"
    and "\<And>i. i < n \<Longrightarrow> i * unat esize + 128 \<le> length buf \<and> length buf < 2 ^ 32"
    and "\<And>i. i < n \<Longrightarrow> entry_used buf (i * unat esize) \<Longrightarrow> name_ends buf (i * unat esize)"
  shows "\<exists>g'. let used = filter (entry_used buf) (map (\<lambda>i. i * unat esize) [0..<n]) in
    gpt_init blk g = Inr (True, g') \<and> gpt_get_partition_count g' = length used \<and>
    (\<forall>k < length used. describes buf (used ! k) (the (gpt_get_partition g' (int k))))"
proof -
  let ?is = "map word_of_nat [0..<n] :: u32 list"
  have off: "unat (word_of_nat i * esize) = i * unat esize" if "i < n" for i
  proof -
    have "i * unat esize < 2 ^ 32" using assms(7) [OF that] by linarith
    moreover have "unat (word_of_nat i :: u32) = i" using that assms(4) unsigned_less [of "le32 sector 80", where 'a = nat]
      by (simp add: unat_of_nat)
    ultimately show ?thesis by (simp add: unat_mult_lem [THEN iffD1])
  qed
  then have m: "map (\<lambda>i. unat (i * esize)) ?is = map (\<lambda>i. i * unat esize) [0..<n]" by simp
  let ?g = "g\<lparr>gpt_hdr := parse_header sector, partition_count := 0\<rparr>"
  have "\<exists>g'. fold_outcome (gpt_scan_entry buf esize) ?is ?g = Inr g' \<and> gpt_hdr g' = gpt_hdr ?g \<and>
    partition_count g' = partition_count ?g + length (filter (entry_used buf) (map (\<lambda>i. unat (i * esize)) ?is)) \<and>
    (\<forall>k < partition_count ?g. partitions g' ! k = partitions ?g ! k) \<and>
    (\<forall>k < length (filter (entry_used buf) (map (\<lambda>i. unat (i * esize)) ?is)).
       describes buf (filter (entry_used buf) (map (\<lambda>i. unat (i * esize)) ?is) ! k) (partitions g' ! (partition_count ?g + k)))"
    by (rule gpt_scan_loop) (use assms(6-8) off in auto)
  then show ?thesis unfolding m using assms(1-3)
    by (auto simp: gpt_init_def Let_def parse_header_def assms(4,5) gpt_get_partition_count_def gpt_get_partition_def)
qed


text \<open>
  C27. The check of \<^verbatim>\<open>gpt_read_partition_sectors\<close> adds the request's start and length at 64
  bits: a request that starts just below the largest sector number passes it, and reads the sectors
  in front of the partition.
\<close>

theorem gpt_read_wraps:
  fixes k count :: u32
  assumes "0 \<le> index" and "index < int (partition_count g)" and "p = partitions g ! nat index"
    and "unat k \<le> unat count" and "unat count - unat k \<le> unat (gp_num_sectors p)" and "0 < unat k"
  shows "gpt_read_partition_sectors blk g index (- ucast k) count = blk (gp_start_lba p - ucast k) count"
proof -
  have "(- ucast k + ucast count :: u64) = ucast count - ucast k" by simp
  moreover have "unat (ucast count - ucast k :: u64) = unat count - unat k"
    using assms(4) unat_sub [of "ucast k :: u64" "ucast count"] by (simp add: word_le_nat_alt)
  ultimately have "\<not> gp_num_sectors p < - ucast k + ucast count" using assms(5) by (simp add: word_less_nat_alt)
  then show ?thesis using assms(1-3) by (simp add: gpt_read_partition_sectors_def Let_def)
qed
text \<open>A disk with one partition, sectors 2048 to 4095.\<close>

definition demo_header :: bytes where
  "demo_header = [0x45, 0x46, 0x49, 0x20, 0x50, 0x41, 0x52, 0x54] @ replicate 72 0 @ [1, 0, 0, 0, 128, 0, 0, 0] @ replicate 424 0"

definition demo_entries :: bytes where
  "demo_entries = replicate 32 1 @ [0, 8, 0, 0, 0, 0, 0, 0, 255, 15, 0, 0, 0, 0, 0, 0] @ replicate 16336 0"

definition demo_disk :: block_read where
  "demo_disk lba count = (if lba = 1 then Some demo_header else if lba = 2 then Some demo_entries else Some (replicate (512 * unat count) 0))"

definition no_partition :: gpt_partition where
  "no_partition = \<lparr>gp_type_guid = [], gp_unique_guid = [], gp_start_lba = 0, gp_end_lba = 0, gp_num_sectors = 0,
     gp_attributes = 0, gp_name = replicate 72 0\<rparr>"

definition demo_gpt :: gpt where
  "demo_gpt = \<lparr>gpt_hdr = parse_header (replicate 512 0), partitions = replicate 128 no_partition, partition_count = 0\<rparr>"

lemma demo_fields: "le32 demo_header 80 = 1" "le32 demo_header 84 = 128"
  "slice 0 8 demo_header = [0x45, 0x46, 0x49, 0x20, 0x50, 0x41, 0x52, 0x54]"
  "le64 demo_entries 32 = 2048" "le64 demo_entries 40 = 4095" "length demo_entries = 16384"
  "entry_used demo_entries 0" "name_ends demo_entries 0"
  by (simp_all add: demo_header_def demo_entries_def le32_def le16_def le64_def slice_def nth_append entry_used_def name_ends_def)
     (auto intro!: exI [of _ 0])

theorem gpt_init_lists_partitions_witness:
  "\<exists>g'. gpt_init demo_disk demo_gpt = Inr (True, g') \<and> gpt_get_partition_count g' = 1 \<and>
     gp_num_sectors (the (gpt_get_partition g' 0)) = 2048"
proof -
  have "\<exists>g'. let used = filter (entry_used demo_entries) (map (\<lambda>i. i * unat (128 :: u32)) [0..<1]) in
    gpt_init demo_disk demo_gpt = Inr (True, g') \<and> gpt_get_partition_count g' = length used \<and>
    (\<forall>k < length used. describes demo_entries (used ! k) (the (gpt_get_partition g' (int k))))"
    by (rule gpt_init_lists_partitions [where sector = demo_header]) (simp_all add: demo_fields, simp_all add: demo_disk_def demo_gpt_def)
  then show ?thesis by (auto simp: demo_fields describes_def Let_def)
qed

definition demo_gpt1 :: gpt where
  "demo_gpt1 = demo_gpt\<lparr>partitions := (partitions demo_gpt)[0 := no_partition\<lparr>gp_start_lba := 2048, gp_end_lba := 4095, gp_num_sectors := 2048\<rparr>],
     partition_count := 1\<rparr>"

lemma demo_gpt1_part: "partitions demo_gpt1 ! 0 = no_partition\<lparr>gp_start_lba := 2048, gp_end_lba := 4095, gp_num_sectors := 2048\<rparr>"
  "partition_count demo_gpt1 = 1"
  by (simp_all add: demo_gpt1_def demo_gpt_def)


theorem gpt_read_wraps_witness:
  "gpt_read_partition_sectors demo_disk demo_gpt1 0 (- 1) 8 = demo_disk 2047 8"
  using gpt_read_wraps [of 0 demo_gpt1 _ 1 8 demo_disk, OF _ _ refl] by (simp add: demo_gpt1_part)

end
