(* ===== verification/Fat32.thy ===== *)
theory Fat32
  imports Gpt
begin

text \<open>
  The FAT32 reader, \<^verbatim>\<open>fs/fat32.c\<close>. A partition is read through the function \<open>rd\<close>, which
  is \<open>gpt_read_partition_sectors\<close> of the partition table; \<open>mem n\<close> says whether \<^verbatim>\<open>kmalloc\<close>
  serves the request for the cluster buffer of \<open>n\<close> bytes, which every path frees again. Names are
  byte strings up to their terminator. A loop along a FAT chain is a partial function: \<open>None\<close>
  when it does not end. \<open>Overrun\<close> marks a write past a name buffer and a use of buffer bytes that
  no sector was read into. Volumes are those that \<^verbatim>\<open>fat32_mount\<close> has accepted.
\<close>

section \<open>Data\<close>

type_synonym part_read = "int \<Rightarrow> u64 \<Rightarrow> u32 \<Rightarrow> bytes option"

text \<open>The error codes the file-system layers share; each stands for a negative return value.\<close>

datatype fs_error = NOENT | IO | NOMEM | EXIST | NOTDIR | INVAL | NAMETOOLONG | NOTSUP

fun errno :: "fs_error \<Rightarrow> int" where
  "errno NOENT = - 2" | "errno IO = - 5" | "errno NOMEM = - 12" | "errno EXIST = - 17"
| "errno NOTDIR = - 20" | "errno INVAL = - 22" | "errno NAMETOOLONG = - 36" | "errno NOTSUP = - 95"

record fat32_bpb =
  jump :: bytes
  oem_id :: bytes
  bytes_per_sector :: u16
  sectors_per_cluster :: u8
  reserved_sectors :: u16
  num_fats :: u8
  root_entry_count :: u16
  total_sectors_16 :: u16
  media_type :: u8
  fat_size_16 :: u16
  sectors_per_track :: u16
  num_heads :: u16
  hidden_sectors :: u32
  total_sectors_32 :: u32
  fat_size_32 :: u32
  ext_flags :: u16
  fs_version :: u16
  bpb_root_cluster :: u32
  fs_info_sector :: u16
  backup_boot_sector :: u16
  bpb_reserved :: bytes
  drive_number :: u8
  bpb_reserved1 :: u8
  boot_signature :: u8
  volume_id :: u32
  volume_label :: bytes
  fs_type :: bytes

record fat32_vol =
  gpt_partition_index :: int
  bpb :: fat32_bpb
  bytes_per_cluster :: u32
  fat_start_lba :: u64
  data_start_lba :: u64
  root_cluster :: u32
  cluster_count :: u32

abbreviation FAT32_EOC :: u32 where "FAT32_EOC \<equiv> 0x0FFFFFF8"
abbreviation FAT32_BAD :: u32 where "FAT32_BAD \<equiv> 0x0FFFFFF7"
abbreviation FAT_ATTR_VOLUME_ID :: u8 where "FAT_ATTR_VOLUME_ID \<equiv> 0x08"
abbreviation FAT_ATTR_DIRECTORY :: u8 where "FAT_ATTR_DIRECTORY \<equiv> 0x10"
abbreviation FAT_ATTR_LFN :: u8 where "FAT_ATTR_LFN \<equiv> 0x0F"
abbreviation FAT32_NAME_MAX :: nat where "FAT32_NAME_MAX \<equiv> 256"

record fat32_raw_entry =
  re_name :: bytes
  re_ext :: bytes
  re_attributes :: u8
  re_reserved_nt :: u8
  re_create_time_tenth :: u8
  re_create_time :: u16
  re_create_date :: u16
  re_access_date :: u16
  re_cluster_high :: u16
  re_write_time :: u16
  re_write_date :: u16
  re_cluster_low :: u16
  re_file_size :: u32

record fat32_lfn_entry =
  le_sequence :: u8
  le_name :: "u16 list"
  le_attributes :: u8
  le_type :: u8
  le_checksum :: u8
  le_cluster_zero :: u16

record fat32_timestamp =
  raw_date :: u16
  raw_time :: u16

record fat32_dirent =
  de_name :: bytes
  de_attributes :: u8
  de_first_cluster :: u32
  de_file_size :: u32
  de_created :: fat32_timestamp
  de_modified :: fat32_timestamp
  de_accessed :: fat32_timestamp

record lfn_state =
  lfn_chars :: "u16 list"
  lfn_expected_seq :: u8
  lfn_check :: u8
  lfn_valid :: bool

section \<open>The volume\<close>

definition cluster_to_lba :: "fat32_vol \<Rightarrow> u32 \<Rightarrow> u64" where
  "cluster_to_lba vol cluster = data_start_lba vol + ucast (cluster - 2) * ucast (sectors_per_cluster (bpb vol))"

definition read_sectors :: "part_read \<Rightarrow> fat32_vol \<Rightarrow> u64 \<Rightarrow> u32 \<Rightarrow> bytes option" where
  "read_sectors rd vol relative_lba count = rd (gpt_partition_index vol) relative_lba count"

definition parse_bpb :: "bytes \<Rightarrow> fat32_bpb" where
  "parse_bpb s =
     \<lparr>jump = slice 0 3 s, oem_id = slice 3 8 s, bytes_per_sector = le16 s 11, sectors_per_cluster = s ! 13, reserved_sectors = le16 s 14, num_fats = s ! 16,
      root_entry_count = le16 s 17, total_sectors_16 = le16 s 19, media_type = s ! 21, fat_size_16 = le16 s 22,
      sectors_per_track = le16 s 24, num_heads = le16 s 26, hidden_sectors = le32 s 28, total_sectors_32 = le32 s 32,
      fat_size_32 = le32 s 36, ext_flags = le16 s 40, fs_version = le16 s 42, bpb_root_cluster = le32 s 44,
      fs_info_sector = le16 s 48, backup_boot_sector = le16 s 50, bpb_reserved = slice 52 12 s, drive_number = s ! 64,
      bpb_reserved1 = s ! 65, boot_signature = s ! 66,
      volume_id = le32 s 67, volume_label = slice 71 11 s, fs_type = slice 82 8 s\<rparr>"

definition zero_vol :: fat32_vol where
  "zero_vol = \<lparr>gpt_partition_index = 0, bpb = parse_bpb (replicate 512 0), bytes_per_cluster = 0, fat_start_lba = 0,
     data_start_lba = 0, root_cluster = 0, cluster_count = 0\<rparr>"

definition fat32_mount :: "part_read \<Rightarrow> int \<Rightarrow> bool \<times> fat32_vol" where
  "fat32_mount rd gpt_index =
     (let vol0 = zero_vol\<lparr>gpt_partition_index := gpt_index\<rparr>
      in case rd gpt_index 0 1 of
           None \<Rightarrow> (False, vol0)
         | Some sector \<Rightarrow>
             let b = parse_bpb sector;
                 vol1 = vol0\<lparr>bpb := b\<rparr>;
                 bps = bytes_per_sector b;
                 spc = sectors_per_cluster b
             in if sector ! 510 \<noteq> 0x55 \<or> sector ! 511 \<noteq> 0xAA then (False, vol1)
                else if root_entry_count b \<noteq> 0 \<or> fat_size_16 b \<noteq> 0 \<or> total_sectors_16 b \<noteq> 0 then (False, vol1)
                else if fat_size_32 b = 0 then (False, vol1)
                else if fs_version b \<noteq> 0 then (False, vol1)
                else if bps < 512 \<or> 4096 < bps \<or> bps AND (bps - 1) \<noteq> 0 then (False, vol1)
                else if spc = 0 \<or> spc AND (spc - 1) \<noteq> 0 then (False, vol1)
                else
                  let data_start = ucast (reserved_sectors b) + ucast (num_fats b) * ucast (fat_size_32 b) :: u64;
                      total_sectors = (if total_sectors_32 b \<noteq> 0 then total_sectors_32 b else ucast (total_sectors_16 b));
                      data_sectors = ucast total_sectors - data_start :: u64
                  in (True, vol1\<lparr>bytes_per_cluster := ucast bps * ucast spc,
                                 fat_start_lba := ucast (reserved_sectors b),
                                 data_start_lba := data_start,
                                 root_cluster := bpb_root_cluster b,
                                 cluster_count := ucast (data_sectors div ucast spc)\<rparr>))"

definition fat32_read_fat_entry :: "part_read \<Rightarrow> fat32_vol \<Rightarrow> u32 \<Rightarrow> u32" where
  "fat32_read_fat_entry rd vol cluster =
     (let bps = ucast (bytes_per_sector (bpb vol)) :: u32;
          entries_per_sector = bps div 4;
          fat_sector = fat_start_lba vol + ucast (cluster div entries_per_sector);
          byte_offset = (cluster mod entries_per_sector) * 4
      in if 512 < bps then FAT32_BAD
         else case read_sectors rd vol fat_sector 1 of
           None \<Rightarrow> FAT32_BAD
         | Some sector \<Rightarrow> le32 sector (unat byte_offset) AND 0x0FFFFFFF)"

definition fat32_read_cluster :: "part_read \<Rightarrow> fat32_vol \<Rightarrow> u32 \<Rightarrow> bytes option" where
  "fat32_read_cluster rd vol cluster =
     (if cluster < 2 \<or> cluster_count vol + 1 < cluster then None
      else read_sectors rd vol (cluster_to_lba vol cluster) (ucast (sectors_per_cluster (bpb vol))))"

section \<open>Directory entries\<close>

definition parse_raw :: "bytes \<Rightarrow> fat32_raw_entry" where
  "parse_raw e =
     \<lparr>re_name = slice 0 8 e, re_ext = slice 8 3 e, re_attributes = e ! 11, re_reserved_nt = e ! 12,
      re_create_time_tenth = e ! 13, re_create_time = le16 e 14,
      re_create_date = le16 e 16, re_access_date = le16 e 18, re_cluster_high = le16 e 20, re_write_time = le16 e 22,
      re_write_date = le16 e 24, re_cluster_low = le16 e 26, re_file_size = le32 e 28\<rparr>"

definition parse_lfn :: "bytes \<Rightarrow> fat32_lfn_entry" where
  "parse_lfn e =
     \<lparr>le_sequence = e ! 0,
      le_name = map (le16 e) [1, 3, 5, 7, 9] @ map (le16 e) [14, 16, 18, 20, 22, 24] @ map (le16 e) [28, 30],
      le_attributes = e ! 11, le_type = e ! 12, le_checksum = e ! 13, le_cluster_zero = le16 e 26\<rparr>"

definition lfn_checksum :: "bytes \<Rightarrow> u8" where
  "lfn_checksum name11 =
     fold (\<lambda>c sum. (if sum AND 1 \<noteq> 0 then 0x80 else 0) + drop_bit 1 sum + c) (take 11 name11) 0"

definition lfn_push :: "lfn_state \<Rightarrow> fat32_lfn_entry \<Rightarrow> lfn_state" where
  "lfn_push lfn e =
     (if 20 * 13 < length (lfn_chars lfn) + 13 then lfn\<lparr>lfn_valid := False\<rparr>
      else lfn\<lparr>lfn_chars := le_name e @ lfn_chars lfn\<rparr>)"

fun utf16le_to_utf8 :: "u16 list \<Rightarrow> bytes" where
  "utf16le_to_utf8 [] = []"
| "utf16le_to_utf8 (cp # src) =
     (if cp = 0 then []
      else if cp < 0x80 then ucast cp # utf16le_to_utf8 src
      else if cp < 0x800
      then (0xC0 OR ucast (drop_bit 6 cp)) # (0x80 OR ucast (cp AND 0x3F)) # utf16le_to_utf8 src
      else (0xE0 OR ucast (drop_bit 12 cp)) # (0x80 OR ucast (drop_bit 6 cp AND 0x3F)) #
           (0x80 OR ucast (cp AND 0x3F)) # utf16le_to_utf8 src)"

definition fat32_tolower :: "u8 \<Rightarrow> u8" where
  "fat32_tolower c = (if 0x41 \<le> c \<and> c \<le> 0x5A then c + 32 else c)"

definition strip_spaces :: "bytes \<Rightarrow> bytes" where
  "strip_spaces xs = rev (dropWhile (\<lambda>c. c = 0x20) (rev xs))"

definition build_83_name :: "fat32_raw_entry \<Rightarrow> bytes" where
  "build_83_name e =
     (let base = strip_spaces (re_name e); ext = strip_spaces (re_ext e)
      in map fat32_tolower base @ (if ext \<noteq> [] then 0x2E # map fat32_tolower ext else []))"

definition lfn_reset :: "lfn_state \<Rightarrow> lfn_state" where
  "lfn_reset lfn = lfn\<lparr>lfn_valid := False, lfn_chars := []\<rparr>"

text \<open>A fragment of a long name; fragments arrive last one first.\<close>

definition lfn_fragment :: "lfn_state \<Rightarrow> fat32_lfn_entry \<Rightarrow> lfn_state" where
  "lfn_fragment lfn le =
     (let seq = le_sequence le;
          lfn1 = (if seq AND 0x40 \<noteq> 0
                  then lfn\<lparr>lfn_chars := [], lfn_expected_seq := seq AND NOT 0x40, lfn_check := le_checksum le, lfn_valid := True\<rparr>
                  else lfn);
          lfn2 = (if \<not> lfn_valid lfn1 \<or> seq AND NOT 0x40 \<noteq> lfn_expected_seq lfn1 then lfn1\<lparr>lfn_valid := False\<rparr> else lfn1)
      in if lfn_valid lfn2
         then let lfn3 = lfn_push lfn2 le in lfn3\<lparr>lfn_expected_seq := lfn_expected_seq lfn3 - 1\<rparr>
         else lfn2)"

definition entry_name :: "lfn_state \<Rightarrow> fat32_raw_entry \<Rightarrow> bytes" where
  "entry_name lfn raw =
     (if lfn_valid lfn \<and> lfn_chars lfn \<noteq> [] \<and> lfn_expected_seq lfn = 0 \<and>
         lfn_checksum (re_name raw @ re_ext raw) = lfn_check lfn
      then utf16le_to_utf8 (lfn_chars lfn) else build_83_name raw)"

definition make_dirent :: "lfn_state \<Rightarrow> fat32_raw_entry \<Rightarrow> fat32_dirent outcome" where
  "make_dirent lfn raw =
     (let name = entry_name lfn raw
      in if FAT32_NAME_MAX \<le> length name then Inl Overrun
         else Inr \<lparr>de_name = name, de_attributes = re_attributes raw,
                   de_first_cluster = push_bit 16 (ucast (re_cluster_high raw)) OR ucast (re_cluster_low raw),
                   de_file_size = re_file_size raw,
                   de_created = \<lparr>raw_date = re_create_date raw, raw_time = re_create_time raw\<rparr>,
                   de_modified = \<lparr>raw_date = re_write_date raw, raw_time = re_write_time raw\<rparr>,
                   de_accessed = \<lparr>raw_date = re_access_date raw, raw_time = 0\<rparr>\<rparr>)"

section \<open>Reading directories\<close>

abbreviation no_lfn :: lfn_state where
  "no_lfn \<equiv> \<lparr>lfn_chars = [], lfn_expected_seq = 0, lfn_check = 0, lfn_valid = False\<rparr>"

text \<open>
  The loop of \<^verbatim>\<open>process_dir_cluster\<close> over the entries of a cluster. \<open>out\<close> are the entries
  written so far; the last component of the result is \<^verbatim>\<open>*done\<close>.
\<close>

fun process_entries :: "bytes \<Rightarrow> nat \<Rightarrow> nat list \<Rightarrow> lfn_state \<Rightarrow> fat32_dirent list \<Rightarrow>
    (lfn_state \<times> fat32_dirent list \<times> bool) outcome" where
  "process_entries buf max_entries [] lfn out = Inr (lfn, out, False)"
| "process_entries buf max_entries (i # is) lfn out =
     (if length buf < 32 * i + 32 then Inl Overrun
      else
        let e = slice (32 * i) 32 buf; raw = parse_raw e
        in if e ! 0 = 0 then Inr (lfn, out, True)
           else if e ! 0 = 0xE5 then process_entries buf max_entries is (lfn_reset lfn) out
           else if re_attributes raw = FAT_ATTR_LFN
           then process_entries buf max_entries is (lfn_fragment lfn (parse_lfn e)) out
           else if re_attributes raw AND FAT_ATTR_VOLUME_ID \<noteq> 0
           then process_entries buf max_entries is (lfn_reset lfn) out
           else if max_entries \<le> length out
           then process_entries buf max_entries is (lfn_reset lfn) out
           else andthen (make_dirent lfn raw) (\<lambda>d.
                  process_entries buf max_entries is (lfn_reset lfn) (out @ [d])))"

definition entries_per_cluster :: "fat32_vol \<Rightarrow> nat list" where
  "entries_per_cluster vol = [0..<unat (bytes_per_cluster vol div 32)]"

definition process_dir_cluster :: "fat32_vol \<Rightarrow> bytes \<Rightarrow> nat \<Rightarrow> lfn_state \<Rightarrow> fat32_dirent list \<Rightarrow>
    (lfn_state \<times> fat32_dirent list \<times> bool) outcome" where
  "process_dir_cluster vol cluster_buf max_entries lfn out =
     process_entries cluster_buf max_entries (entries_per_cluster vol) lfn out"

partial_function (option) read_dir_loop :: "part_read \<Rightarrow> fat32_vol \<Rightarrow> nat \<Rightarrow> u32 \<Rightarrow> lfn_state \<Rightarrow> fat32_dirent list \<Rightarrow>
    (bool \<times> fat32_dirent list) outcome option" where
  "read_dir_loop rd vol max_entries cluster lfn out =
     (if \<not> (2 \<le> cluster \<and> cluster < FAT32_BAD) then Some (Inr (True, out))
      else case fat32_read_cluster rd vol cluster of
        None \<Rightarrow> Some (Inr (False, out))
      | Some buf \<Rightarrow>
          (case process_dir_cluster vol buf max_entries lfn out of
             Inl h \<Rightarrow> Some (Inl h)
           | Inr (lfn', out', done') \<Rightarrow>
               if done' then Some (Inr (True, out'))
               else if fat32_read_fat_entry rd vol cluster = FAT32_BAD then Some (Inr (False, out'))
               else read_dir_loop rd vol max_entries (fat32_read_fat_entry rd vol cluster) lfn' out'))"

definition fat32_read_dir :: "(u32 \<Rightarrow> bool) \<Rightarrow> part_read \<Rightarrow> fat32_vol \<Rightarrow> u32 \<Rightarrow> nat \<Rightarrow>
    (bool \<times> fat32_dirent list) outcome option" where
  "fat32_read_dir mem rd vol dir_cluster max_entries =
     (if \<not> mem (bytes_per_cluster vol) then Some (Inr (False, []))
      else read_dir_loop rd vol max_entries dir_cluster no_lfn [])"

section \<open>Iterating over a directory\<close>

text \<open>
  The loops of \<^verbatim>\<open>fat32_iter_dir\<close>: a callback gets every entry and its context and answers with a
  number, negative for an error, positive to stop. The result of the inner loop is the accumulator,
  the context, \<^verbatim>\<open>rc\<close> and \<^verbatim>\<open>done\<close>.
\<close>

type_synonym 'c dir_iter_cb = "fat32_dirent \<Rightarrow> 'c \<Rightarrow> int \<times> 'c"

fun iter_entries :: "'c dir_iter_cb \<Rightarrow> bytes \<Rightarrow> nat list \<Rightarrow> lfn_state \<Rightarrow> 'c \<Rightarrow> (lfn_state \<times> 'c \<times> int \<times> bool) outcome" where
  "iter_entries cb buf [] lfn ctx = Inr (lfn, ctx, 0, False)"
| "iter_entries cb buf (i # is) lfn ctx =
     (if length buf < 32 * i + 32 then Inl Overrun
      else
        let e = slice (32 * i) 32 buf; raw = parse_raw e
        in if e ! 0 = 0 then Inr (lfn, ctx, 0, True)
           else if e ! 0 = 0xE5 then iter_entries cb buf is (lfn_reset lfn) ctx
           else if re_attributes raw = FAT_ATTR_LFN
           then iter_entries cb buf is (lfn_fragment lfn (parse_lfn e)) ctx
           else if re_attributes raw AND FAT_ATTR_VOLUME_ID \<noteq> 0
           then iter_entries cb buf is (lfn_reset lfn) ctx
           else andthen (make_dirent lfn raw) (\<lambda>d.
                  let (cb_rc, ctx') = cb d ctx
                  in if cb_rc < 0 then Inr (lfn_reset lfn, ctx', cb_rc, True)
                     else if 0 < cb_rc then Inr (lfn_reset lfn, ctx', 0, True)
                     else iter_entries cb buf is (lfn_reset lfn) ctx'))"

partial_function (option) iter_dir_loop :: "'c dir_iter_cb \<Rightarrow> part_read \<Rightarrow> fat32_vol \<Rightarrow> u32 \<Rightarrow> lfn_state \<Rightarrow> 'c \<Rightarrow>
    (int \<times> 'c) outcome option" where
  "iter_dir_loop cb rd vol cluster lfn ctx =
     (if \<not> (2 \<le> cluster \<and> cluster < FAT32_BAD) then Some (Inr (0, ctx))
      else case fat32_read_cluster rd vol cluster of
        None \<Rightarrow> Some (Inr (errno IO, ctx))
      | Some buf \<Rightarrow>
          (case iter_entries cb buf (entries_per_cluster vol) lfn ctx of
             Inl h \<Rightarrow> Some (Inl h)
           | Inr (lfn', ctx', rc, done') \<Rightarrow>
               if done' then Some (Inr (rc, ctx'))
               else if fat32_read_fat_entry rd vol cluster = FAT32_BAD then Some (Inr (errno IO, ctx'))
               else if FAT32_EOC \<le> fat32_read_fat_entry rd vol cluster then Some (Inr (rc, ctx'))
               else iter_dir_loop cb rd vol (fat32_read_fat_entry rd vol cluster) lfn' ctx'))"

definition fat32_iter_dir :: "(u32 \<Rightarrow> bool) \<Rightarrow> part_read \<Rightarrow> fat32_vol \<Rightarrow> u32 \<Rightarrow> 'c dir_iter_cb \<Rightarrow> 'c \<Rightarrow> (int \<times> 'c) outcome option" where
  "fat32_iter_dir mem rd vol dir_cluster cb ctx =
     (if dir_cluster < 2 then Some (Inr (errno INVAL, ctx))
      else if \<not> mem (bytes_per_cluster vol) then Some (Inr (errno NOMEM, ctx))
      else iter_dir_loop cb rd vol dir_cluster no_lfn ctx)"

fun fat32_name_equal_ci :: "bytes \<Rightarrow> bytes \<Rightarrow> bool" where
  "fat32_name_equal_ci [] [] = True"
| "fat32_name_equal_ci [] (b # bs) = (b = 0)"
| "fat32_name_equal_ci (a # as) [] = (a = 0)"
| "fat32_name_equal_ci (a # as) (b # bs) =
     (if a \<noteq> 0 \<and> b \<noteq> 0
      then if fat32_tolower a \<noteq> fat32_tolower b then False else fat32_name_equal_ci as bs
      else a = 0 \<and> b = 0)"

text \<open>The context of a lookup is the entry found, if any; that of an indexed read also the current index.\<close>

definition fat32_lookup_cb :: "bytes \<Rightarrow> fat32_dirent option dir_iter_cb" where
  "fat32_lookup_cb name ent out = (if fat32_name_equal_ci (de_name ent) name then (1, Some ent) else (0, out))"

definition fat32_readdir_cb :: "nat \<Rightarrow> (nat \<times> fat32_dirent option) dir_iter_cb" where
  "fat32_readdir_cb target ent ctx =
     (case ctx of (current, out) \<Rightarrow> if current = target then (1, (current, Some ent)) else (0, (current + 1, out)))"

definition as_error :: "int \<Rightarrow> fs_error" where
  "as_error rc = (if rc = errno IO then IO else if rc = errno INVAL then INVAL else NOMEM)"

definition fat32_lookup :: "(u32 \<Rightarrow> bool) \<Rightarrow> part_read \<Rightarrow> fat32_vol \<Rightarrow> u32 \<Rightarrow> bytes \<Rightarrow> (fs_error + fat32_dirent) outcome option" where
  "fat32_lookup mem rd vol dir_cluster name =
     map_option (\<lambda>out. andthen out (\<lambda>(rc, found).
       Inr (if rc < 0 then Inl (as_error rc) else case found of Some ent \<Rightarrow> Inr ent | None \<Rightarrow> Inl NOENT)))
       (fat32_iter_dir mem rd vol dir_cluster (fat32_lookup_cb name) None)"

definition fat32_readdir_index :: "(u32 \<Rightarrow> bool) \<Rightarrow> part_read \<Rightarrow> fat32_vol \<Rightarrow> u32 \<Rightarrow> nat \<Rightarrow>
    (fs_error + fat32_dirent option) outcome option" where
  "fat32_readdir_index mem rd vol dir_cluster index =
     map_option (\<lambda>out. andthen out (\<lambda>(rc, (current, found)).
       Inr (if rc < 0 then Inl (as_error rc) else Inr found)))
       (fat32_iter_dir mem rd vol dir_cluster (fat32_readdir_cb index) (0, None))"

section \<open>Paths\<close>

fun fat32_skip_slashes :: "bytes \<Rightarrow> bytes" where
  "fat32_skip_slashes [] = []"
| "fat32_skip_slashes (c # p) = (if c = 0x2F then fat32_skip_slashes p else c # p)"

fun copy_segment :: "nat \<Rightarrow> nat \<Rightarrow> bytes \<Rightarrow> fs_error + (bytes \<times> bytes)" where
  "copy_segment out_cap len [] = Inr ([], [])"
| "copy_segment out_cap len (c # p) =
     (if c = 0 \<or> c = 0x2F then Inr ([], c # p)
      else if out_cap \<le> len + 1 then Inl NAMETOOLONG
      else case copy_segment out_cap (len + 1) p of
        Inl e \<Rightarrow> Inl e
      | Inr (name, rest) \<Rightarrow> Inr (c # name, rest))"

definition fat32_copy_segment :: "bytes \<Rightarrow> nat \<Rightarrow> fs_error + (bytes \<times> bytes)" where
  "fat32_copy_segment p out_cap = (if out_cap = 0 then Inl INVAL else copy_segment out_cap 0 p)"

definition at_end :: "bytes \<Rightarrow> bool" where
  "at_end p \<longleftrightarrow> (case p of [] \<Rightarrow> True | c # _ \<Rightarrow> c = 0)"

definition fat32_make_root_dirent :: "fat32_vol \<Rightarrow> fat32_dirent" where
  "fat32_make_root_dirent vol =
     \<lparr>de_name = [0x2F], de_attributes = FAT_ATTR_DIRECTORY, de_first_cluster = root_cluster vol, de_file_size = 0,
      de_created = \<lparr>raw_date = 0, raw_time = 0\<rparr>, de_modified = \<lparr>raw_date = 0, raw_time = 0\<rparr>,
      de_accessed = \<lparr>raw_date = 0, raw_time = 0\<rparr>\<rparr>"

partial_function (option) lookup_path_loop :: "(u32 \<Rightarrow> bool) \<Rightarrow> part_read \<Rightarrow> fat32_vol \<Rightarrow> u32 \<Rightarrow> bytes \<Rightarrow>
    (fs_error + fat32_dirent) outcome option" where
  "lookup_path_loop mem rd vol dir_cluster p =
     (case fat32_copy_segment p (FAT32_NAME_MAX + 1) of
        Inl e \<Rightarrow> Some (Inr (Inl e))
      | Inr (name, rest) \<Rightarrow>
          (case fat32_lookup mem rd vol dir_cluster name of
             None \<Rightarrow> None
           | Some (Inl h) \<Rightarrow> Some (Inl h)
           | Some (Inr (Inl e)) \<Rightarrow> Some (Inr (Inl e))
           | Some (Inr (Inr current)) \<Rightarrow>
               if at_end (fat32_skip_slashes rest) then Some (Inr (Inr current))
               else if de_attributes current AND FAT_ATTR_DIRECTORY = 0 then Some (Inr (Inl NOTDIR))
               else if de_first_cluster current < 2 then Some (Inr (Inl IO))
               else lookup_path_loop mem rd vol (de_first_cluster current) (fat32_skip_slashes rest)))"

definition fat32_lookup_path :: "(u32 \<Rightarrow> bool) \<Rightarrow> part_read \<Rightarrow> fat32_vol \<Rightarrow> bytes \<Rightarrow> (fs_error + fat32_dirent) outcome option" where
  "fat32_lookup_path mem rd vol path =
     (if at_end path then Some (Inr (Inr (fat32_make_root_dirent vol)))
      else if at_end (fat32_skip_slashes path) then Some (Inr (Inr (fat32_make_root_dirent vol)))
      else lookup_path_loop mem rd vol (root_cluster vol) (fat32_skip_slashes path))"

definition fat32_stat_path :: "(u32 \<Rightarrow> bool) \<Rightarrow> part_read \<Rightarrow> fat32_vol \<Rightarrow> bytes \<Rightarrow> (fs_error + fat32_dirent) outcome option" where
  "fat32_stat_path mem rd vol path = fat32_lookup_path mem rd vol path"

definition fat32_read_dir_path :: "(u32 \<Rightarrow> bool) \<Rightarrow> part_read \<Rightarrow> fat32_vol \<Rightarrow> bytes \<Rightarrow> nat \<Rightarrow>
    (fs_error + fat32_dirent list) outcome option" where
  "fat32_read_dir_path mem rd vol path max_entries =
     (case fat32_lookup_path mem rd vol path of
        None \<Rightarrow> None
      | Some (Inl h) \<Rightarrow> Some (Inl h)
      | Some (Inr (Inl e)) \<Rightarrow> Some (Inr (Inl e))
      | Some (Inr (Inr dirent)) \<Rightarrow>
          if de_attributes dirent AND FAT_ATTR_DIRECTORY = 0 then Some (Inr (Inl NOTDIR))
          else
            let dir_cluster = (if de_first_cluster dirent < 2 then root_cluster vol else de_first_cluster dirent)
            in map_option (\<lambda>out. andthen out (\<lambda>(ok, entries). Inr (if ok then Inr entries else Inl IO)))
                 (fat32_read_dir mem rd vol dir_cluster max_entries))"

section \<open>Reading files\<close>

text \<open>
  The loop that follows the chain to the cluster of the first byte wanted: an error, the end of the
  chain (\<open>None\<close>), or the cluster and the offset left.
\<close>

partial_function (option) skip_clusters :: "part_read \<Rightarrow> fat32_vol \<Rightarrow> u32 \<Rightarrow> u64 \<Rightarrow> (fs_error + (u32 \<times> u64) option) option" where
  "skip_clusters rd vol cluster skip =
     (if skip < ucast (bytes_per_cluster vol) then Some (Inr (Some (cluster, skip)))
      else if fat32_read_fat_entry rd vol cluster = FAT32_BAD then Some (Inl IO)
      else if FAT32_EOC \<le> fat32_read_fat_entry rd vol cluster then Some (Inr None)
      else skip_clusters rd vol (fat32_read_fat_entry rd vol cluster) (skip - ucast (bytes_per_cluster vol)))"

partial_function (option) read_clusters :: "part_read \<Rightarrow> fat32_vol \<Rightarrow> u32 \<Rightarrow> u64 \<Rightarrow> u64 \<Rightarrow> bytes \<Rightarrow> (fs_error + bytes) outcome option" where
  "read_clusters rd vol cluster intra to_read out =
     (if \<not> (0 < to_read \<and> 2 \<le> cluster \<and> cluster < FAT32_EOC) then Some (Inr (Inr out))
      else case fat32_read_cluster rd vol cluster of
        None \<Rightarrow> Some (Inr (Inl IO))
      | Some buf \<Rightarrow>
          (let avail = ucast (bytes_per_cluster vol) - intra;
               chunk = (if to_read < avail then to_read else avail);
               out' = out @ slice (unat intra) (unat chunk) buf
           in if length buf < unat intra + unat chunk then Some (Inl Overrun)
              else if to_read - chunk = 0 then Some (Inr (Inr out'))
              else if fat32_read_fat_entry rd vol cluster = FAT32_BAD then Some (Inr (Inl IO))
              else if FAT32_EOC \<le> fat32_read_fat_entry rd vol cluster then Some (Inr (Inr out'))
              else read_clusters rd vol (fat32_read_fat_entry rd vol cluster) 0 (to_read - chunk) out'))"

definition fat32_read_file_at :: "(u32 \<Rightarrow> bool) \<Rightarrow> part_read \<Rightarrow> fat32_vol \<Rightarrow> u32 \<Rightarrow> u32 \<Rightarrow> u64 \<Rightarrow> u64 \<Rightarrow>
    (fs_error + bytes) outcome option" where
  "fat32_read_file_at mem rd vol first_cluster file_size offset len =
     (if ucast file_size \<le> offset \<or> len = 0 then Some (Inr (Inr []))
      else if file_size = 0 then Some (Inr (Inr []))
      else if first_cluster < 2 then Some (Inr (Inl IO))
      else
        let remaining = ucast file_size - offset; len = (if remaining < len then remaining else len)
        in if \<not> mem (bytes_per_cluster vol) then Some (Inr (Inl NOMEM))
           else case skip_clusters rd vol first_cluster offset of
             None \<Rightarrow> None
           | Some (Inl e) \<Rightarrow> Some (Inr (Inl e))
           | Some (Inr None) \<Rightarrow> Some (Inr (Inr []))
           | Some (Inr (Some (cluster, skip))) \<Rightarrow> read_clusters rd vol cluster skip len [])"

declare read_dir_loop.simps [code] iter_dir_loop.simps [code] lookup_path_loop.simps [code]
  skip_clusters.simps [code] read_clusters.simps [code]

section \<open>Chains and file contents\<close>

text \<open>
  \<open>fat_chain rd vol c cs\<close>: from \<open>c\<close> on, the FAT links exactly the clusters \<open>cs\<close> and ends.
  \<open>clusters_ok\<close>: each of them can be read and fills a cluster.
\<close>

fun fat_chain :: "part_read \<Rightarrow> fat32_vol \<Rightarrow> u32 \<Rightarrow> u32 list \<Rightarrow> bool" where
  "fat_chain rd vol c [] = False"
| "fat_chain rd vol c (x # xs) \<longleftrightarrow> x = c \<and> 2 \<le> c \<and> c < FAT32_BAD \<and>
     (if xs = [] then FAT32_EOC \<le> fat32_read_fat_entry rd vol c
      else fat32_read_fat_entry rd vol c < FAT32_BAD \<and> fat_chain rd vol (fat32_read_fat_entry rd vol c) xs)"

definition cluster_data :: "part_read \<Rightarrow> fat32_vol \<Rightarrow> u32 \<Rightarrow> bytes" where
  "cluster_data rd vol c = the (fat32_read_cluster rd vol c)"

definition clusters_ok :: "part_read \<Rightarrow> fat32_vol \<Rightarrow> u32 list \<Rightarrow> bool" where
  "clusters_ok rd vol cs \<longleftrightarrow> 0 < bytes_per_cluster vol \<and>
     (\<forall>c \<in> set cs. \<exists>buf. fat32_read_cluster rd vol c = Some buf \<and> length buf = unat (bytes_per_cluster vol))"

definition chain_data :: "part_read \<Rightarrow> fat32_vol \<Rightarrow> u32 list \<Rightarrow> bytes" where
  "chain_data rd vol cs = concat (map (cluster_data rd vol) cs)"

lemma chain_data_simps [simp]:
  "chain_data rd vol [] = []" "chain_data rd vol (c # cs) = cluster_data rd vol c @ chain_data rd vol cs"
  by (simp_all add: chain_data_def)

lemma clusters_ok_Cons:
  "clusters_ok rd vol (c # cs) \<Longrightarrow> fat32_read_cluster rd vol c = Some (cluster_data rd vol c) \<and>
     length (cluster_data rd vol c) = unat (bytes_per_cluster vol) \<and> clusters_ok rd vol cs \<and> 0 < bytes_per_cluster vol"
  by (auto simp: clusters_ok_def cluster_data_def)

lemma length_chain_data: "clusters_ok rd vol cs \<Longrightarrow> length (chain_data rd vol cs) = length cs * unat (bytes_per_cluster vol)"
proof (induction cs)
  case (Cons c cs)
  then show ?case using clusters_ok_Cons [OF Cons.prems] by simp
qed simp

lemma skip_clusters_spec:
  assumes "fat_chain rd vol c cs" and "clusters_ok rd vol cs" and "unat skip < length (chain_data rd vol cs)"
  shows "\<exists>c' cs' skip'. skip_clusters rd vol c skip = Some (Inr (Some (c', skip'))) \<and> fat_chain rd vol c' cs' \<and>
    clusters_ok rd vol cs' \<and> unat skip' < unat (bytes_per_cluster vol) \<and>
    drop (unat skip) (chain_data rd vol cs) = drop (unat skip') (chain_data rd vol cs')"
  using assms
proof (induction cs arbitrary: c skip)
  case (Cons x xs)
  note C = clusters_ok_Cons [OF Cons.prems(2)]
  let ?n = "ucast (bytes_per_cluster vol) :: u64" and ?next = "fat32_read_fat_entry rd vol c"
  show ?case
  proof (cases "skip < ?n")
    case True
    then have "skip_clusters rd vol c skip = Some (Inr (Some (c, skip)))" by (subst skip_clusters.simps) simp
    moreover have "unat skip < unat (bytes_per_cluster vol)" using True by (simp add: word_less_nat_alt)
    ultimately show ?thesis using Cons.prems(1,2)
      by (intro exI [of _ c] exI [of _ "x # xs"] exI [of _ skip] conjI) simp_all
  next
    case False
    then have le: "unat (bytes_per_cluster vol) \<le> unat skip" by (simp add: word_less_nat_alt)
    have "xs \<noteq> []" using Cons.prems(3) C le by auto
    then have nx: "fat_chain rd vol ?next xs" "?next < FAT32_BAD" using Cons.prems(1) by auto
    have us: "unat (skip - ?n) = unat skip - unat (bytes_per_cluster vol)" using False by (simp add: unat_sub not_less)
    have "unat (skip - ?n) < length (chain_data rd vol xs)" using Cons.prems(3) C us le by simp
    note IH = Cons.IH [OF nx(1) _ this]
    have "?next \<noteq> FAT32_BAD \<and> \<not> FAT32_EOC \<le> ?next" using nx(2) by (auto simp: word_less_nat_alt word_le_nat_alt)
    then have run: "skip_clusters rd vol c skip = skip_clusters rd vol ?next (skip - ?n)"
      using False by (subst skip_clusters.simps) simp
    have "drop (unat skip) (chain_data rd vol (x # xs)) = drop (unat (skip - ?n)) (chain_data rd vol xs)"
      using C us le by simp
    then show ?thesis unfolding run using IH C by simp
  qed
qed simp

lemma read_clusters_spec:
  assumes "fat_chain rd vol c cs" and "clusters_ok rd vol cs" and "unat intra < unat (bytes_per_cluster vol)"
    and "0 < to_read" and "unat intra + unat to_read \<le> length (chain_data rd vol cs)"
  shows "read_clusters rd vol c intra to_read out =
    Some (Inr (Inr (out @ slice (unat intra) (unat to_read) (chain_data rd vol cs))))"
  using assms
proof (induction cs arbitrary: c intra to_read out)
  case (Cons x xs)
  note C = clusters_ok_Cons [OF Cons.prems(2)]
  let ?n = "ucast (bytes_per_cluster vol) :: u64" and ?next = "fat32_read_fat_entry rd vol c"
  let ?buf = "cluster_data rd vol c"
  have xc: "x = c" "2 \<le> c" "c < FAT32_BAD" using Cons.prems(1) by auto
  have "c < FAT32_EOC" using xc(3) by (simp add: word_less_nat_alt)
  have ua: "unat (?n - intra) = unat (bytes_per_cluster vol) - unat intra"
    using Cons.prems(3) by (simp add: unat_sub word_le_nat_alt)
  have buf: "fat32_read_cluster rd vol c = Some ?buf" "length ?buf = unat (bytes_per_cluster vol)" using C xc by auto
  show ?case
  proof (cases "unat to_read \<le> unat (bytes_per_cluster vol) - unat intra")
    case True
    then have "(if to_read < ?n - intra then to_read else ?n - intra) = to_read"
      using ua by (simp add: word_less_nat_alt word_unat_eq_iff)
    then have "read_clusters rd vol c intra to_read out = Some (Inr (Inr (out @ slice (unat intra) (unat to_read) ?buf)))"
      using Cons.prems(3,4) True xc \<open>c < FAT32_EOC\<close> buf by (subst read_clusters.simps) (simp add: Let_def)
    then show ?thesis using True buf Cons.prems(3) xc by (simp add: slice_def)
  next
    case False
    then have ch: "(if to_read < ?n - intra then to_read else ?n - intra) = ?n - intra"
      using ua by (auto simp: word_less_nat_alt)
    have ur: "unat (to_read - (?n - intra)) = unat to_read - (unat (bytes_per_cluster vol) - unat intra)"
      using False ua by (simp add: unat_sub word_le_nat_alt)
    have "xs \<noteq> []" using Cons.prems(5) C False xc by auto
    then have nx: "fat_chain rd vol ?next xs" "?next < FAT32_BAD" using Cons.prems(1) by auto
    have nb: "?next \<noteq> FAT32_BAD" "\<not> FAT32_EOC \<le> ?next" using nx(2) by (auto simp: word_less_nat_alt word_le_nat_alt)
    have pos: "0 < to_read - (?n - intra)" "to_read - (?n - intra) \<noteq> 0" using ur False by (simp_all add: word_less_nat_alt word_unat_eq_iff)
    have run: "read_clusters rd vol c intra to_read out =
        read_clusters rd vol ?next 0 (to_read - (?n - intra)) (out @ slice (unat intra) (unat (?n - intra)) ?buf)"
      using Cons.prems(3,4) xc \<open>c < FAT32_EOC\<close> buf ch nb pos ua by (subst read_clusters.simps) (simp add: Let_def)
    have "unat (0 :: u64) + unat (to_read - (?n - intra)) \<le> length (chain_data rd vol xs)"
      using Cons.prems(3,5) ur buf xc False by simp
    note IH = Cons.IH [OF nx(1) _ _ pos(1) this]
    have "slice (unat intra) (unat to_read) (chain_data rd vol (x # xs)) =
        slice (unat intra) (unat (?n - intra)) ?buf @ slice 0 (unat (to_read - (?n - intra))) (chain_data rd vol xs)"
      using False ua ur buf xc Cons.prems(3) by (simp add: slice_def)
    then show ?thesis unfolding run using IH C by (simp add: word_less_nat_alt)
  qed
qed simp

lemma read_file_at_spec:
  assumes "fat_chain rd vol first cs" and "clusters_ok rd vol cs"
    and "unat file_size \<le> length (chain_data rd vol cs)" and "mem (bytes_per_cluster vol)"
  shows "fat32_read_file_at mem rd vol first file_size offset len =
    Some (Inr (Inr (slice (unat offset) (unat len) (take (unat file_size) (chain_data rd vol cs)))))"
proof (cases "ucast file_size \<le> offset \<or> len = 0")
  case True
  then show ?thesis by (auto simp: fat32_read_file_at_def slice_def word_le_nat_alt)
next
  case False
  let ?len = "if ucast file_size - offset < len then ucast file_size - offset else len" and ?data = "chain_data rd vol cs"
  have off: "unat offset < unat file_size" using False by (simp add: word_le_nat_alt)
  have ulen: "unat ?len = min (unat len) (unat file_size - unat offset)" "0 < ?len"
    using False off by (auto simp: word_less_nat_alt unat_sub word_le_nat_alt word_unat_eq_iff)
  obtain c' cs' skip' where s: "skip_clusters rd vol first offset = Some (Inr (Some (c', skip')))" "fat_chain rd vol c' cs'"
    "clusters_ok rd vol cs'" "unat skip' < unat (bytes_per_cluster vol)"
    "drop (unat offset) ?data = drop (unat skip') (chain_data rd vol cs')"
    using skip_clusters_spec [OF assms(1,2), of offset] off assms(3) by auto
  have "length (drop (unat offset) ?data) = length ?data - unat offset" by simp
  then have "unat skip' + unat ?len \<le> length (chain_data rd vol cs')"
    using s(5) ulen off assms(3) by simp
  note R = read_clusters_spec [OF s(2,3,4) ulen(2) this]
  have f2: "\<not> first < 2" "file_size \<noteq> 0" using assms(1) off by (cases cs; auto simp: not_less)+
  have "slice (unat skip') (unat ?len) (chain_data rd vol cs') = slice (unat offset) (unat len) (take (unat file_size) ?data)"
    unfolding slice_def s(5) [symmetric] ulen(1) using off by (simp add: take_drop min_def)
  then show ?thesis using False f2 assms(4) s(1) R [of "[]"] by (simp add: fat32_read_file_at_def Let_def)
qed

text \<open>
  C4. Reading a file whose chain of clusters is intact yields exactly the bytes asked for: those from
  the offset on, at most \<open>len\<close> of them and none beyond the file's size, of the concatenation of
  its clusters; nothing when the offset is at or behind the end.
\<close>

theorem fat32_read_file_at_contents:
  assumes "fat_chain rd vol first cs" and "clusters_ok rd vol cs"
    and "unat file_size \<le> length (chain_data rd vol cs)" and "mem (bytes_per_cluster vol)"
  shows "fat32_read_file_at mem rd vol first file_size offset len =
    Some (Inr (Inr (slice (unat offset) (unat len) (take (unat file_size) (chain_data rd vol cs)))))"
  using assms by (rule read_file_at_spec)

section \<open>The two directory readers agree\<close>

text \<open>A callback run over a list of entries: the return code, the context, and whether it stopped the iteration.\<close>

fun run_cb :: "'c dir_iter_cb \<Rightarrow> fat32_dirent list \<Rightarrow> 'c \<Rightarrow> int \<times> 'c \<times> bool" where
  "run_cb cb [] ctx = (0, ctx, False)"
| "run_cb cb (d # ds) ctx =
     (let (rc, ctx') = cb d ctx
      in if rc < 0 then (rc, ctx', True) else if 0 < rc then (0, ctx', True) else run_cb cb ds ctx')"

lemma run_cb_append:
  "run_cb cb (xs @ ys) ctx = (case run_cb cb xs ctx of (rc, ctx', stop) \<Rightarrow> if stop then (rc, ctx', stop) else run_cb cb ys ctx')"
  by (induction xs arbitrary: ctx) (auto simp: Let_def split: prod.splits)

lemma run_cb_go: "run_cb cb xs ctx = (rc, ctx', False) \<Longrightarrow> rc = 0"
  by (induction xs arbitrary: ctx) (auto simp: Let_def split: prod.splits if_splits)

lemma process_entries_grow: "process_entries buf m is lfn out = Inr (lfn', out', done') \<Longrightarrow> length out \<le> length out'"
proof (induction "is" arbitrary: lfn out)
  case (Cons i "is")
  show ?case
  proof (cases "make_dirent lfn (parse_raw (slice (32 * i) 32 buf))")
    case (Inl h)
    then show ?thesis using Cons by (auto simp: Let_def split: if_splits)
  next
    case (Inr d)
    then show ?thesis using Cons.prems Cons.IH [of _ out] Cons.IH [of _ "out @ [d]"] by (fastforce simp: Let_def split: if_splits)
  qed
qed simp

lemma process_iter_entries:
  assumes "process_entries buf m is lfn out = Inr (lfn', out', done')" and "length out' < m"
  shows "\<exists>new. out' = out @ new \<and> (\<forall>ctx. case run_cb cb new ctx of (rc, ctx', stop) \<Rightarrow>
    (\<exists>lfn1. iter_entries cb buf is lfn ctx = Inr (if stop then (lfn1, ctx', rc, True) else (lfn', ctx', 0, done'))))"
  using assms
proof (induction "is" arbitrary: lfn out)
  case (Cons i "is")
  let ?e = "slice (32 * i) 32 buf"
  have len: "\<not> length buf < 32 * i + 32" using Cons.prems(1) by (auto split: if_splits)
  consider (stop) "?e ! 0 = 0" | (skip) lfn1 where "?e ! 0 \<noteq> 0"
      "process_entries buf m (i # is) lfn out = process_entries buf m is lfn1 out"
      "\<And>ctx. iter_entries cb buf (i # is) lfn ctx = iter_entries cb buf is lfn1 ctx"
    | (new) "?e ! 0 \<noteq> 0" "?e ! 0 \<noteq> 0xE5" "re_attributes (parse_raw ?e) \<noteq> FAT_ATTR_LFN"
      "re_attributes (parse_raw ?e) AND FAT_ATTR_VOLUME_ID = 0"
    using len by (cases "?e ! 0 = 0"; cases "?e ! 0 = 0xE5"; cases "re_attributes (parse_raw ?e) = FAT_ATTR_LFN";
        cases "re_attributes (parse_raw ?e) AND FAT_ATTR_VOLUME_ID = 0") (simp_all add: Let_def)
  then show ?case
  proof cases
    case stop
    then show ?thesis using Cons.prems(1) len by (auto simp: Let_def)
  next
    case skip
    then show ?thesis using Cons.IH [of lfn1 out] Cons.prems by simp
  next
    case new
    note new' = len new
    show ?thesis
    proof (cases "m \<le> length out")
      case True
      have "length out \<le> length out'" using Cons.prems(1)
        by (rule process_entries_grow)
      then show ?thesis using True Cons.prems(2) by simp
    next
      case False
      obtain d where d: "make_dirent lfn (parse_raw ?e) = Inr d"
        "process_entries buf m is (lfn_reset lfn) (out @ [d]) = Inr (lfn', out', done')"
        using Cons.prems(1) new' False by (cases "make_dirent lfn (parse_raw ?e)") (auto simp: Let_def)
      obtain ds where ds: "out' = out @ [d] @ ds"
        "\<forall>ctx. case run_cb cb ds ctx of (rc, ctx', stop) \<Rightarrow>
          (\<exists>lfn1. iter_entries cb buf is (lfn_reset lfn) ctx = Inr (if stop then (lfn1, ctx', rc, True) else (lfn', ctx', 0, done')))"
        using Cons.IH [OF d(2) Cons.prems(2)] by auto
      have it: "iter_entries cb buf (i # is) lfn ctx = (case cb d ctx of (rc, ctx') \<Rightarrow>
          if rc < 0 then Inr (lfn_reset lfn, ctx', rc, True) else if 0 < rc then Inr (lfn_reset lfn, ctx', 0, True)
          else iter_entries cb buf is (lfn_reset lfn) ctx')" for ctx
        using new' d(1) by (simp add: Let_def)
      have "case run_cb cb (d # ds) ctx of (rc, ctx', stop) \<Rightarrow>
        (\<exists>lfn1. iter_entries cb buf (i # is) lfn ctx = Inr (if stop then (lfn1, ctx', rc, True) else (lfn', ctx', 0, done')))" for ctx
      proof -
        obtain rc c1 where "cb d ctx = (rc, c1)" by (cases "cb d ctx")
        then show ?thesis unfolding it using spec [OF ds(2), of c1] by (simp add: Let_def)
      qed
      then show ?thesis using ds(1) by (intro exI [of _ "d # ds"]) simp
    qed
  qed
qed auto

lemma iter_dir_loop_end: "FAT32_EOC \<le> c \<Longrightarrow> iter_dir_loop cb rd vol c lfn ctx = Some (Inr (0, ctx))"
  by (subst iter_dir_loop.simps) (auto simp: word_less_nat_alt word_le_nat_alt)

lemma iter_dir_loop_step:
  assumes "2 \<le> c \<and> c < FAT32_BAD" and "fat32_read_cluster rd vol c = Some buf"
    and "iter_entries cb buf (entries_per_cluster vol) lfn ctx = Inr (if stop then (lfn1, ctx', rc, True) else (lfn', ctx', 0, dn))"
  shows "iter_dir_loop cb rd vol c lfn ctx =
    (if stop \<or> dn then Some (Inr (if stop then rc else 0, ctx'))
     else if fat32_read_fat_entry rd vol c = FAT32_BAD then Some (Inr (errno IO, ctx'))
     else iter_dir_loop cb rd vol (fat32_read_fat_entry rd vol c) lfn' ctx')"
  using assms by (subst iter_dir_loop.simps) (auto simp: iter_dir_loop_end)

lemma read_dir_iter_loop:
  assumes "read_dir_loop rd vol m c lfn out = Some (Inr (True, es))" and "length es < m"
  shows "\<exists>new. es = out @ new \<and> (\<forall>ctx. case run_cb cb new ctx of (rc, ctx', stop) \<Rightarrow>
    iter_dir_loop cb rd vol c lfn ctx = Some (Inr (rc, ctx')))"
proof -
  have "x = Inr (True, es) \<longrightarrow> length es < m \<longrightarrow> (\<exists>new. es = out @ new \<and> (\<forall>ctx. case run_cb cb new ctx of (rc, ctx', stop) \<Rightarrow>
      iter_dir_loop cb rd vol c lfn ctx = Some (Inr (rc, ctx'))))"
    if "read_dir_loop rd vol m c lfn out = Some x" for x
    using that
  proof (rule read_dir_loop.raw_induct [rotated, where P = "\<lambda>rd vol m c lfn out x. x = Inr (True, es) \<longrightarrow> length es < m \<longrightarrow>
      (\<exists>new. es = out @ new \<and> (\<forall>ctx. case run_cb cb new ctx of (rc, ctx', stop) \<Rightarrow>
         iter_dir_loop cb rd vol c lfn ctx = Some (Inr (rc, ctx'))))"], intro impI)
    fix loop rd vol m c lfn out x
    assume IH: "\<And>rd vol m c lfn out x. loop rd vol m c lfn out = Some x \<Longrightarrow> x = Inr (True, es) \<longrightarrow> length es < m \<longrightarrow>
        (\<exists>new. es = out @ new \<and> (\<forall>ctx. case run_cb cb new ctx of (rc, ctx', stop) \<Rightarrow>
           iter_dir_loop cb rd vol c lfn ctx = Some (Inr (rc, ctx'))))"
      and body: "(if \<not> (2 \<le> c \<and> c < FAT32_BAD) then Some (Inr (True, out))
        else case fat32_read_cluster rd vol c of None \<Rightarrow> Some (Inr (False, out))
        | Some buf \<Rightarrow> (case process_dir_cluster vol buf m lfn out of Inl h \<Rightarrow> Some (Inl h)
             | Inr (lfn', out', done') \<Rightarrow> if done' then Some (Inr (True, out'))
                 else if fat32_read_fat_entry rd vol c = FAT32_BAD then Some (Inr (False, out'))
                 else loop rd vol m (fat32_read_fat_entry rd vol c) lfn' out')) = Some x"
      and x: "x = Inr (True, es)" and m: "length es < m"
    show "\<exists>new. es = out @ new \<and> (\<forall>ctx. case run_cb cb new ctx of (rc, ctx', stop) \<Rightarrow>
           iter_dir_loop cb rd vol c lfn ctx = Some (Inr (rc, ctx')))"
    proof (cases "2 \<le> c \<and> c < FAT32_BAD")
      case False
      then show ?thesis using body x by (auto simp: iter_dir_loop.simps [of cb rd vol c])
    next
      case True
      then obtain buf lfn' out' done' where buf: "fat32_read_cluster rd vol c = Some buf"
        and pr: "process_entries buf m (entries_per_cluster vol) lfn out = Inr (lfn', out', done')"
        and rest: "if done' then out' = es else fat32_read_fat_entry rd vol c \<noteq> FAT32_BAD \<and>
          loop rd vol m (fat32_read_fat_entry rd vol c) lfn' out' = Some (Inr (True, es))"
        using body x by (auto simp: process_dir_cluster_def split: option.splits sum.splits if_splits)
      let ?next = "fat32_read_fat_entry rd vol c"
      obtain new2 where new2: "es = out' @ new2"
        "\<not> done' \<longrightarrow> (\<forall>ctx. case run_cb cb new2 ctx of (rc, ctx', stop) \<Rightarrow> iter_dir_loop cb rd vol ?next lfn' ctx = Some (Inr (rc, ctx')))"
        "done' \<longrightarrow> new2 = []"
        using IH [of rd vol m ?next lfn' out'] rest m by (cases done') auto
      then have "length out' < m" using m by simp
      from process_iter_entries [OF pr this, of cb] obtain new where new: "out' = out @ new"
        "\<And>ctx. case run_cb cb new ctx of (rc, ctx', stop) \<Rightarrow> (\<exists>lfn1. iter_entries cb buf (entries_per_cluster vol) lfn ctx =
           Inr (if stop then (lfn1, ctx', rc, True) else (lfn', ctx', 0, done')))" by blast
      have "case run_cb cb (new @ new2) ctx of (rc, ctx', stop) \<Rightarrow> iter_dir_loop cb rd vol c lfn ctx = Some (Inr (rc, ctx'))" for ctx
      proof -
        obtain rc ctx' stop where r: "run_cb cb new ctx = (rc, ctx', stop)" by (cases "run_cb cb new ctx")
        then obtain lfn1 where it: "iter_entries cb buf (entries_per_cluster vol) lfn ctx =
            Inr (if stop then (lfn1, ctx', rc, True) else (lfn', ctx', 0, done'))" using new(2) [of ctx] by auto
        note st = iter_dir_loop_step [OF True buf it]
        show ?thesis unfolding run_cb_append r using st new2(2,3) rest run_cb_go [of cb new ctx]
          by (cases stop; cases done') (auto simp: r split: prod.split)
      qed
      then show ?thesis using new(1) new2(1) by (intro exI [of _ "new @ new2"]) simp
    qed
  qed
  then show ?thesis using assms by blast
qed
lemma run_readdir_cb: "k \<le> t \<Longrightarrow> run_cb (fat32_readdir_cb t) es (k, None) =
    (if t - k < length es then (0, (t, Some (es ! (t - k))), True) else (0, (k + length es, None), False))"
proof (induction es arbitrary: k)
  case (Cons d es)
  show ?case
  proof (cases "k = t")
    case True
    then show ?thesis by (simp add: fat32_readdir_cb_def)
  next
    case False
    then have "Suc k \<le> t" "t - k = Suc (t - Suc k)" using Cons.prems by auto
    then show ?thesis using Cons.IH [of "Suc k"] False by (simp add: fat32_readdir_cb_def)
  qed
qed simp

lemma run_lookup_cb: "run_cb (fat32_lookup_cb name) es None =
    (0, find (\<lambda>d. fat32_name_equal_ci (de_name d) name) es, find (\<lambda>d. fat32_name_equal_ci (de_name d) name) es \<noteq> None)"
  by (induction es) (auto simp: fat32_lookup_cb_def)

text \<open>
  C18. The code has two directory scanners, the one of \<^verbatim>\<open>fat32_read_dir\<close> and the one with
  callbacks. They agree: when the first reads a whole directory, reading by index returns its
  entries one after the other and nothing behind them, and looking up a name returns the first
  entry whose name matches, or "no such entry".
\<close>

theorem fat32_dir_scanners_agree:
  assumes "fat32_read_dir mem rd vol c m = Some (Inr (True, es))" and "length es < m" and "2 \<le> c"
  shows "fat32_readdir_index mem rd vol c i = Some (Inr (Inr (if i < length es then Some (es ! i) else None))) \<and>
    fat32_lookup mem rd vol c name = Some (Inr (case find (\<lambda>d. fat32_name_equal_ci (de_name d) name) es of
      Some d \<Rightarrow> Inr d | None \<Rightarrow> Inl NOENT))"
proof -
  have mem: "mem (bytes_per_cluster vol)" and run: "read_dir_loop rd vol m c no_lfn [] = Some (Inr (True, es))"
    using assms(1) by (auto simp: fat32_read_dir_def split: if_splits)
  have it: "case run_cb cb es ctx of (rc, ctx', stop) \<Rightarrow> fat32_iter_dir mem rd vol c cb ctx = Some (Inr (rc, ctx'))"
    for cb and ctx :: 'c
    using read_dir_iter_loop [OF run assms(2), of cb] mem assms(3) by (auto simp: fat32_iter_dir_def)
  show ?thesis
    using it [of "fat32_readdir_cb i" "(0, None)"] it [of "fat32_lookup_cb name" None]
    by (auto simp: run_readdir_cb run_lookup_cb fat32_readdir_index_def fat32_lookup_def split: if_splits option.split)
qed

text \<open>
  C21. Reading a directory ends when its chain does: along a finite chain of clusters, and whatever
  the clusters hold and whichever reads fail, both scanners come back.
\<close>

theorem fat32_dir_scans_end:
  assumes "fat_chain rd vol c cs"
  shows "fat32_read_dir mem rd vol c m \<noteq> None \<and> fat32_iter_dir mem rd vol c cb ctx \<noteq> None"
proof -
  have "read_dir_loop rd vol m c lfn out \<noteq> None \<and> iter_dir_loop cb rd vol c lfn ctx \<noteq> None" for lfn out ctx
    using assms
  proof (induction cs arbitrary: c lfn out ctx)
    case (Cons x xs)
    let ?next = "fat32_read_fat_entry rd vol c"
    have "read_dir_loop rd vol m ?next lfn' out' \<noteq> None \<and> iter_dir_loop cb rd vol ?next lfn' ctx' \<noteq> None" for lfn' out' ctx'
    proof (cases "xs = []")
      case True
      then have "FAT32_EOC \<le> ?next" using Cons.prems by auto
      then have "iter_dir_loop cb rd vol ?next lfn' ctx' \<noteq> None" by (simp add: iter_dir_loop_end)
      moreover have "read_dir_loop rd vol m ?next lfn' out' = Some (Inr (True, out'))"
        using \<open>FAT32_EOC \<le> ?next\<close> by (subst read_dir_loop.simps) (auto simp: word_less_nat_alt word_le_nat_alt)
      ultimately show ?thesis by simp
    next
      case False
      then show ?thesis using Cons.IH [of ?next] Cons.prems by auto
    qed
    then show ?case
      by (subst read_dir_loop.simps, subst iter_dir_loop.simps) (auto split: option.split sum.split)
  qed simp
  then show ?thesis by (simp add: fat32_read_dir_def fat32_iter_dir_def)
qed


section \<open>Paths and mounting\<close>

text \<open>The components of a path: the longest runs of bytes other than slashes.\<close>

function path_segments :: "bytes \<Rightarrow> bytes list" where
  "path_segments p =
     (let q = dropWhile (\<lambda>c. c = 0x2F) p
      in if q = [] then [] else takeWhile (\<lambda>c. c \<noteq> 0x2F) q # path_segments (dropWhile (\<lambda>c. c \<noteq> 0x2F) q))"
  by pat_completeness auto
termination
proof (relation "measure length", goal_cases)
  case (2 p q)
  then have "hd q \<noteq> 0x2F" "q \<noteq> []" "length q \<le> length p"
    using hd_dropWhile [of "\<lambda>c. c = 0x2F" p] length_dropWhile_le [of "\<lambda>c. c = 0x2F" p] by blast+
  then show ?case using length_dropWhile_le [of "\<lambda>c. c \<noteq> 0x2F" "tl q"] by (cases q) auto
qed simp

declare path_segments.simps [simp del]

lemma path_segments_skip: "path_segments (dropWhile (\<lambda>c. c = 0x2F) p) = path_segments p"
  unfolding path_segments.simps [of p] path_segments.simps [of "dropWhile (\<lambda>c. c = 0x2F) p"] dropWhile_idem ..

lemma path_segments_Nil: "path_segments p = [] \<longleftrightarrow> dropWhile (\<lambda>c. c = 0x2F) p = []"
  unfolding path_segments.simps [of p] Let_def by (rule iffI) (metis list.distinct(1), metis)

text \<open>Walking down from a directory, one component at a time.\<close>

fun walk :: "(u32 \<Rightarrow> bool) \<Rightarrow> part_read \<Rightarrow> fat32_vol \<Rightarrow> u32 \<Rightarrow> bytes list \<Rightarrow> (fs_error + fat32_dirent) outcome option" where
  "walk mem rd vol dir [] = Some (Inr (Inr (fat32_make_root_dirent vol)))"
| "walk mem rd vol dir (s # ss) =
     (if FAT32_NAME_MAX < length s then Some (Inr (Inl NAMETOOLONG))
      else case fat32_lookup mem rd vol dir s of
        Some (Inr (Inr current)) \<Rightarrow>
          if ss = [] then Some (Inr (Inr current))
          else if de_attributes current AND FAT_ATTR_DIRECTORY = 0 then Some (Inr (Inl NOTDIR))
          else if de_first_cluster current < 2 then Some (Inr (Inl IO))
          else walk mem rd vol (de_first_cluster current) ss
      | r \<Rightarrow> r)"

lemma skip_slashes_dropWhile: "fat32_skip_slashes p = dropWhile (\<lambda>c. c = 0x2F) p"
  by (induction p) auto

lemma copy_segment_takeWhile:
  "0 \<notin> set p \<Longrightarrow> len < cap \<Longrightarrow> copy_segment cap len p =
     (let seg = takeWhile (\<lambda>c. c \<noteq> 0x2F) p
      in if cap \<le> len + length seg then Inl NAMETOOLONG else Inr (seg, dropWhile (\<lambda>c. c \<noteq> 0x2F) p))"
  by (induction p arbitrary: len) (auto simp: Let_def)

lemma at_end_nonzero: "0 \<notin> set p \<Longrightarrow> at_end p \<longleftrightarrow> p = []"
  by (cases p) (auto simp: at_end_def)

lemma lookup_path_walk:
  assumes "0 \<notin> set p" and "dropWhile (\<lambda>c. c = 0x2F) p = p" and "p \<noteq> []"
  shows "lookup_path_loop mem rd vol dir p = walk mem rd vol dir (path_segments p)"
  using assms
proof (induction "length p" arbitrary: p dir rule: less_induct)
  case less
  let ?seg = "takeWhile (\<lambda>c. c \<noteq> 0x2F) p" and ?rest = "dropWhile (\<lambda>c. c = 0x2F) (dropWhile (\<lambda>c. c \<noteq> 0x2F) p)"
  have segs: "path_segments p = ?seg # path_segments (dropWhile (\<lambda>c. c \<noteq> 0x2F) p)"
    unfolding path_segments.simps [of p] Let_def less.prems(2) using less.prems(3) by (rule if_not_P)
  have rest: "path_segments (dropWhile (\<lambda>c. c \<noteq> 0x2F) p) = path_segments ?rest"
    by (rule path_segments_skip [symmetric])
  have nz: "0 \<notin> set ?rest" using less.prems(1) by (auto dest!: set_dropWhileD)
  have empty: "path_segments ?rest = [] \<longleftrightarrow> ?rest = []"
    unfolding path_segments_Nil dropWhile_idem ..
  have "hd p \<noteq> 0x2F" using hd_dropWhile [of "\<lambda>c. c = 0x2F" p] unfolding less.prems(2) using less.prems(3) by blast
  then have len: "length ?rest < length p"
    using less.prems(3) length_dropWhile_le [of "\<lambda>c. c = 0x2F" "dropWhile (\<lambda>c. c \<noteq> 0x2F) p"]
      length_dropWhile_le [of "\<lambda>c. c \<noteq> 0x2F" "tl p"] by (cases p) auto
  have IH: "lookup_path_loop mem rd vol d ?rest = walk mem rd vol d (path_segments ?rest)" if "?rest \<noteq> []" for d
    using less.hyps [OF len nz _ that] by simp
  have copy: "fat32_copy_segment p (FAT32_NAME_MAX + 1) =
      (if FAT32_NAME_MAX < length ?seg then Inl NAMETOOLONG else Inr (?seg, dropWhile (\<lambda>c. c \<noteq> 0x2F) p))"
    using copy_segment_takeWhile [OF less.prems(1), of 0 257] by (auto simp: fat32_copy_segment_def Let_def)
  have skip: "fat32_skip_slashes (dropWhile (\<lambda>c. c \<noteq> 0x2F) p) = ?rest" by (rule skip_slashes_dropWhile)
  have ends: "at_end ?rest \<longleftrightarrow> path_segments ?rest = []" unfolding empty by (rule at_end_nonzero [OF nz])
  have IH': "lookup_path_loop mem rd vol d ?rest = walk mem rd vol d (path_segments ?rest)" if "path_segments ?rest \<noteq> []" for d
    using IH that unfolding empty by blast
  define r where "r = path_segments ?rest"
  have r: "at_end ?rest \<longleftrightarrow> r = []" "r \<noteq> [] \<Longrightarrow> lookup_path_loop mem rd vol d ?rest = walk mem rd vol d r" for d
    unfolding r_def by (fact ends, fact IH')
  show ?case
    unfolding segs rest r_def [symmetric] walk.simps lookup_path_loop.simps [of mem rd vol dir p] copy
    by (simp add: skip r split: option.split sum.split)
qed

text \<open>
  C20. Path lookup follows the components of the path, wherever and however often slashes stand
  between, before and behind them: every component but the last must name a directory with a
  cluster, a component longer than 256 bytes is refused, and a path without components names the root.
\<close>

theorem fat32_lookup_path_walks:
  assumes "0 \<notin> set path"
  shows "fat32_lookup_path mem rd vol path = walk mem rd vol (root_cluster vol) (path_segments path)"
proof -
  let ?p = "dropWhile (\<lambda>c. c = 0x2F) path"
  have nz: "0 \<notin> set ?p" using assms by (auto dest!: set_dropWhileD)
  note segs = path_segments_skip [of path, symmetric]
  show ?thesis
  proof (cases "?p = []")
    case True
    then have "path_segments path = []" unfolding path_segments_Nil .
    then show ?thesis unfolding fat32_lookup_path_def skip_slashes_dropWhile True by (simp add: at_end_def)
  next
    case False
    then have ends: "\<not> at_end path" "\<not> at_end ?p" using at_end_nonzero [OF nz] at_end_nonzero [OF assms] by auto
    have "fat32_lookup_path mem rd vol path = lookup_path_loop mem rd vol (root_cluster vol) ?p"
      using ends by (simp add: fat32_lookup_path_def skip_slashes_dropWhile)
    then show ?thesis unfolding segs using lookup_path_walk [OF nz _ False] by simp
  qed
qed






text \<open>
  C29. Long names fit the 256-byte name field only while they are short enough in UTF-8: names of up
  to 85 code units always do, but a valid long name of 86 code units or more from outside the first
  2048 (three bytes each) is written past the end of the field.
\<close>

theorem fat32_long_name_overrun:
  assumes "lfn_valid lfn" and "lfn_chars lfn \<noteq> []" and "lfn_expected_seq lfn = 0"
    and "lfn_checksum (re_name raw @ re_ext raw) = lfn_check lfn"
  shows "(length (lfn_chars lfn) \<le> 85 \<longrightarrow> make_dirent lfn raw \<noteq> Inl Overrun) \<and>
    (86 \<le> length (lfn_chars lfn) \<and> (\<forall>u \<in> set (lfn_chars lfn). 0x800 \<le> u) \<longrightarrow> make_dirent lfn raw = Inl Overrun)"
proof -
  have name: "entry_name lfn raw = utf16le_to_utf8 (lfn_chars lfn)" using assms by (simp add: entry_name_def)
  have "length (utf16le_to_utf8 us) \<le> 3 * length us" for us by (induction us) auto
  then have "length (entry_name lfn raw) \<le> 3 * length (lfn_chars lfn)" by (simp add: name)
  moreover have "(\<forall>u \<in> set us. 0x800 \<le> u) \<Longrightarrow> length (utf16le_to_utf8 us) = 3 * length us" for us
    by (induction us) (auto simp: word_le_nat_alt word_less_nat_alt)
  ultimately show ?thesis by (auto simp: make_dirent_def Let_def name)
qed

section \<open>A volume for the witnesses\<close>

text \<open>
  A boot sector (512-byte sectors, one per cluster, one FAT of one sector, 100 sectors in all); a FAT that
  chains cluster 3 to cluster 4, ends clusters 2 and 4 and links cluster 5 to itself; a root directory in cluster 2
  with the file \<^verbatim>\<open>HELLO.TXT\<close> of 1000 bytes from cluster 3 on; a cluster 5 of deleted entries.
\<close>

definition demo_vbr :: bytes where
  "demo_vbr = replicate 11 0 @ [0, 2, 1, 1, 0, 1] @ replicate 15 0 @ [100, 0, 0, 0, 1, 0, 0, 0] @ replicate 4 0 @ [2, 0, 0, 0] @
     replicate 462 0 @ [0x55, 0xAA]"

definition demo_fat :: bytes where
  "demo_fat = replicate 8 0 @ [0xFF, 0xFF, 0xFF, 0x0F, 4, 0, 0, 0, 0xFF, 0xFF, 0xFF, 0x0F, 5, 0, 0, 0] @ replicate 488 0"

definition demo_dir :: bytes where
  "demo_dir = [0x48, 0x45, 0x4C, 0x4C, 0x4F, 0x20, 0x20, 0x20, 0x54, 0x58, 0x54, 0x20] @ replicate 14 0 @ [3, 0, 0xE8, 3] @ replicate 482 0"

definition demo_rd :: part_read where
  "demo_rd idx lba count =
     (if lba = 0 then Some demo_vbr else if lba = 1 then Some demo_fat else if lba = 2 then Some demo_dir
      else if lba = 3 then Some (replicate 512 0x41) else if lba = 4 then Some (replicate 512 0x42)
      else if lba = 5 then Some (replicate 512 0xE5) else None)"

definition demo_vol :: fat32_vol where
  "demo_vol = snd (fat32_mount demo_rd 0)"

lemma demo_bpb: "demo_vbr ! 13 = 1" "le16 demo_vbr 11 = 512" "le16 demo_vbr 14 = 1" "demo_vbr ! 16 = 1" "le32 demo_vbr 32 = 100"
  "le32 demo_vbr 36 = 1" "le32 demo_vbr 44 = 2" "le16 demo_vbr 17 = 0" "le16 demo_vbr 19 = 0" "le16 demo_vbr 22 = 0" "le16 demo_vbr 42 = 0"
  "demo_vbr ! 510 = 0x55" "demo_vbr ! 511 = 0xAA"
  by (simp_all add: demo_vbr_def le16_def le32_def nth_append)


lemma demo_vol_fields: "bytes_per_cluster demo_vol = 512" "fat_start_lba demo_vol = 1" "data_start_lba demo_vol = 2"
  "root_cluster demo_vol = 2" "cluster_count demo_vol = 98" "sectors_per_cluster (bpb demo_vol) = 1" "bytes_per_sector (bpb demo_vol) = 512"
  "total_sectors_32 (bpb demo_vol) = 100" "gpt_partition_index demo_vol = 0"
  by (simp_all add: demo_vol_def fat32_mount_def Let_def parse_bpb_def demo_rd_def demo_bpb)

lemma demo_fat_entries: "le32 demo_fat 8 = 0x0FFFFFFF" "le32 demo_fat 12 = 4" "le32 demo_fat 16 = 0x0FFFFFFF" "le32 demo_fat 20 = 5"
  by (simp_all add: demo_fat_def le16_def le32_def nth_append)

lemma demo_next: "fat32_read_fat_entry demo_rd demo_vol 2 = 0x0FFFFFFF" "fat32_read_fat_entry demo_rd demo_vol 3 = 4"
  "fat32_read_fat_entry demo_rd demo_vol 4 = 0x0FFFFFFF" "fat32_read_fat_entry demo_rd demo_vol 5 = 5"
  by (simp_all add: fat32_read_fat_entry_def read_sectors_def Let_def demo_vol_fields demo_rd_def demo_fat_entries)

lemma demo_clusters: "fat32_read_cluster demo_rd demo_vol 2 = Some demo_dir"
  "fat32_read_cluster demo_rd demo_vol 3 = Some (replicate 512 0x41)" "fat32_read_cluster demo_rd demo_vol 4 = Some (replicate 512 0x42)"
  "fat32_read_cluster demo_rd demo_vol 5 = Some (replicate 512 0xE5)"
  by (simp_all add: fat32_read_cluster_def read_sectors_def cluster_to_lba_def demo_vol_fields demo_rd_def)

lemma demo_chain: "fat_chain demo_rd demo_vol 3 [3, 4]" "clusters_ok demo_rd demo_vol [3, 4]"
  "chain_data demo_rd demo_vol [3, 4] = replicate 512 0x41 @ replicate 512 0x42"
  by (simp_all add: demo_next clusters_ok_def demo_vol_fields demo_clusters cluster_data_def)

theorem fat32_read_file_at_contents_witness:
  "fat32_read_file_at (\<lambda>_. True) demo_rd demo_vol 3 1000 510 4 = Some (Inr (Inr [0x41, 0x41, 0x42, 0x42]))"
proof -
  have "fat32_read_file_at (\<lambda>_. True) demo_rd demo_vol 3 1000 510 4 =
      Some (Inr (Inr (slice 510 4 (take 1000 (replicate 512 0x41 @ replicate 512 0x42)))))"
    using fat32_read_file_at_contents [OF demo_chain(1,2), of 1000 "\<lambda>_. True" 510 4, unfolded demo_chain(3)] by simp
  also have "slice 510 4 (take 1000 (replicate 512 (0x41 :: u8) @ replicate 512 0x42)) = [0x41, 0x41, 0x42, 0x42]"
    by (simp add: slice_def numeral_eq_Suc)
  finally show ?thesis .
qed

text \<open>The one entry of the root directory.\<close>

definition demo_entry :: fat32_dirent where
  "demo_entry = \<lparr>de_name = [0x68, 0x65, 0x6C, 0x6C, 0x6F, 0x2E, 0x74, 0x78, 0x74], de_attributes = 0x20, de_first_cluster = 3,
     de_file_size = 1000, de_created = \<lparr>raw_date = 0, raw_time = 0\<rparr>, de_modified = \<lparr>raw_date = 0, raw_time = 0\<rparr>,
     de_accessed = \<lparr>raw_date = 0, raw_time = 0\<rparr>\<rparr>"

lemma demo_read_dir: "fat32_read_dir (\<lambda>_. True) demo_rd demo_vol 2 10 = Some (Inr (True, [demo_entry]))"
proof -
  have "process_dir_cluster demo_vol demo_dir 10 no_lfn [] = Inr (lfn_reset no_lfn, [demo_entry], True)"
    unfolding process_dir_cluster_def entries_per_cluster_def demo_vol_fields by code_simp
  then show ?thesis unfolding fat32_read_dir_def
    by (subst read_dir_loop.simps) (simp add: demo_clusters)
qed

theorem fat32_dir_scanners_agree_witness:
  "fat32_readdir_index (\<lambda>_. True) demo_rd demo_vol 2 0 = Some (Inr (Inr (Some demo_entry))) \<and>
   fat32_lookup (\<lambda>_. True) demo_rd demo_vol 2 [0x48, 0x65, 0x6C, 0x6C, 0x4F, 0x2E, 0x74, 0x78, 0x74] = Some (Inr (Inr demo_entry)) \<and>
   fat32_lookup (\<lambda>_. True) demo_rd demo_vol 2 [0x48] = Some (Inr (Inl NOENT))"
  using fat32_dir_scanners_agree [OF demo_read_dir, of 0 "[0x48, 0x65, 0x6C, 0x6C, 0x4F, 0x2E, 0x74, 0x78, 0x74]"]
    fat32_dir_scanners_agree [OF demo_read_dir, of 0 "[0x48]"]
  by (simp add: demo_entry_def fat32_tolower_def)

theorem fat32_dir_scans_end_witness:
  "fat32_read_dir (\<lambda>_. True) demo_rd demo_vol 3 10 \<noteq> None"
  using fat32_dir_scans_end [OF demo_chain(1), of "\<lambda>_. True" 10 "fat32_lookup_cb []" None] by simp


theorem fat32_lookup_path_walks_witness:
  "fat32_lookup_path (\<lambda>_. True) demo_rd demo_vol [0x2F, 0x2F, 0x61, 0x2F, 0x2F, 0x62, 0x2F] =
   walk (\<lambda>_. True) demo_rd demo_vol 2 [[0x61], [0x62]]"
proof -
  have "path_segments [0x2F, 0x2F, 0x61, 0x2F, 0x2F, 0x62, 0x2F] = [[0x61], [0x62]]"
    by (subst path_segments.simps, simp add: Let_def, subst path_segments.simps, simp add: Let_def, subst path_segments.simps, simp)
  then show ?thesis using fat32_lookup_path_walks [of "[0x2F, 0x2F, 0x61, 0x2F, 0x2F, 0x62, 0x2F]" "\<lambda>_. True" demo_rd demo_vol]
    by (simp add: demo_vol_fields)
qed


theorem fat32_long_name_overrun_witness:
  "\<exists>lfn raw. length (lfn_chars lfn) = 86 \<and> make_dirent lfn raw = Inl Overrun"
proof -
  let ?lfn = "\<lparr>lfn_chars = replicate 86 0x4E00, lfn_expected_seq = 0, lfn_check = lfn_checksum (slice 0 11 demo_dir), lfn_valid = True\<rparr>"
  have "re_name (parse_raw demo_dir) @ re_ext (parse_raw demo_dir) = slice 0 11 demo_dir"
    by (simp add: parse_raw_def slice_def take_add [of 8 3, simplified])
  then have "make_dirent ?lfn (parse_raw demo_dir) = Inl Overrun"
    using fat32_long_name_overrun [of ?lfn "parse_raw demo_dir"] by simp
  then show ?thesis by (intro exI [of _ ?lfn] exI [of _ "parse_raw demo_dir"]) simp
qed

end
