(* ===== verification/Vmalloc.thy ===== *)
theory Vmalloc
  imports Paging
begin

text \<open>
  Page-granular kernel memory, \<^verbatim>\<open>mm/vmalloc.c\<close>: a window of virtual addresses, the list of
  its free ranges, and for every allocated page a frame from the page allocator mapped at it. The
  array \<^verbatim>\<open>g_vmalloc_free\<close> with its count is the list of its first \<^verbatim>\<open>count\<close>
  elements. The state includes the page tables and, through them, the page allocator. Calls run under
  \<^verbatim>\<open>g_vmalloc_lock\<close> and are single steps; \<^verbatim>\<open>__kernel_virtual_end\<close> is an argument.
\<close>

section \<open>State\<close>

abbreviation VMALLOC_DEFAULT_SIZE :: u64 where "VMALLOC_DEFAULT_SIZE \<equiv> 0x10000000"

definition VMALLOC_MAX_RANGES :: nat where
  "VMALLOC_MAX_RANGES = 128"

record vmalloc_range =
  vr_start :: u64
  vr_size :: u64

record vmalloc_state =
  va_vm :: vm
  g_vmalloc_free :: "vmalloc_range list"
  g_vmalloc_base :: u64
  g_vmalloc_end :: u64
  g_vmalloc_initialized :: bool

section \<open>Operations\<close>

definition range_end :: "u64 \<Rightarrow> u64 \<Rightarrow> u64" where
  "range_end start sz = (let end' = start + sz in if end' < start then UINT64_MAX else end')"

text \<open>The insertion loop of \<^verbatim>\<open>vmalloc_free_range\<close>: before the first range that does not start
  below the new one.\<close>

fun insert_range :: "vmalloc_range \<Rightarrow> vmalloc_range list \<Rightarrow> vmalloc_range list" where
  "insert_range n [] = [n]"
| "insert_range n (r # rs) = (if vr_start r < vr_start n then r # insert_range n rs else n # r # rs)"

text \<open>Its second loop: a range that reaches the next one absorbs it and is looked at again.\<close>

function coalesce :: "vmalloc_range list \<Rightarrow> vmalloc_range list" where
  "coalesce [] = []"
| "coalesce [a] = [a]"
| "coalesce (a # b # rs) =
     (let a_end = range_end (vr_start a) (vr_size a);
          b_end = range_end (vr_start b) (vr_size b)
      in if vr_start b \<le> a_end
         then coalesce (a\<lparr>vr_size := (if b_end < a_end then a_end else b_end) - vr_start a\<rparr> # rs)
         else a # coalesce (b # rs))"
  by pat_completeness auto
termination by (relation "measure length") auto

definition vmalloc_free_range :: "u64 \<Rightarrow> u64 \<Rightarrow> vmalloc_state \<Rightarrow> vmalloc_state outcome" where
  "vmalloc_free_range start sz s =
     (if sz = 0 then Inr s
      else if VMALLOC_MAX_RANGES \<le> length (g_vmalloc_free s) then Inl (Panic ''vmalloc: free list overflow'')
      else Inr (s\<lparr>g_vmalloc_free := coalesce (insert_range \<lparr>vr_start = start, vr_size = sz\<rparr> (g_vmalloc_free s))\<rparr>))"

definition vmalloc_init_once_locked :: "u64 \<Rightarrow> vmalloc_state \<Rightarrow> bool \<times> vmalloc_state" where
  "vmalloc_init_once_locked kernel_virtual_end s =
     (if g_vmalloc_initialized s then (True, s)
      else if \<not> pmm_ready (vm_pmm (va_vm s)) \<or> \<not> paging_ready (va_vm s) then (False, s)
      else
        let highest = highest_physical_address (pmm_get_info (vm_pmm (va_vm s)));
            hhdm = vm_hhdm (va_vm s)
        in if highest = 0 \<or> highest = UINT64_MAX then (False, s)
           else
             let kernel_end = align_up kernel_virtual_end PMM_PAGE_SIZE;
                 hhdm_end = hhdm + align_up highest PMM_PAGE_SIZE;
                 hhdm_end = (if hhdm_end < hhdm then UINT64_MAX else hhdm_end);
                 base = (if hhdm \<le> kernel_end \<and> kernel_end < hhdm_end then hhdm_end else kernel_end);
                 base = align_up base PMM_PAGE_SIZE;
                 end' = range_end base VMALLOC_DEFAULT_SIZE
             in if base < hhdm \<and> hhdm < end' \<and> hhdm \<le> base then (False, s)
                else
                  let sz = (if base < hhdm \<and> hhdm < end' then hhdm - base else VMALLOC_DEFAULT_SIZE)
                  in if sz < PMM_PAGE_SIZE then (False, s)
                     else (True, s\<lparr>g_vmalloc_base := base, g_vmalloc_end := base + sz,
                                   g_vmalloc_free := [\<lparr>vr_start = base, vr_size = sz\<rparr>],
                                   g_vmalloc_initialized := True\<rparr>))"

definition vmalloc_init :: "u64 \<Rightarrow> vmalloc_state \<Rightarrow> vmalloc_state" where
  "vmalloc_init kernel_virtual_end s = snd (vmalloc_init_once_locked kernel_virtual_end s)"

text \<open>First fit: the range found, shortened from below, or dropped when used up.\<close>

fun take_range :: "u64 \<Rightarrow> vmalloc_range list \<Rightarrow> (u64 \<times> vmalloc_range list) option" where
  "take_range aligned [] = None"
| "take_range aligned (r # rs) =
     (if vr_size r < aligned then map_option (\<lambda>(addr, rs'). (addr, r # rs')) (take_range aligned rs)
      else
        let r' = r\<lparr>vr_start := vr_start r + aligned, vr_size := vr_size r - aligned\<rparr>
        in Some (vr_start r, if vr_size r' = 0 then rs else r' # rs))"

text \<open>The mapping loop: how many bytes it got mapped before a frame or a mapping was refused.\<close>

fun vmalloc_map :: "u64 \<Rightarrow> u64 \<Rightarrow> u64 \<Rightarrow> u64 list \<Rightarrow> u64 \<Rightarrow> vm \<Rightarrow> (u64 \<times> vm) outcome" where
  "vmalloc_map root addr flags [] mapped s = Inr (mapped, s)"
| "vmalloc_map root addr flags (offset # offsets) mapped s =
     (case pmm_try_alloc_page_phys (vm_pmm s) of
        (None, pm) \<Rightarrow> Inr (mapped, s\<lparr>vm_pmm := pm\<rparr>)
      | (Some phys, pm) \<Rightarrow>
          andthen (paging_map_page root (addr + offset) phys flags (s\<lparr>vm_pmm := pm\<rparr>))
            (\<lambda>(ok, s1).
               if ok then vmalloc_map root addr flags offsets (mapped + PMM_PAGE_SIZE) s1
               else Inr (mapped, s1\<lparr>vm_pmm := pmm_free_page_phys phys (vm_pmm s1)\<rparr>)))"

text \<open>One round of the unmapping loops of \<^verbatim>\<open>vmalloc\<close> and \<^verbatim>\<open>vfree\<close>.\<close>

definition vmalloc_unmap :: "u64 \<Rightarrow> u64 \<Rightarrow> u64 \<Rightarrow> vm \<Rightarrow> vm outcome" where
  "vmalloc_unmap root addr offset s =
     andthen (paging_unmap_page root (addr + offset) s) (\<lambda>(res, s1).
       case res of
         None \<Rightarrow> Inr s1
       | Some phys \<Rightarrow> Inr (s1\<lparr>vm_pmm := pmm_free_page_phys phys (vm_pmm s1)\<rparr>))"

definition vmalloc :: "u64 \<Rightarrow> u64 \<Rightarrow> u64 \<Rightarrow> vmalloc_state \<Rightarrow> (u64 \<times> vmalloc_state) outcome" where
  "vmalloc kernel_virtual_end sz flags s =
     (if sz = 0 then Inr (0, s)
      else
        let aligned = align_up sz PMM_PAGE_SIZE
        in if aligned < sz then Inr (0, s)
           else
             let (ok, s0) = vmalloc_init_once_locked kernel_virtual_end s
             in if \<not> ok then Inr (0, s0)
                else case take_range aligned (g_vmalloc_free s0) of
                  None \<Rightarrow> Inr (0, s0)
                | Some (addr, rs) \<Rightarrow>
                    let s1 = s0\<lparr>g_vmalloc_free := rs\<rparr>;
                        root = root_pml4_phys (paging_get_info (va_vm s1))
                    in if root = 0
                       then andthen (vmalloc_free_range addr aligned s1) (\<lambda>s2. Inr (0, s2))
                       else
                         andthen (vmalloc_map root addr flags (step_range PMM_PAGE_SIZE 0 aligned) 0 (va_vm s1))
                         (\<lambda>(mapped, m).
                            if mapped = aligned then Inr (addr, s1\<lparr>va_vm := m\<rparr>)
                            else
                              andthen (fold_outcome (vmalloc_unmap root addr) (step_range PMM_PAGE_SIZE 0 mapped) m)
                              (\<lambda>m'. andthen (vmalloc_free_range addr aligned (s1\<lparr>va_vm := m'\<rparr>))
                                 (\<lambda>s2. Inr (0, s2)))))"

text \<open>The range check of \<^verbatim>\<open>vfree\<close>, with the subtraction at its machine width.\<close>

definition vfree_accepts :: "vmalloc_state \<Rightarrow> u64 \<Rightarrow> u64 \<Rightarrow> bool" where
  "vfree_accepts s start aligned \<longleftrightarrow>
     \<not> (start < g_vmalloc_base s \<or> g_vmalloc_end s \<le> start \<or> g_vmalloc_end s - aligned < start)"

definition vfree :: "u64 \<Rightarrow> u64 \<Rightarrow> vmalloc_state \<Rightarrow> vmalloc_state outcome" where
  "vfree start sz s =
     (if start = 0 \<or> sz = 0 then Inr s
      else if start AND (PMM_PAGE_SIZE - 1) \<noteq> 0 then Inr s
      else
        let aligned = align_up sz PMM_PAGE_SIZE
        in if aligned < sz then Inr s
           else if \<not> g_vmalloc_initialized s then Inr s
           else if \<not> vfree_accepts s start aligned then Inr s
           else
             let root = root_pml4_phys (paging_get_info (va_vm s))
             in if root = 0 then Inr s
                else
                  andthen (fold_outcome (vmalloc_unmap root start) (step_range PMM_PAGE_SIZE 0 aligned) (va_vm s))
                    (\<lambda>m. vmalloc_free_range start aligned (s\<lparr>va_vm := m\<rparr>)))"

section \<open>The free ranges\<close>

definition rstart :: "vmalloc_range \<Rightarrow> nat" where "rstart r = unat (vr_start r)"
definition rend :: "vmalloc_range \<Rightarrow> nat" where "rend r = unat (vr_start r) + unat (vr_size r)"

definition range_fits :: "vmalloc_range \<Rightarrow> bool" where
  "range_fits r \<longleftrightarrow> 0 < vr_size r \<and> rend r < 2 ^ 64 \<and> 4096 dvd rstart r \<and> 4096 dvd unat (vr_size r)"

definition range_bytes :: "vmalloc_range list \<Rightarrow> nat set" where
  "range_bytes rs = (\<Union>r \<in> set rs. {rstart r ..< rend r})"

text \<open>Sorted, disjoint, not even adjacent, page-aligned.\<close>

definition ranges_ok :: "vmalloc_range list \<Rightarrow> bool" where
  "ranges_ok rs \<longleftrightarrow> (\<forall>r \<in> set rs. range_fits r) \<and> sorted_wrt (\<lambda>a b. rend a < rstart b) rs"

lemma range_end_fits: "range_fits r \<Longrightarrow> unat (range_end (vr_start r) (vr_size r)) = rend r"
  by (simp add: range_fits_def rend_def rstart_def range_end_def Let_def unat_plus_if' word_less_nat_alt)

lemma rstart_less_rend: "range_fits r \<Longrightarrow> rstart r < rend r"
  by (simp add: range_fits_def rend_def rstart_def word_less_nat_alt)

lemma insert_range_set: "set (insert_range n rs) = insert n (set rs)"
  by (induction rs) auto

lemma insert_range_sorted:
  "sorted_wrt (\<lambda>a b. rstart a \<le> rstart b) rs \<Longrightarrow> sorted_wrt (\<lambda>a b. rstart a \<le> rstart b) (insert_range n rs)"
  by (induction rs) (auto simp: insert_range_set rstart_def word_less_nat_alt)

lemma merge_fits:
  assumes a: "range_fits a" and b: "range_fits b" and ab: "rstart a \<le> rstart b"
    and touch: "vr_start b \<le> range_end (vr_start a) (vr_size a)"
  defines "c \<equiv> a\<lparr>vr_size := (if range_end (vr_start b) (vr_size b) < range_end (vr_start a) (vr_size a)
      then range_end (vr_start a) (vr_size a) else range_end (vr_start b) (vr_size b)) - vr_start a\<rparr>"
  shows "range_fits c" and "{rstart c ..< rend c} = {rstart a ..< rend a} \<union> {rstart b ..< rend b}"
    and "rstart c = rstart a"
proof -
  let ?e = "if range_end (vr_start b) (vr_size b) < range_end (vr_start a) (vr_size a)
      then range_end (vr_start a) (vr_size a) else range_end (vr_start b) (vr_size b)"
  note less = rstart_less_rend [OF a] rstart_less_rend [OF b]
  have e: "unat ?e = max (rend a) (rend b)"
    by (simp add: range_end_fits [OF a] range_end_fits [OF b] word_less_nat_alt max_def)
  then have "vr_start a \<le> ?e" using less by (simp add: word_le_nat_alt rstart_def [symmetric] max_def)
  then have "unat (?e - vr_start a) = max (rend a) (rend b) - rstart a"
    by (simp only: unat_sub e rstart_def)
  then have sz: "unat (vr_size c) = max (rend a) (rend b) - rstart a" by (simp add: c_def)
  have st: "rstart c = rstart a" by (simp add: c_def rstart_def)
  then show "rstart c = rstart a" .
  have en: "rend c = max (rend a) (rend b)" using sz less st by (simp add: rend_def rstart_def [symmetric])
  have "rstart b \<le> rend a" using touch range_end_fits [OF a] by (simp add: word_le_nat_alt rstart_def)
  then show "{rstart c ..< rend c} = {rstart a ..< rend a} \<union> {rstart b ..< rend b}"
    unfolding st en using ab less by auto
  have "4096 dvd rend a" "4096 dvd rend b" "4096 dvd rstart a"
    using a b by (auto simp: range_fits_def rend_def rstart_def)
  then have "4096 dvd unat (vr_size c)" unfolding sz using less by (intro dvd_diff_nat) (simp add: max_def, assumption)
  then show "range_fits c" using sz st en less a b by (auto simp: range_fits_def word_less_nat_alt)
qed

lemma coalesce_spec:
  assumes "\<forall>r \<in> set rs. range_fits r" and "sorted_wrt (\<lambda>a b. rstart a \<le> rstart b) rs"
  shows "ranges_ok (coalesce rs) \<and> range_bytes (coalesce rs) = range_bytes rs \<and>
    rstart ` set (coalesce rs) \<subseteq> rstart ` set rs \<and> length (coalesce rs) \<le> length rs"
  using assms
proof (induction rs rule: coalesce.induct)
  case (3 a b rs)
  let ?ae = "range_end (vr_start a) (vr_size a)" and ?be = "range_end (vr_start b) (vr_size b)"
  have fa: "range_fits a" and fb: "range_fits b" and ab: "rstart a \<le> rstart b" using "3.prems" by auto
  show ?case
  proof (cases "vr_start b \<le> ?ae")
    case True
    define c where "c = a\<lparr>vr_size := (if ?be < ?ae then ?ae else ?be) - vr_start a\<rparr>"
    note m = merge_fits [OF fa fb ab True, folded c_def]
    have "ranges_ok (coalesce (c # rs)) \<and> range_bytes (coalesce (c # rs)) = range_bytes (c # rs) \<and>
        rstart ` set (coalesce (c # rs)) \<subseteq> rstart ` set (c # rs) \<and> length (coalesce (c # rs)) \<le> length (c # rs)"
      using "3.IH"(1) [OF refl refl True] "3.prems" m(1,3) by (simp add: c_def)
    moreover have "coalesce (a # b # rs) = coalesce (c # rs)" using True by (simp add: c_def)
    moreover have "range_bytes (c # rs) = range_bytes (a # b # rs)" using m(2) by (auto simp: range_bytes_def)
    ultimately show ?thesis using m(3) by auto
  next
    case False
    have IH: "ranges_ok (coalesce (b # rs))" "range_bytes (coalesce (b # rs)) = range_bytes (b # rs)"
      "rstart ` set (coalesce (b # rs)) \<subseteq> rstart ` set (b # rs)" "length (coalesce (b # rs)) \<le> length (b # rs)"
      using "3.IH"(2) [OF refl refl False] "3.prems" by auto
    have "rend a < rstart b" using False range_end_fits [OF fa] by (simp add: word_le_nat_alt rstart_def)
    then have "\<forall>r \<in> set (coalesce (b # rs)). rend a < rstart r"
      using IH(3) "3.prems"(2) by (force simp: image_subset_iff)
    moreover have "coalesce (a # b # rs) = a # coalesce (b # rs)" using False by simp
    ultimately show ?thesis using IH fa by (auto simp: ranges_ok_def range_bytes_def)
  qed
qed (auto simp: ranges_ok_def)

lemma ranges_ok_sorted: "ranges_ok rs \<Longrightarrow> sorted_wrt (\<lambda>a b. rstart a \<le> rstart b) rs"
  unfolding ranges_ok_def
  by (auto intro!: sorted_wrt_mono_rel [of rs "\<lambda>a b. rend a < rstart b"] dest!: rstart_less_rend)

lemma vmalloc_free_range_spec:
  assumes "ranges_ok (g_vmalloc_free s)" and "range_fits \<lparr>vr_start = start, vr_size = sz\<rparr>"
  shows "safely (vmalloc_free_range start sz s) (VMALLOC_MAX_RANGES \<le> length (g_vmalloc_free s)) (\<lambda>s'.
    ranges_ok (g_vmalloc_free s') \<and>
    range_bytes (g_vmalloc_free s') = range_bytes (g_vmalloc_free s) \<union> {unat start ..< unat start + unat sz} \<and>
    length (g_vmalloc_free s') \<le> Suc (length (g_vmalloc_free s)) \<and> s' = s\<lparr>g_vmalloc_free := g_vmalloc_free s'\<rparr>)"
proof -
  let ?n = "\<lparr>vr_start = start, vr_size = sz\<rparr>"
  let ?rs = "insert_range ?n (g_vmalloc_free s)"
  have "\<forall>r \<in> set ?rs. range_fits r" using assms by (auto simp: insert_range_set ranges_ok_def)
  note C = coalesce_spec [OF this insert_range_sorted [OF ranges_ok_sorted [OF assms(1)]]]
  have "range_bytes ?rs = range_bytes (g_vmalloc_free s) \<union> {unat start ..< unat start + unat sz}"
    by (auto simp: range_bytes_def insert_range_set rstart_def rend_def)
  moreover have "length (insert_range n rs) = Suc (length rs)" for n rs by (induction rs) auto
  ultimately show ?thesis using C assms(2) by (auto simp: vmalloc_free_range_def range_fits_def)
qed

lemma take_range_first:
  assumes r: "range_fits r" and sz: "\<not> vr_size r < aligned" and al: "0 < aligned" "4096 dvd unat aligned"
  defines "r' \<equiv> r\<lparr>vr_start := vr_start r + aligned, vr_size := vr_size r - aligned\<rparr>"
  shows "rstart r' = rstart r + unat aligned" and "rend r' = rend r" and "vr_size r' \<noteq> 0 \<Longrightarrow> range_fits r'"
    and "vr_size r' = 0 \<longleftrightarrow> rend r = rstart r + unat aligned"
proof -
  have le: "unat aligned \<le> unat (vr_size r)" using sz by (simp add: word_less_nat_alt)
  have lt: "rend r < 2 ^ 64" using r by (simp add: range_fits_def)
  show st: "rstart r' = rstart r + unat aligned"
    using le lt by (simp add: r'_def rstart_def rend_def unat_plus_if')
  have s': "unat (vr_size r') = unat (vr_size r) - unat aligned"
    using le by (simp add: r'_def unat_sub word_le_nat_alt)
  then show en: "rend r' = rend r" using st le by (simp add: rend_def rstart_def)
  show "vr_size r' = 0 \<longleftrightarrow> rend r = rstart r + unat aligned"
    using s' le by (auto simp: rend_def rstart_def unat_eq_zero [symmetric])
  show "range_fits r'" if "vr_size r' \<noteq> 0"
    using that r al st en s' le by (auto simp: range_fits_def word_neq_0_conv)
qed

lemma take_range_spec:
  assumes "ranges_ok rs" and "take_range aligned rs = Some (addr, rs')" and "0 < aligned" and "4096 dvd unat aligned"
  shows "ranges_ok rs' \<and> {unat addr ..< unat addr + unat aligned} \<subseteq> range_bytes rs \<and>
    range_bytes rs' = range_bytes rs - {unat addr ..< unat addr + unat aligned} \<and> 4096 dvd unat addr \<and>
    unat addr + unat aligned < 2 ^ 64 \<and> length rs' \<le> length rs \<and> rend ` set rs' \<subseteq> rend ` set rs \<and>
    (\<forall>r \<in> set rs'. \<exists>r0 \<in> set rs. rstart r0 \<le> rstart r)"
  using assms
proof (induction rs arbitrary: rs')
  case (Cons r rs)
  have fit: "range_fits r" and ok: "ranges_ok rs" and gap: "\<forall>x \<in> set rs. rend r < rstart x"
    using Cons.prems(1) by (auto simp: ranges_ok_def)
  have above: "rend r < b" if "b \<in> range_bytes rs" for b
    using that gap by (fastforce simp: range_bytes_def)
  have bytes: "range_bytes (r # rs) = {rstart r ..< rend r} \<union> range_bytes rs" by (simp add: range_bytes_def)
  show ?case
  proof (cases "vr_size r < aligned")
    case True
    then obtain rs2 where rs2: "take_range aligned rs = Some (addr, rs2)" "rs' = r # rs2"
      using Cons.prems(2) by auto
    note IH = Cons.IH [OF ok rs2(1) Cons.prems(3,4)]
    have "ranges_ok rs'" using IH fit gap unfolding rs2(2) ranges_ok_def by fastforce
    moreover have "{rstart r ..< rend r} \<inter> {unat addr ..< unat addr + unat aligned} = {}"
      using IH above by fastforce
    ultimately show ?thesis using IH unfolding rs2(2) bytes by (auto simp: range_bytes_def)
  next
    case False
    define r' where "r' = r\<lparr>vr_start := vr_start r + aligned, vr_size := vr_size r - aligned\<rparr>"
    note f = take_range_first [OF fit False Cons.prems(3,4), folded r'_def]
    have res: "addr = vr_start r" "rs' = (if vr_size r' = 0 then rs else r' # rs)"
      using Cons.prems(2) False by (auto simp: r'_def Let_def)
    have le: "unat addr = rstart r" "rstart r + unat aligned \<le> rend r"
      using False by (simp_all add: res rstart_def rend_def word_less_nat_alt)
    have "rstart r < rend r" using rstart_less_rend [OF fit] .
    have b': "range_bytes rs' = {rstart r + unat aligned ..< rend r} \<union> range_bytes rs"
      unfolding res(2) using f(1,2,4) by (auto simp: range_bytes_def)
    have "ranges_ok rs'" unfolding res(2) using f(2,3) ok gap by (auto simp: ranges_ok_def)
    moreover have "{unat addr ..< unat addr + unat aligned} \<subseteq> {rstart r ..< rend r}" using le by auto
    moreover have "range_bytes rs' = range_bytes (r # rs) - {unat addr ..< unat addr + unat aligned}"
      unfolding b' bytes le(1) using le(2) above by fastforce
    moreover have "unat addr + unat aligned < 2 ^ 64" using le fit by (simp add: range_fits_def)
    moreover have "rend ` set rs' \<subseteq> rend ` set (r # rs)" "\<forall>x \<in> set rs'. \<exists>r0 \<in> set (r # rs). rstart r0 \<le> rstart x"
      using f(1,2) by (auto simp: res(2))
    ultimately show ?thesis using fit le bytes by (auto simp: res(2) range_fits_def rstart_def)
  qed
qed simp

section \<open>Frames in and out of the allocator\<close>

lemma vm_inv_take:
  assumes inv: "vm_inv s r F" and run: "pmm_try_alloc_page_phys (vm_pmm s) = (Some f, pm)"
  defines "s' \<equiv> s\<lparr>vm_pmm := pm\<rparr>"
  shows "vm_inv s' r (insert f F)" and "ptview s' = ptview s" and "pmm_avail (vm_pmm s') = pmm_avail (vm_pmm s) - {f}"
    and "f \<in> pmm_avail (vm_pmm s)" and "vm_env s' = vm_env s"
    and "card (pmm_avail (vm_pmm s)) = Suc (card (pmm_avail (vm_pmm s')))"
proof -
  note pok = vm_invD(1) [OF inv]
  have a: "pmm_ok pm" "f \<in> pmm_avail (vm_pmm s)" "pmm_avail pm = pmm_avail (vm_pmm s) - {f}"
    "pmm_managed pm = pmm_managed (vm_pmm s)" using pm.alloc_Some [OF pok run] by auto
  have tp: "total_pages (g_pmm_info pm) = total_pages (g_pmm_info (vm_pmm s))"
    using pmm_alloc_Some [OF pok run] by auto
  show pv: "ptview s' = ptview s" unfolding s'_def by (rule ptview_cong) simp_all
  have U: "used_pages_of s - F \<subseteq> used_pages_of s' - insert f F"
    using a by (auto simp: used_pages_of_def s'_def)
  have p': "vm_pmm s' = pm" by (simp add: s'_def)
  have "insert f F \<inter> pmm_avail pm = {}" using a vm_invD(4) [OF inv] by auto
  then show "vm_inv s' r (insert f F)"
    using vm_invD [OF inv] a(1) tp tree_ok_mono [OF vm_invD(5) [OF inv] U] unfolding vm_inv_def pv p' by simp
  show "pmm_avail (vm_pmm s') = pmm_avail (vm_pmm s) - {f}" "f \<in> pmm_avail (vm_pmm s)"
    using a by (simp_all add: s'_def)
  show "vm_env s' = vm_env s" using a(4) by (simp add: s'_def vm_env_def)
  show "card (pmm_avail (vm_pmm s)) = Suc (card (pmm_avail (vm_pmm s')))"
    using a card_Suc_Diff1 [OF finite_pmm_avail a(2)] by (simp add: s'_def)
qed

lemma vm_inv_give:
  assumes inv: "vm_inv s r F" and f: "f \<in> F"
  defines "s' \<equiv> s\<lparr>vm_pmm := pmm_free_page_phys f (vm_pmm s)\<rparr>"
  shows "vm_inv s' r (F - {f})" and "ptview s' = ptview s" and "vm_env s' = vm_env s"
    and "pmm_avail (vm_pmm s') = pmm_avail (vm_pmm s) \<union> ({f} \<inter> pmm_managed (vm_pmm s))"
proof -
  note pok = vm_invD(1) [OF inv]
  note rel = pm.release_law [OF pok, of f]
  show pv: "ptview s' = ptview s" unfolding s'_def by (rule ptview_cong) simp_all
  show av: "pmm_avail (vm_pmm s') = pmm_avail (vm_pmm s) \<union> ({f} \<inter> pmm_managed (vm_pmm s))"
    using rel by (simp add: s'_def)
  show "vm_env s' = vm_env s" using rel by (simp add: s'_def vm_env_def)
  have U: "used_pages_of s - F \<subseteq> used_pages_of s' - (F - {f})"
    using f av rel by (auto simp: used_pages_of_def s'_def)
  have tp: "total_pages (g_pmm_info (vm_pmm s')) = total_pages (g_pmm_info (vm_pmm s))" "pmm_ok (vm_pmm s')"
    using pmm_free_spec [OF pok, of f] by (simp_all add: s'_def)
  have "(F - {f}) \<inter> pmm_avail (vm_pmm s') = {}" using vm_invD(4) [OF inv] unfolding av by auto
  then show "vm_inv s' r (F - {f})"
    using vm_invD [OF inv] tp tree_ok_mono [OF vm_invD(5) [OF inv] U] unfolding vm_inv_def pv by simp
qed

section \<open>The mapping loop\<close>

definition pages_of :: "u64 \<Rightarrow> u64 list \<Rightarrow> u16 list list" where
  "pages_of addr offs = map (\<lambda>off. vpath (addr + off)) offs"

text \<open>
  \<open>maps_frames\<close>: the pages at \<open>offs\<close> are mapped, one by one, to the frames \<open>fs\<close>, and nothing else in
  the address space has changed.
\<close>

definition maps_frames :: "u64 \<Rightarrow> u64 \<Rightarrow> u64 \<Rightarrow> u64 list \<Rightarrow> u64 list \<Rightarrow> vm \<Rightarrow> vm \<Rightarrow> bool" where
  "maps_frames r addr flags offs fs s s' \<longleftrightarrow>
     length fs = length offs \<and>
     (\<forall>q. length q = 4 \<longrightarrow> leaf (ptview s') r q =
        (case map_of (zip (pages_of addr offs) fs) q of
           Some f \<Rightarrow> Some (0, pte_of (g_nx_enabled s) f flags) | None \<Rightarrow> leaf (ptview s) r q))"

lemma maps_frames_Cons:
  assumes step: "\<And>q. length q = 4 \<Longrightarrow> leaf (ptview s1) r q =
      (if q = vpath (addr + off) then Some (0, pte_of (g_nx_enabled s) f flags) else leaf (ptview s) r q)"
    and nx: "g_nx_enabled s1 = g_nx_enabled s" and new: "vpath (addr + off) \<notin> set (pages_of addr offs)"
    and rest: "maps_frames r addr flags offs fs s1 s'"
  shows "maps_frames r addr flags (off # offs) (f # fs) s s'"
proof -
  have len: "length fs = length (pages_of addr offs)" using rest by (simp add: maps_frames_def pages_of_def)
  have none: "map_of (zip (pages_of addr offs) fs) (vpath (addr + off)) = None"
    using new len by (simp add: map_of_zip_is_None)
  have "leaf (ptview s') r q = (case map_of (zip (pages_of addr (off # offs)) (f # fs)) q of
      Some f \<Rightarrow> Some (0, pte_of (g_nx_enabled s) f flags) | None \<Rightarrow> leaf (ptview s) r q)" if "length q = 4" for q
  proof -
    have r': "leaf (ptview s') r q = (case map_of (zip (pages_of addr offs) fs) q of
        Some f \<Rightarrow> Some (0, pte_of (g_nx_enabled s1) f flags) | None \<Rightarrow> leaf (ptview s1) r q)"
      using rest that by (simp add: maps_frames_def)
    have "pages_of addr (off # offs) = vpath (addr + off) # pages_of addr offs" by (simp add: pages_of_def)
    then show ?thesis using none nx step [OF that] r'
      by (cases "q = vpath (addr + off)") (simp_all split: option.split)
  qed
  then show ?thesis using rest by (simp add: maps_frames_def)
qed

lemma vmalloc_map_spec:
  assumes "vm_inv s r F" and "flags_allowed flags" and "addr AND 4095 = 0"
    and "distinct (pages_of addr offs)"
    and "\<forall>off \<in> set offs. off AND 4095 = 0 \<and> leaf (ptview s) r (vpath (addr + off)) = None"
    and "\<forall>off \<in> set offs. (addr + off) AND 4095 = 0"
  shows "safely (vmalloc_map r addr flags offs m s) (card (pmm_avail (vm_pmm s)) < 4 * length offs)
    (\<lambda>(m', s'). \<exists>k fs. k \<le> length offs \<and> m' = m + 4096 * word_of_nat k \<and>
       distinct fs \<and> set fs \<subseteq> pmm_avail (vm_pmm s) \<and> vm_inv s' r (F \<union> set fs) \<and> vm_env s' = vm_env s \<and>
       (\<forall>t \<in> F. ptview s' t = ptview s t) \<and> maps_frames r addr flags (take k offs) fs s s' \<and>
       (k < length offs \<longrightarrow> card (pmm_avail (vm_pmm s)) < 4 * length offs))"
  using assms
proof (induction offs arbitrary: s F m)
  case Nil
  then show ?case by (simp add: maps_frames_def pages_of_def)
next
  case (Cons off offs)
  obtain o' pm where run: "pmm_try_alloc_page_phys (vm_pmm s) = (o', pm)" by fastforce
  show ?case
  proof (cases o')
    case None
    then have "pm = vm_pmm s" "pmm_avail (vm_pmm s) = {}"
      using pm.alloc_None [OF vm_invD(1) [OF Cons.prems(1)]] run by auto
    then have "vmalloc_map r addr flags (off # offs) m s = Inr (m, s)" "card (pmm_avail (vm_pmm s)) = 0"
      using run None by simp_all
    then show ?thesis using Cons.prems(1)
      by (simp only: safely_simps prod.case)
        (intro exI [of _ 0] exI [of _ "[]"], simp add: maps_frames_def pages_of_def)
  next
    case (Some f)
    let ?s0 = "s\<lparr>vm_pmm := pm\<rparr>"
    note T = vm_inv_take [OF Cons.prems(1) run [unfolded Some]]
    note fp = avail_page [OF Cons.prems(1) T(4)]
    have al: "((addr + off) OR f) AND 4095 = 0" using Cons.prems(6) fp(2) by (simp add: or_aligned)
    have unm: "leaf (ptview ?s0) r (vpath (addr + off)) = None" using Cons.prems(5) T(2) by simp
    have nx: "g_nx_enabled ?s0 = g_nx_enabled s" by simp
    have eq: "vmalloc_map r addr flags (off # offs) m s =
        andthen (paging_map_page r (addr + off) f flags ?s0) (\<lambda>(ok, s1).
           if ok then vmalloc_map r addr flags offs (m + 4096) s1
           else Inr (m, s1\<lparr>vm_pmm := pmm_free_page_phys f (vm_pmm s1)\<rparr>))"
      using run Some by simp
    show ?thesis unfolding eq
    proof (rule safely_bind [OF paging_map_page_spec [OF T(1) al Cons.prems(2) unm]], goal_cases)
      case 1
      then show ?case using T(6) by simp
    next
      case (2 x)
      then obtain s1 where x: "x = (True, s1)" and k: "vm_keeps r (insert f F) ?s0 s1"
        "pmm_avail (vm_pmm s1) \<subseteq> pmm_avail (vm_pmm ?s0)"
        "card (pmm_avail (vm_pmm ?s0)) \<le> 3 + card (pmm_avail (vm_pmm s1))"
        "\<And>q. length q = 4 \<Longrightarrow> leaf (ptview s1) r q =
           (if q = vpath (addr + off) then Some (0, pte_of (g_nx_enabled s) f flags) else leaf (ptview s) r q)"
        using T(2) by auto
      have inv1: "vm_inv s1 r (insert f F)" and env1: "vm_env s1 = vm_env s"
        and fr1: "\<forall>t \<in> insert f F. ptview s1 t = ptview s t"
        using k(1) T(2,5) by (auto simp: vm_keeps_def)
      have dist: "distinct (pages_of addr offs)" "vpath (addr + off) \<notin> set (pages_of addr offs)"
        using Cons.prems(4) by (auto simp: pages_of_def)
      have pre: "\<forall>o1 \<in> set offs. o1 AND 4095 = 0 \<and> leaf (ptview s1) r (vpath (addr + o1)) = None"
      proof
        fix o1
        assume o1: "o1 \<in> set offs"
        then have "vpath (addr + o1) \<in> set (pages_of addr offs)" by (simp add: pages_of_def)
        then have "vpath (addr + o1) \<noteq> vpath (addr + off)" using dist(2) by metis
        then show "o1 AND 4095 = 0 \<and> leaf (ptview s1) r (vpath (addr + o1)) = None"
          using k(4) [of "vpath (addr + o1)"] Cons.prems(5) o1 by simp
      qed
      have cnt: "card (pmm_avail (vm_pmm s)) \<le> 4 + card (pmm_avail (vm_pmm s1))" using k(3) T(6) by simp
      show ?case unfolding x prod.case if_True
      proof (rule safely_mono [OF Cons.IH [OF inv1 Cons.prems(2,3) dist(1) pre]], goal_cases)
        case 1
        then show ?case using Cons.prems(6) by simp
      next
        case 2
        then show ?case using cnt by simp
      next
        case (3 y)
        then obtain m' s' k' fs where y: "y = (m', s')" and r: "k' \<le> length offs" "m' = m + 4096 + 4096 * word_of_nat k'"
          "distinct fs" "set fs \<subseteq> pmm_avail (vm_pmm s1)" "vm_inv s' r (insert f F \<union> set fs)" "vm_env s' = vm_env s1"
          "\<forall>t \<in> insert f F. ptview s' t = ptview s1 t" "maps_frames r addr flags (take k' offs) fs s1 s'"
          "k' < length offs \<longrightarrow> card (pmm_avail (vm_pmm s1)) < 4 * length offs" by (auto split: prod.splits)
        have "f \<notin> set fs" and c1: "set (f # fs) \<subseteq> pmm_avail (vm_pmm s)" using r(4) k(2) T(3,4) by auto
        then have c2: "distinct (f # fs)" using r(3) by simp
        have "vpath (addr + off) \<notin> set (pages_of addr (take k' offs))"
          using dist(2) set_take_subset [of k' offs] by (auto simp: pages_of_def)
        then have c3: "maps_frames r addr flags (take (Suc k') (off # offs)) (f # fs) s s'"
          unfolding take_Suc_Cons using maps_frames_Cons [OF k(4) _ _ r(8)] env_nx [OF env1] by blast
        have c4: "m' = m + 4096 * word_of_nat (Suc k')" using r(2) by (simp add: algebra_simps)
        have c5: "vm_inv s' r (F \<union> set (f # fs))" using r(5) by simp
        have c6: "Suc k' < length (off # offs) \<longrightarrow> card (pmm_avail (vm_pmm s)) < 4 * length (off # offs)"
          using r(9) cnt by auto
        have c7: "\<forall>t \<in> F. ptview s' t = ptview s t" using r(7) fr1 by simp
        have c8: "vm_env s' = vm_env s" "Suc k' \<le> length (off # offs)" using r(1,6) env1 by simp_all
        show ?case unfolding y prod.case by (intro exI [of _ "Suc k'"] exI [of _ "f # fs"] conjI; fact)
      qed
    qed
  qed
qed

section \<open>The unmapping loop\<close>

definition maps_to :: "vm \<Rightarrow> u64 \<Rightarrow> u64 \<Rightarrow> u64 \<Rightarrow> bool" where
  "maps_to s r v f \<longleftrightarrow> (\<exists>e. leaf (ptview s) r (vpath v) = Some (0, e) \<and> child e = f)"

lemma vmalloc_unmap_page:
  assumes inv: "vm_inv s r F" and m: "maps_to s r (addr + off) f" and f: "f \<in> F"
  shows "\<exists>s'. vmalloc_unmap r addr off s = Inr s' \<and> vm_inv s' r (F - {f}) \<and> vm_env s' = vm_env s \<and>
    (\<forall>t \<in> F. ptview s' t = ptview s t) \<and> pmm_avail (vm_pmm s) \<subseteq> pmm_avail (vm_pmm s') \<and>
    ({f} \<inter> pmm_managed (vm_pmm s) \<subseteq> pmm_avail (vm_pmm s')) \<and>
    (\<forall>q. length q = 4 \<longrightarrow> leaf (ptview s') r q = (if q = vpath (addr + off) then None else leaf (ptview s) r q))"
proof -
  obtain e where e: "leaf (ptview s) r (vpath (addr + off)) = Some (0, e)" "child e = f"
    using m by (auto simp: maps_to_def)
  obtain s1 where s1: "paging_unmap_page r (addr + off) s = Inr (Some f, s1)" "vm_keeps r F s s1"
    "pmm_avail (vm_pmm s) \<subseteq> pmm_avail (vm_pmm s1)"
    "\<And>q. length q = 4 \<Longrightarrow> leaf (ptview s1) r q = (if q = vpath (addr + off) then None else leaf (ptview s) r q)"
    using paging_unmap_page_spec [OF inv e(1)] unfolding e(2) by blast
  have inv1: "vm_inv s1 r F" and env: "vm_env s1 = vm_env s" and fr: "\<forall>t \<in> F. ptview s1 t = ptview s t"
    using s1(2) by (auto simp: vm_keeps_def)
  have man: "pmm_managed (vm_pmm s1) = pmm_managed (vm_pmm s)" using env by (simp add: vm_env_def)
  let ?s = "s1\<lparr>vm_pmm := pmm_free_page_phys f (vm_pmm s1)\<rparr>"
  note G = vm_inv_give [OF inv1 f]
  have "vmalloc_unmap r addr off s = Inr ?s" using s1(1) by (simp add: vmalloc_unmap_def)
  moreover have "pmm_avail (vm_pmm s) \<subseteq> pmm_avail (vm_pmm ?s)" "{f} \<inter> pmm_managed (vm_pmm s) \<subseteq> pmm_avail (vm_pmm ?s)"
    using s1(3) G(4) man by auto
  ultimately show ?thesis using G(1,2,3) env fr s1(4) by (intro exI [of _ ?s]) simp
qed

lemma vmalloc_unmap_loop:
  assumes "list_all2 (\<lambda>off f. maps_to s r (addr + off) f) offs fs" and "vm_inv s r F"
    and "distinct (pages_of addr offs)" and "distinct fs" and "set fs \<subseteq> F"
  shows "\<exists>s'. fold_outcome (vmalloc_unmap r addr) offs s = Inr s' \<and> vm_inv s' r (F - set fs) \<and> vm_env s' = vm_env s \<and>
    (\<forall>t \<in> F - set fs. ptview s' t = ptview s t) \<and> pmm_avail (vm_pmm s) \<subseteq> pmm_avail (vm_pmm s') \<and>
    (set fs \<inter> pmm_managed (vm_pmm s) \<subseteq> pmm_avail (vm_pmm s')) \<and>
    (\<forall>q. length q = 4 \<longrightarrow> leaf (ptview s') r q = (if q \<in> set (pages_of addr offs) then None else leaf (ptview s) r q))"
  using assms
proof (induction offs arbitrary: fs s F)
  case Nil
  then show ?case by (simp add: pages_of_def)
next
  case (Cons off offs)
  obtain f gs where fs: "fs = f # gs" using Cons.prems(1) by (cases fs) auto
  have m: "maps_to s r (addr + off) f" "list_all2 (\<lambda>off f. maps_to s r (addr + off) f) offs gs"
    and f: "f \<in> F" "f \<notin> set gs" "distinct gs" "set gs \<subseteq> F - {f}"
    and d: "distinct (pages_of addr offs)" "vpath (addr + off) \<notin> set (pages_of addr offs)"
    using Cons.prems by (auto simp: fs pages_of_def)
  obtain s1 where s1: "vmalloc_unmap r addr off s = Inr s1" "vm_inv s1 r (F - {f})" "vm_env s1 = vm_env s"
    "\<forall>t \<in> F. ptview s1 t = ptview s t" "pmm_avail (vm_pmm s) \<subseteq> pmm_avail (vm_pmm s1)"
    "{f} \<inter> pmm_managed (vm_pmm s) \<subseteq> pmm_avail (vm_pmm s1)"
    "\<And>q. length q = 4 \<Longrightarrow> leaf (ptview s1) r q = (if q = vpath (addr + off) then None else leaf (ptview s) r q)"
    using vmalloc_unmap_page [OF Cons.prems(2) m(1) f(1)] by blast
  have keep: "maps_to s1 r (addr + o1) g" if "o1 \<in> set offs" "maps_to s r (addr + o1) g" for o1 g
  proof -
    have "vpath (addr + o1) \<in> set (pages_of addr offs)" using that(1) by (simp add: pages_of_def)
    then have "vpath (addr + o1) \<noteq> vpath (addr + off)" using d(2) by metis
    then show ?thesis using that(2) s1(7) [of "vpath (addr + o1)"] by (simp add: maps_to_def)
  qed
  have m1: "list_all2 (\<lambda>off f. maps_to s1 r (addr + off) f) offs gs"
    by (rule list.rel_mono_strong [OF m(2)]) (rule keep)
  obtain s' where s': "fold_outcome (vmalloc_unmap r addr) offs s1 = Inr s'" "vm_inv s' r (F - {f} - set gs)"
    "vm_env s' = vm_env s1" "\<forall>t \<in> F - {f} - set gs. ptview s' t = ptview s1 t"
    "pmm_avail (vm_pmm s1) \<subseteq> pmm_avail (vm_pmm s')" "set gs \<inter> pmm_managed (vm_pmm s1) \<subseteq> pmm_avail (vm_pmm s')"
    "\<And>q. length q = 4 \<Longrightarrow> leaf (ptview s') r q = (if q \<in> set (pages_of addr offs) then None else leaf (ptview s1) r q)"
    using Cons.IH [OF m1 s1(2) d(1) f(3,4)] by blast
  have man: "pmm_managed (vm_pmm s1) = pmm_managed (vm_pmm s)" using s1(3) by (simp add: vm_env_def)
  have "F - set fs = F - {f} - set gs" by (auto simp: fs)
  moreover have "set fs \<inter> pmm_managed (vm_pmm s) \<subseteq> pmm_avail (vm_pmm s')" using s1(6) s'(5,6) man by (auto simp: fs)
  moreover have "leaf (ptview s') r q = (if q \<in> set (pages_of addr (off # offs)) then None else leaf (ptview s) r q)"
    if "length q = 4" for q using s'(7) [OF that] s1(7) [OF that] by (auto simp: pages_of_def)
  ultimately show ?case using s1 s' by (intro exI [of _ s']) simp
qed

section \<open>Pages of a block\<close>

lemma step_range_4k:
  "4096 dvd unat b \<Longrightarrow> step_range 4096 0 b = map (\<lambda>k. word_of_nat k * 4096) [0..<unat b div 4096]"
  by (auto simp: step_range_def elim!: dvdE)

lemma same_page_unat:
  assumes "vpath v = vpath w" and "4096 dvd unat v" and "4096 dvd unat w"
    and "unat v \<le> unat w" and "unat w - unat v < 2 ^ 48"
  shows "v = w"
proof -
  have "unat (drop_bit 12 (take_bit 48 v)) = unat (drop_bit 12 (take_bit 48 w))"
    using assms(1) by (simp add: same_page_iff [symmetric] same_page_def)
  then have "unat v mod 2 ^ 48 div 4096 = unat w mod 2 ^ 48 div 4096"
    unfolding unat_drop_bit_eq unsigned_take_bit_eq unfolding drop_bit_eq_div take_bit_eq_mod by simp
  moreover have "4096 dvd unat v mod 2 ^ 48" "4096 dvd unat w mod 2 ^ 48"
    using assms(2,3) by (simp_all add: dvd_mod_iff)
  ultimately have "unat v mod 2 ^ 48 = unat w mod 2 ^ 48" by (metis dvd_div_mult_self)
  then have "2 ^ 48 dvd unat w - unat v" using mod_eq_dvd_iff_nat [OF assms(4), of "2 ^ 48"] by metis
  then have "unat w - unat v = 0" using assms(5) by (metis nat_dvd_not_less neq0_conv)
  then show ?thesis using assms(4) by (simp add: word_unat_eq_iff)
qed

lemma block_page_unat:
  fixes addr aligned :: u64
  assumes "unat addr + unat aligned < 2 ^ 64" and "k < unat aligned div 4096"
  shows "unat (addr + word_of_nat k * 4096) = unat addr + k * 4096"
proof -
  have "k * 4096 < unat aligned" using assms(2) by (simp add: less_mult_imp_div_less)
  moreover have "k < 4503599627370496" using assms(2) unat_lt_64 [of aligned] by simp
  ultimately have "unat (word_of_nat k * 4096 :: u64) = k * 4096"
    using unat_mult_4k [of "word_of_nat k"] by (simp add: unat_word_of_nat_64)
  then show ?thesis using assms(1) \<open>k * 4096 < unat aligned\<close> by (simp add: unat_plus_if')
qed

lemma block_pages:
  fixes addr aligned :: u64
  assumes "unat addr + unat aligned < 2 ^ 64" and "4096 dvd unat addr" and "4096 dvd unat aligned"
    and "unat aligned \<le> 2 ^ 48"
  shows "distinct (pages_of addr (step_range 4096 0 aligned))"
    and "\<forall>off \<in> set (step_range 4096 0 aligned). off AND 4095 = 0 \<and> (addr + off) AND 4095 = 0 \<and>
       unat (addr + off) \<in> {unat addr ..< unat addr + unat aligned}"
    and "length (step_range 4096 0 aligned) = unat aligned div 4096"
proof -
  let ?n = "unat aligned div 4096"
  note u = block_page_unat [OF assms(1)]
  have offs: "step_range 4096 0 aligned = map (\<lambda>k. word_of_nat k * 4096) [0..<?n]" by (rule step_range_4k [OF assms(3)])
  show "length (step_range 4096 0 aligned) = ?n" by (simp add: offs)
  have lt: "k * 4096 < unat aligned" if "k < ?n" for k using that assms(3) by (auto elim!: dvdE)
  have al: "4096 dvd unat (addr + word_of_nat k * 4096)" if "k < ?n" for k using u [OF that] assms(2) by simp
  have inj: "i = j" if "i < ?n" "j < ?n" "vpath (addr + word_of_nat i * 4096) = vpath (addr + word_of_nat j * 4096)" for i j
  proof -
    have "addr + word_of_nat i * 4096 = addr + word_of_nat j * 4096"
    proof (cases "i \<le> j")
      case True
      then show ?thesis using same_page_unat [OF that(3)] al u that lt [OF that(2)] assms(4) by simp
    next
      case False
      then show ?thesis using same_page_unat [OF that(3) [symmetric]] al u that lt [OF that(1)] assms(4) by simp
    qed
    then have "unat addr + i * 4096 = unat addr + j * 4096" using u that by metis
    then show ?thesis by simp
  qed
  show "distinct (pages_of addr (step_range 4096 0 aligned))"
    unfolding offs pages_of_def map_map using inj by (auto simp: distinct_map inj_on_def)
  have "unat (word_of_nat k * 4096 :: u64) mod 4096 = 0" if "k < ?n" for k
    using unat_mult_4k [of "word_of_nat k"] that unat_lt_64 [of aligned] by (simp add: unat_word_of_nat_64)
  then show "\<forall>off \<in> set (step_range 4096 0 aligned). off AND 4095 = 0 \<and> (addr + off) AND 4095 = 0 \<and>
       unat (addr + off) \<in> {unat addr ..< unat addr + unat aligned}"
    using u al lt by (auto simp: offs and_4095_zero mod_eq_0_iff_dvd)
qed

section \<open>The allocator's invariant\<close>

text \<open>
  The page tables satisfy their invariant for the kernel's root; the free ranges are well formed and
  lie inside the window; no free virtual page is mapped. \<open>F\<close> collects the frames that are in use.
\<close>

definition vmalloc_inv :: "vmalloc_state \<Rightarrow> u64 \<Rightarrow> u64 set \<Rightarrow> bool" where
  "vmalloc_inv s r F \<longleftrightarrow>
     vm_inv (va_vm s) r F \<and> root_pml4_phys (g_paging_info (va_vm s)) = r \<and> r \<noteq> 0 \<and>
     g_vmalloc_initialized s \<and> ranges_ok (g_vmalloc_free s) \<and>
     0 < g_vmalloc_base s \<and> unat (g_vmalloc_end s) \<le> unat (g_vmalloc_base s) + 2 ^ 28 \<and>
     range_bytes (g_vmalloc_free s) \<subseteq> {unat (g_vmalloc_base s) ..< unat (g_vmalloc_end s)} \<and>
     (\<forall>v. v AND 4095 = 0 \<longrightarrow> unat v \<in> range_bytes (g_vmalloc_free s) \<longrightarrow> leaf (ptview (va_vm s)) r (vpath v) = None)"

lemma vmalloc_invD:
  assumes "vmalloc_inv s r F"
  shows "vm_inv (va_vm s) r F" "root_pml4_phys (g_paging_info (va_vm s)) = r" "r \<noteq> 0"
    "g_vmalloc_initialized s" "ranges_ok (g_vmalloc_free s)" "0 < g_vmalloc_base s"
    "unat (g_vmalloc_end s) \<le> unat (g_vmalloc_base s) + 2 ^ 28"
    "range_bytes (g_vmalloc_free s) \<subseteq> {unat (g_vmalloc_base s) ..< unat (g_vmalloc_end s)}"
    "v AND 4095 = 0 \<Longrightarrow> unat v \<in> range_bytes (g_vmalloc_free s) \<Longrightarrow> leaf (ptview (va_vm s)) r (vpath v) = None"
  using assms by (simp_all add: vmalloc_inv_def)

lemma env_root: "vm_env m' = vm_env m \<Longrightarrow> root_pml4_phys (g_paging_info m') = root_pml4_phys (g_paging_info m)"
  by (simp add: vm_env_def)

text \<open>A block that \<^verbatim>\<open>take_range\<close> cut out of the free ranges.\<close>

lemma taken_block:
  assumes inv: "vmalloc_inv s r F" and take: "take_range aligned (g_vmalloc_free s) = Some (addr, rs)"
    and al: "0 < aligned" "4096 dvd unat aligned"
  shows "ranges_ok rs" and "{unat addr ..< unat addr + unat aligned} \<subseteq> range_bytes (g_vmalloc_free s)"
    and "range_bytes rs = range_bytes (g_vmalloc_free s) - {unat addr ..< unat addr + unat aligned}"
    and "4096 dvd unat addr" and "unat addr + unat aligned < 2 ^ 64" and "unat aligned \<le> 2 ^ 28"
    and "length rs \<le> length (g_vmalloc_free s)" and "unat (g_vmalloc_base s) \<le> unat addr"
    and "unat addr + unat aligned \<le> unat (g_vmalloc_end s)" and "addr AND 4095 = 0"
proof -
  note T = take_range_spec [OF vmalloc_invD(5) [OF inv] take al]
  show "ranges_ok rs" and sub: "{unat addr ..< unat addr + unat aligned} \<subseteq> range_bytes (g_vmalloc_free s)"
    and "range_bytes rs = range_bytes (g_vmalloc_free s) - {unat addr ..< unat addr + unat aligned}"
    and "4096 dvd unat addr" and "unat addr + unat aligned < 2 ^ 64" and "length rs \<le> length (g_vmalloc_free s)"
    using T by simp_all
  then show "addr AND 4095 = 0" by (simp add: and_4095_zero mod_eq_0_iff_dvd)
  have pos: "0 < unat aligned" using al(1) by (simp add: word_less_nat_alt)
  have in_window: "{unat addr ..< unat addr + unat aligned} \<subseteq> {unat (g_vmalloc_base s) ..< unat (g_vmalloc_end s)}"
    using sub vmalloc_invD(8) [OF inv] by (rule order_trans)
  then show "unat (g_vmalloc_base s) \<le> unat addr" "unat addr + unat aligned \<le> unat (g_vmalloc_end s)"
    using pos by (auto simp: atLeastLessThan_subset_iff)
  then show "unat aligned \<le> 2 ^ 28" using vmalloc_invD(7) [OF inv] by linarith
qed

lemma taken_pages:
  assumes inv: "vmalloc_inv s r F" and take: "take_range aligned (g_vmalloc_free s) = Some (addr, rs)"
    and al: "0 < aligned" "4096 dvd unat aligned"
  defines "offs \<equiv> step_range 4096 0 aligned"
  shows "distinct (pages_of addr offs)" and "length offs = unat aligned div 4096"
    and "\<forall>off \<in> set offs. off AND 4095 = 0 \<and> leaf (ptview (va_vm s)) r (vpath (addr + off)) = None"
    and "\<forall>off \<in> set offs. (addr + off) AND 4095 = 0"
proof -
  note B = taken_block [OF inv take al]
  have "unat aligned \<le> 2 ^ 48" using B(6) by simp
  note P = block_pages [OF B(5,4) al(2) this, folded offs_def]
  show "distinct (pages_of addr offs)" "length offs = unat aligned div 4096" by (fact P)+
  show al2: "\<forall>off \<in> set offs. (addr + off) AND 4095 = 0" using P(2) by blast
  have "leaf (ptview (va_vm s)) r (vpath (addr + off)) = None" if "off \<in> set offs" for off
    using vmalloc_invD(9) [OF inv, of "addr + off"] P(2) B(2) that by blast
  then show "\<forall>off \<in> set offs. off AND 4095 = 0 \<and> leaf (ptview (va_vm s)) r (vpath (addr + off)) = None"
    using P(2) by blast
qed

text \<open>Pages outside a block keep their paths apart from the block's.\<close>

lemma outside_block:
  assumes inv: "vmalloc_inv s r F" and take: "take_range aligned (g_vmalloc_free s) = Some (addr, rs)"
    and al: "0 < aligned" "4096 dvd unat aligned"
    and v: "v AND 4095 = 0" "unat v \<in> range_bytes rs"
  shows "vpath v \<notin> set (pages_of addr (step_range 4096 0 aligned))"
proof
  note B = taken_block [OF inv take al]
  have "unat aligned \<le> 2 ^ 48" using B(6) by simp
  note P = block_pages [OF B(5,4) al(2) this]
  assume "vpath v \<in> set (pages_of addr (step_range 4096 0 aligned))"
  then obtain off where off: "off \<in> set (step_range 4096 0 aligned)" "vpath v = vpath (addr + off)"
    by (auto simp: pages_of_def)
  have w: "unat (addr + off) \<in> {unat addr ..< unat addr + unat aligned}" "4096 dvd unat (addr + off)"
    using P(2) off(1) by (auto simp: and_4095_zero mod_eq_0_iff_dvd)
  have d: "4096 dvd unat v" using v(1) by (simp add: and_4095_zero mod_eq_0_iff_dvd)
  have "unat v \<in> {unat (g_vmalloc_base s) ..< unat (g_vmalloc_end s)}" "unat v \<notin> {unat addr ..< unat addr + unat aligned}"
    using v(2) B(3) vmalloc_invD(8) [OF inv] by auto
  then have "unat v - unat (addr + off) < 2 ^ 48" "unat (addr + off) - unat v < 2 ^ 48" "v \<noteq> addr + off"
    using w(1) B(8,9) vmalloc_invD(7) [OF inv] by auto
  then show False
    using same_page_unat [OF off(2) d w(2)] same_page_unat [OF off(2) [symmetric] w(2) d] by (metis nat_le_linear)
qed

lemma maps_frames_maps_to:
  assumes "maps_frames r addr flags offs fs s s'" and "distinct (pages_of addr offs)"
    and "\<forall>f \<in> set fs. child f = f"
  shows "list_all2 (\<lambda>off f. maps_to s' r (addr + off) f) offs fs"
proof (rule list_all2_all_nthI)
  show len: "length offs = length fs" using assms(1) by (simp add: maps_frames_def)
  fix i
  assume i: "i < length offs"
  have "map_of (zip (pages_of addr offs) fs) (pages_of addr offs ! i) = Some (fs ! i)"
    using map_of_zip_nth [OF _ assms(2), of fs i] len i by (simp add: pages_of_def)
  then have "map_of (zip (pages_of addr offs) fs) (vpath (addr + offs ! i)) = Some (fs ! i)"
    using i by (simp add: pages_of_def)
  then have "leaf (ptview s') r (vpath (addr + offs ! i)) = Some (0, pte_of (g_nx_enabled s) (fs ! i) flags)"
    using assms(1) by (simp add: maps_frames_def)
  moreover have "child (pte_of (g_nx_enabled s) (fs ! i) flags) = fs ! i"
    using assms(3) len i by (simp add: child_pte_of)
  ultimately show "maps_to s' r (addr + offs ! i) (fs ! i)" by (simp add: maps_to_def)
qed

lemma maps_frames_other:
  "maps_frames r addr flags offs fs s s' \<Longrightarrow> length q = 4 \<Longrightarrow> q \<notin> set (pages_of addr offs) \<Longrightarrow>
     leaf (ptview s') r q = leaf (ptview s) r q"
proof -
  assume m: "maps_frames r addr flags offs fs s s'" "length q = 4" and q: "q \<notin> set (pages_of addr offs)"
  have "length (pages_of addr offs) = length fs" using m(1) by (simp add: maps_frames_def pages_of_def)
  then have "map_of (zip (pages_of addr offs) fs) q = None" using q by (simp add: map_of_zip_is_None)
  then show ?thesis using m by (simp only: maps_frames_def) simp
qed

section \<open>Allocating and freeing\<close>

lemma dvd_align_up_4k: "4096 dvd unat (align_up v 4096)"
  using unat_align_up_raw [of v 12] by simp

lemma vmalloc_unfold:
  assumes inv: "vmalloc_inv s r F" and sz: "sz \<noteq> 0" "sz \<le> aligned" and al: "aligned = align_up sz 4096"
    and take: "take_range aligned (g_vmalloc_free s) = Some (addr, rs)"
  shows "vmalloc kend sz flags s =
    andthen (vmalloc_map r addr flags (step_range 4096 0 aligned) 0 (va_vm s)) (\<lambda>(mapped, m).
      if mapped = aligned then Inr (addr, s\<lparr>g_vmalloc_free := rs, va_vm := m\<rparr>)
      else andthen (fold_outcome (vmalloc_unmap r addr) (step_range 4096 0 mapped) m)
        (\<lambda>m'. andthen (vmalloc_free_range addr aligned (s\<lparr>g_vmalloc_free := rs, va_vm := m'\<rparr>)) (\<lambda>s2. Inr (0, s2))))"
proof -
  have nl: "\<not> aligned < sz" using sz(2) by (simp add: not_less)
  have once: "vmalloc_init_once_locked kend s = (True, s)"
    using vmalloc_invD(4) [OF inv] by (simp add: vmalloc_init_once_locked_def)
  have rt: "root_pml4_phys (paging_get_info (va_vm (s\<lparr>g_vmalloc_free := rs\<rparr>))) = r"
    using vmalloc_invD(2) [OF inv] by (simp add: paging_get_info_def)
  show ?thesis
    using sz(1) nl vmalloc_invD(3) [OF inv]
    unfolding vmalloc_def Let_def al [symmetric] once prod.case take option.case rt by simp
qed

lemma vmalloc_inv_taken:
  assumes inv: "vmalloc_inv s r F" and take: "take_range aligned (g_vmalloc_free s) = Some (addr, rs)"
    and al: "0 < aligned" "4096 dvd unat aligned"
    and m: "vm_inv m r F'" "vm_env m = vm_env (va_vm s)"
      "maps_frames r addr flags (step_range 4096 0 aligned) fs (va_vm s) m"
  shows "vmalloc_inv (s\<lparr>g_vmalloc_free := rs, va_vm := m\<rparr>) r F'"
proof -
  note B = taken_block [OF inv take al] and D = vmalloc_invD [OF inv]
  have "leaf (ptview m) r (vpath v) = None" if "v AND 4095 = 0" "unat v \<in> range_bytes rs" for v
  proof -
    have "leaf (ptview m) r (vpath v) = leaf (ptview (va_vm s)) r (vpath v)"
      using maps_frames_other [OF m(3)] outside_block [OF inv take al that] by simp
    then show ?thesis using D(9) that B(3) by auto
  qed
  moreover have "range_bytes rs \<subseteq> {unat (g_vmalloc_base s) ..< unat (g_vmalloc_end s)}" using B(3) D(8) by blast
  ultimately show ?thesis using m(1) env_root [OF m(2)] D B(1) by (simp add: vmalloc_inv_def)
qed

lemma range_fits_block: "0 < aligned \<Longrightarrow> 4096 dvd unat aligned \<Longrightarrow> 4096 dvd unat addr \<Longrightarrow>
    unat addr + unat aligned < 2 ^ 64 \<Longrightarrow> range_fits \<lparr>vr_start = addr, vr_size = aligned\<rparr>"
  by (simp add: range_fits_def rend_def rstart_def)

lemma vmalloc_inv_restored:
  assumes inv: "vmalloc_inv s r F" and take: "take_range aligned (g_vmalloc_free s) = Some (addr, rs)"
    and al: "0 < aligned" "4096 dvd unat aligned"
    and m: "vm_inv m r F" "vm_env m = vm_env (va_vm s)"
      "\<And>q. length q = 4 \<Longrightarrow> leaf (ptview m) r q = leaf (ptview (va_vm s)) r q"
  shows "safely (vmalloc_free_range addr aligned (s\<lparr>g_vmalloc_free := rs, va_vm := m\<rparr>))
    (VMALLOC_MAX_RANGES \<le> length rs)
    (\<lambda>s'. vmalloc_inv s' r F \<and> range_bytes (g_vmalloc_free s') = range_bytes (g_vmalloc_free s) \<and> va_vm s' = m)"
proof -
  note B = taken_block [OF inv take al] and D = vmalloc_invD [OF inv]
  let ?s = "s\<lparr>g_vmalloc_free := rs, va_vm := m\<rparr>"
  have ok: "ranges_ok (g_vmalloc_free ?s)" using B(1) by simp
  have un: "range_bytes rs \<union> {unat addr ..< unat addr + unat aligned} = range_bytes (g_vmalloc_free s)"
    using B(2,3) by blast
  show ?thesis
  proof (rule safely_mono [OF vmalloc_free_range_spec [OF ok range_fits_block [OF al B(4,5)]]], goal_cases)
    case (2 s')
    then have s': "s' = ?s\<lparr>g_vmalloc_free := g_vmalloc_free s'\<rparr>" "ranges_ok (g_vmalloc_free s')"
      "range_bytes (g_vmalloc_free s') = range_bytes (g_vmalloc_free s)" using un by auto
    have f: "va_vm s' = m" "g_vmalloc_base s' = g_vmalloc_base s" "g_vmalloc_end s' = g_vmalloc_end s"
      "g_vmalloc_initialized s' = g_vmalloc_initialized s" by (subst s'(1), simp)+
    show ?case using D m s'(2,3) f env_root [OF m(2)] by (simp add: vmalloc_inv_def)
  qed simp
qed

lemma mult_4k_inj: "k \<le> n \<Longrightarrow> n < 2 ^ 52 \<Longrightarrow> unat (4096 * word_of_nat k :: u64) = 4096 * k"
proof -
  assume "k \<le> n" "n < 2 ^ 52"
  then show ?thesis using unat_mult_4k [of "word_of_nat k"] by (simp add: unat_word_of_nat_64 mult.commute)
qed

text \<open>
  The whole call, for a request that fits some free range: with four free pages per page asked for it
  succeeds; without, it may run out of memory for tables (and stop the kernel), run out of frames (and
  put everything back), or still succeed.
\<close>

lemma vmalloc_spec:
  assumes inv: "vmalloc_inv s r F" and fl: "flags_allowed flags" and sz: "sz \<noteq> 0" "sz \<le> aligned"
    and aldef: "aligned = align_up sz 4096"
    and take: "take_range aligned (g_vmalloc_free s) = Some (addr, rs)"
  shows "safely (vmalloc kend sz flags s) (card (pmm_avail (vm_pmm (va_vm s))) < 4 * (unat aligned div 4096))
    (\<lambda>(a, s').
       (a = addr \<and> g_vmalloc_free s' = rs \<and> (\<exists>fs. distinct fs \<and> set fs \<subseteq> pmm_avail (vm_pmm (va_vm s)) \<and>
          vmalloc_inv s' r (F \<union> set fs) \<and> vm_env (va_vm s') = vm_env (va_vm s) \<and>
          maps_frames r addr flags (step_range 4096 0 aligned) fs (va_vm s) (va_vm s'))) \<or>
       (a = 0 \<and> card (pmm_avail (vm_pmm (va_vm s))) < 4 * (unat aligned div 4096) \<and> vmalloc_inv s' r F \<and>
          range_bytes (g_vmalloc_free s') = range_bytes (g_vmalloc_free s) \<and>
          (\<forall>q. length q = 4 \<longrightarrow> leaf (ptview (va_vm s')) r q = leaf (ptview (va_vm s)) r q)))"
proof -
  let ?n = "unat aligned div 4096" and ?offs = "step_range 4096 0 aligned" and ?c = "card (pmm_avail (vm_pmm (va_vm s)))"
  have al: "0 < aligned" "4096 dvd unat aligned"
    using sz dvd_align_up_4k [of sz] by (auto simp: aldef word_neq_0_conv [symmetric] intro: gr0I)
  note B = taken_block [OF inv take al] and D = vmalloc_invD [OF inv]
  note P = taken_pages [OF inv take al]
  have n52: "?n < 2 ^ 52" using unat_lt_64 [of aligned] by simp
  show ?thesis unfolding vmalloc_unfold [OF inv sz aldef take]
  proof (rule safely_bind [OF vmalloc_map_spec [OF D(1) fl B(10) P(1,3,4)]], goal_cases)
    case 1
    then show ?case using P(2) by simp
  next
    case (2 x)
    then obtain m' m k fs where x: "x = (m', m)" and k: "k \<le> ?n" and m': "m' = 4096 * word_of_nat k"
      and fs: "distinct fs" "set fs \<subseteq> pmm_avail (vm_pmm (va_vm s))"
      and minv: "vm_inv m r (F \<union> set fs)" "vm_env m = vm_env (va_vm s)"
      and mf: "maps_frames r addr flags (take k ?offs) fs (va_vm s) m" and short: "k < ?n \<longrightarrow> ?c < 4 * ?n"
      using P(2) by (auto split: prod.splits)
    have um: "unat m' = 4096 * k" unfolding m' by (rule mult_4k_inj [OF k n52])
    then have eq: "m' = aligned \<longleftrightarrow> k = ?n" using al(2) by (auto simp: word_unat_eq_iff)
    show ?case
    proof (cases "k = ?n")
      case True
      then have "maps_frames r addr flags ?offs fs (va_vm s) m" using mf P(2) by simp
      then show ?thesis
        using True eq vmalloc_inv_taken [OF inv take al minv] fs minv(2) unfolding x by auto
    next
      case False
      then have lt: "k < ?n" and c: "?c < 4 * ?n" using k short by auto
      have tk: "step_range 4096 0 m' = take k ?offs"
        using lt um by (simp add: step_range_4k al(2) take_map)
      have dk: "distinct (pages_of addr (take k ?offs))" using P(1) by (simp add: pages_of_def take_map [symmetric] distinct_take)
      have ch: "\<forall>f \<in> set fs. child f = f" using fs(2) avail_page(1) [OF D(1)] by blast
      obtain m2 where m2: "fold_outcome (vmalloc_unmap r addr) (take k ?offs) m = Inr m2"
        "vm_inv m2 r (F \<union> set fs - set fs)" "vm_env m2 = vm_env m"
        "\<And>q. length q = 4 \<Longrightarrow> leaf (ptview m2) r q = (if q \<in> set (pages_of addr (take k ?offs)) then None else leaf (ptview m) r q)"
        using vmalloc_unmap_loop [OF maps_frames_maps_to [OF mf dk ch] minv(1) dk fs(1)] by blast
      have "F \<union> set fs - set fs = F" using fs(2) vm_invD(4) [OF D(1)] by blast
      then have inv2: "vm_inv m2 r F" "vm_env m2 = vm_env (va_vm s)" using m2(2,3) minv(2) by simp_all
      have same: "leaf (ptview m2) r q = leaf (ptview (va_vm s)) r q" if "length q = 4" for q
      proof (cases "q \<in> set (pages_of addr (take k ?offs))")
        case True
        then obtain off where "off \<in> set ?offs" "q = vpath (addr + off)" by (auto simp: pages_of_def dest: in_set_takeD)
        then show ?thesis using True m2(4) [OF that] P(3) by simp
      next
        case False
        then show ?thesis using m2(4) [OF that] maps_frames_other [OF mf that] by simp
      qed
      have run: "(if m' = aligned then Inr (addr, s\<lparr>g_vmalloc_free := rs, va_vm := m\<rparr>)
          else andthen (fold_outcome (vmalloc_unmap r addr) (step_range 4096 0 m') m)
            (\<lambda>m'. andthen (vmalloc_free_range addr aligned (s\<lparr>g_vmalloc_free := rs, va_vm := m'\<rparr>)) (\<lambda>s2. Inr (0, s2)))) =
          andthen (vmalloc_free_range addr aligned (s\<lparr>g_vmalloc_free := rs, va_vm := m2\<rparr>)) (\<lambda>s2. Inr (0, s2))"
        using False eq m2(1) tk by simp
      show ?thesis unfolding x prod.case run
        by (rule safely_bind [OF vmalloc_inv_restored [OF inv take al inv2 same]]) (use c same in auto)
    qed
  qed
qed

lemma block_page_of:
  fixes addr aligned v :: u64
  assumes "unat addr + unat aligned < 2 ^ 64" and "4096 dvd unat addr" and "4096 dvd unat aligned"
    and "4096 dvd unat v" and "unat v \<in> {unat addr ..< unat addr + unat aligned}"
  shows "\<exists>off \<in> set (step_range 4096 0 aligned). v = addr + off"
proof -
  define k where "k = (unat v - unat addr) div 4096"
  have d: "4096 dvd unat v - unat addr" using assms(2,4) by simp
  have uv: "unat v = unat addr + k * 4096" using d assms(5) by (simp add: k_def)
  have "k * 4096 < unat aligned" using uv assms(5) by simp
  then have k: "k < unat aligned div 4096" using assms(3) by (auto elim!: dvdE)
  have "v = addr + word_of_nat k * 4096" using block_page_unat [OF assms(1) k] uv by (simp add: word_unat_eq_iff)
  then show ?thesis using k by (auto simp: step_range_4k [OF assms(3)] intro!: bexI [of _ "word_of_nat k * 4096"])
qed

lemma vfree_accepts_block:
  assumes "unat (g_vmalloc_base s) \<le> unat addr" and "unat addr + unat aligned \<le> unat (g_vmalloc_end s)" and "0 < aligned"
  shows "vfree_accepts s addr aligned"
proof -
  have "unat (g_vmalloc_end s - aligned) = unat (g_vmalloc_end s) - unat aligned"
    using assms(2) by (simp add: unat_sub word_le_nat_alt)
  then show ?thesis using assms by (simp add: vfree_accepts_def word_less_nat_alt word_le_nat_alt)
qed

lemma vfree_spec:
  assumes inv: "vmalloc_inv s r (F \<union> set fs)" and fs: "distinct fs" "F \<inter> set fs = {}"
    and sz: "sz \<noteq> 0" "sz \<le> aligned" and aldef: "aligned = align_up sz 4096"
    and blk: "4096 dvd unat addr" "unat addr + unat aligned < 2 ^ 64" "unat (g_vmalloc_base s) \<le> unat addr"
      "unat addr + unat aligned \<le> unat (g_vmalloc_end s)"
    and mapped: "list_all2 (\<lambda>off f. maps_to (va_vm s) r (addr + off) f) (step_range 4096 0 aligned) fs"
  shows "safely (vfree addr sz s) (VMALLOC_MAX_RANGES \<le> length (g_vmalloc_free s)) (\<lambda>s'.
    vmalloc_inv s' r F \<and>
    range_bytes (g_vmalloc_free s') = range_bytes (g_vmalloc_free s) \<union> {unat addr ..< unat addr + unat aligned} \<and>
    set fs \<inter> pmm_managed (vm_pmm (va_vm s)) \<subseteq> pmm_avail (vm_pmm (va_vm s')) \<and>
    (\<forall>q. length q = 4 \<longrightarrow> leaf (ptview (va_vm s')) r q =
       (if q \<in> set (pages_of addr (step_range 4096 0 aligned)) then None else leaf (ptview (va_vm s)) r q)))"
proof -
  let ?offs = "step_range 4096 0 aligned"
  note D = vmalloc_invD [OF inv]
  have al: "0 < aligned" "4096 dvd unat aligned"
    using sz dvd_align_up_4k [of sz] by (auto simp: aldef word_neq_0_conv [symmetric] intro: gr0I)
  have "unat aligned \<le> 2 ^ 48" using blk(3,4) D(7) by simp
  note P = block_pages [OF blk(2,1) al(2) this]
  obtain m where m: "fold_outcome (vmalloc_unmap r addr) ?offs (va_vm s) = Inr m" "vm_inv m r (F \<union> set fs - set fs)"
    "vm_env m = vm_env (va_vm s)" "set fs \<inter> pmm_managed (vm_pmm (va_vm s)) \<subseteq> pmm_avail (vm_pmm m)"
    "\<And>q. length q = 4 \<Longrightarrow> leaf (ptview m) r q = (if q \<in> set (pages_of addr ?offs) then None else leaf (ptview (va_vm s)) r q)"
    using vmalloc_unmap_loop [OF mapped D(1) P(1) fs(1)] by blast
  have minv: "vm_inv m r F" using m(2) fs(2) by (simp add: Un_Diff Diff_triv)
  have a0: "addr \<noteq> 0" using blk(3) D(6) by (auto simp: word_less_nat_alt)
  have aal: "addr AND 4095 = 0" using blk(1) by (simp add: and_4095_zero mod_eq_0_iff_dvd)
  have run: "vfree addr sz s = vmalloc_free_range addr aligned (s\<lparr>va_vm := m\<rparr>)"
    using a0 aal sz(1) leD [OF sz(2)] D(2,3,4) vfree_accepts_block [OF blk(3,4) al(1)] m(1)
    by (simp add: vfree_def Let_def aldef [symmetric] paging_get_info_def)
  have ok: "ranges_ok (g_vmalloc_free (s\<lparr>va_vm := m\<rparr>))" using D(5) by simp
  show ?thesis unfolding run
  proof (rule safely_mono [OF vmalloc_free_range_spec [OF ok range_fits_block [OF al blk(1,2)]]], goal_cases)
    case (2 s')
    then have s': "s' = s\<lparr>va_vm := m, g_vmalloc_free := g_vmalloc_free s'\<rparr>" "ranges_ok (g_vmalloc_free s')"
      "range_bytes (g_vmalloc_free s') = range_bytes (g_vmalloc_free s) \<union> {unat addr ..< unat addr + unat aligned}" by auto
    have f: "va_vm s' = m" "g_vmalloc_base s' = g_vmalloc_base s" "g_vmalloc_end s' = g_vmalloc_end s"
      "g_vmalloc_initialized s' = g_vmalloc_initialized s" by (subst s'(1), simp)+
    have un: "leaf (ptview m) r (vpath v) = None" if v: "v AND 4095 = 0" "unat v \<in> range_bytes (g_vmalloc_free s')" for v
    proof (cases "unat v \<in> range_bytes (g_vmalloc_free s)")
      case True
      then show ?thesis using D(9) v(1) m(5) by simp
    next
      case False
      have "4096 dvd unat v" using v(1) by (simp add: and_4095_zero mod_eq_0_iff_dvd)
      then obtain off where "off \<in> set ?offs" "v = addr + off"
        using block_page_of [OF blk(2,1) al(2)] False v(2) s'(3) by blast
      then have "vpath v \<in> set (pages_of addr ?offs)" by (simp add: pages_of_def)
      then show ?thesis using m(5) by simp
    qed
    have win: "range_bytes (g_vmalloc_free s') \<subseteq> {unat (g_vmalloc_base s) ..< unat (g_vmalloc_end s)}"
      unfolding s'(3) using D(8) blk(3,4) by auto
    have "vmalloc_inv s' r F" using minv env_root [OF m(3)] D s'(2) f un win by (simp add: vmalloc_inv_def)
    then show ?case using s'(3) m(4,5) f(1) by simp
  qed simp
qed

lemma pages_translate:
  assumes inv: "vm_inv s r F" and m: "maps_to s r v f" and same: "same_page v w"
  shows "paging_translate s r w = Some (f OR (w AND 4095))"
  using m same by (auto simp: maps_to_def paging_translate_def vm_inv_translate [OF inv] same_page_iff leaf_addr_def child_def)

lemma other_translate:
  assumes inv: "vm_inv s r F" "vm_inv s' r F'"
    and "\<And>q. length q = 4 \<Longrightarrow> q \<notin> Q \<Longrightarrow> leaf (ptview s') r q = leaf (ptview s) r q" and "vpath w \<notin> Q"
  shows "paging_translate s' r w = paging_translate s r w"
  using assms(3) [of "vpath w"] assms(4) by (simp add: paging_translate_def vm_inv_translate [OF inv(1)] vm_inv_translate [OF inv(2)])

section \<open>Properties\<close>

text \<open>
  C5. With a free range that fits and four free pages for every page asked for, \<^verbatim>\<open>vmalloc\<close>
  returns a page-aligned block of previously free addresses; the block, and only it, leaves the free
  ranges; its pages are mapped one by one to as many different frames, all of them free before; every
  address outside the block translates as before, and the invariant holds with the frames in use.
\<close>

theorem vmalloc_allocates:
  assumes "vmalloc_inv s r F" and "flags_allowed flags" and "sz \<noteq> 0" and "sz \<le> align_up sz PMM_PAGE_SIZE"
    and "take_range (align_up sz PMM_PAGE_SIZE) (g_vmalloc_free s) = Some (addr, rs)"
    and "4 * (unat (align_up sz PMM_PAGE_SIZE) div 4096) \<le> card (pmm_avail (vm_pmm (va_vm s)))"
  shows "\<exists>s' fs. let aligned = align_up sz PMM_PAGE_SIZE; offs = step_range PMM_PAGE_SIZE 0 aligned in
    vmalloc kend sz flags s = Inr (addr, s') \<and> vmalloc_inv s' r (F \<union> set fs) \<and> addr AND (PMM_PAGE_SIZE - 1) = 0 \<and>
    {unat addr ..< unat addr + unat aligned} \<subseteq> range_bytes (g_vmalloc_free s) \<and>
    range_bytes (g_vmalloc_free s') = range_bytes (g_vmalloc_free s) - {unat addr ..< unat addr + unat aligned} \<and>
    distinct fs \<and> set fs \<subseteq> pmm_avail (vm_pmm (va_vm s)) \<and> length fs = unat aligned div 4096 \<and>
    (\<forall>i < length fs. \<forall>w. same_page (addr + offs ! i) w \<longrightarrow>
       paging_translate (va_vm s') r w = Some (fs ! i OR (w AND (PMM_PAGE_SIZE - 1)))) \<and>
    (\<forall>w. (\<forall>off \<in> set offs. \<not> same_page (addr + off) w) \<longrightarrow>
       paging_translate (va_vm s') r w = paging_translate (va_vm s) r w)"
proof -
  define aligned where "aligned = align_up sz 4096"
  let ?offs = "step_range 4096 0 aligned"
  have sz: "sz \<le> aligned" and take: "take_range aligned (g_vmalloc_free s) = Some (addr, rs)"
    and mem: "\<not> card (pmm_avail (vm_pmm (va_vm s))) < 4 * (unat aligned div 4096)"
    using assms(4-6) by (simp_all add: aligned_def)
  have al: "0 < aligned" "4096 dvd unat aligned"
    using assms(3) sz dvd_align_up_4k [of sz] by (auto simp: aligned_def word_neq_0_conv [symmetric] intro: gr0I)
  note B = taken_block [OF assms(1) take al] and P = taken_pages [OF assms(1) take al] and D = vmalloc_invD [OF assms(1)]
  obtain s' fs where s': "vmalloc kend sz flags s = Inr (addr, s')" "g_vmalloc_free s' = rs" "distinct fs"
    "set fs \<subseteq> pmm_avail (vm_pmm (va_vm s))" "vmalloc_inv s' r (F \<union> set fs)"
    "maps_frames r addr flags ?offs fs (va_vm s) (va_vm s')"
    using safely_returns [OF vmalloc_spec [OF assms(1-3) sz aligned_def take, of kend] mem] mem by auto
  note inv' = vmalloc_invD(1) [OF s'(5)]
  have ch: "\<forall>f \<in> set fs. child f = f" using s'(4) avail_page(1) [OF D(1)] by blast
  note M = maps_frames_maps_to [OF s'(6) P(1) ch]
  have len: "length fs = length ?offs" using list_all2_lengthD [OF M] by simp
  have "paging_translate (va_vm s') r w = Some (fs ! i OR (w AND 4095))"
    if "i < length fs" "same_page (addr + ?offs ! i) w" for i w
    using pages_translate [OF inv' list_all2_nthD2 [OF M that(1)] that(2)] .
  moreover have "paging_translate (va_vm s') r w = paging_translate (va_vm s) r w"
    if "\<forall>off \<in> set ?offs. \<not> same_page (addr + off) w" for w
    by (rule other_translate [OF D(1) inv' maps_frames_other [OF s'(6)]]) (use that in \<open>auto simp: pages_of_def same_page_iff\<close>)
  ultimately show ?thesis using s' B len P(2) unfolding aligned_def [symmetric] Let_def
    by (intro exI [of _ s'] exI [of _ fs]) simp
qed

text \<open>
  A machine for the witnesses: sixteen pages, the kernel in pages 2 and 3, the root table in page 3,
  the bitmap in page 0, the other thirteen pages free, and a window of four pages.
\<close>

definition demo16_pmm :: pmm where
  "demo16_pmm = \<lparr>g_bitmap = [0x0D, 0x00], g_bitmap_ptr = 0xFFFF800000000000,
     g_pmm_info = \<lparr>total_pages = 16, free_pages = 13, used_pages = 3, bitmap_bytes = 2,
       bitmap_phys_base = 0, highest_physical_address = 0x10000\<rparr>,
     g_next_search = 1, pmm_initialized = True\<rparr>"

definition demo_va :: vmalloc_state where
  "demo_va = \<lparr>va_vm = demo_vm\<lparr>vm_pmm := demo16_pmm,
       g_paging_info := (g_paging_info demo_vm)\<lparr>root_pml4_phys := 0x3000\<rparr>, vm_cr3 := 0x3000\<rparr>,
     g_vmalloc_free = [\<lparr>vr_start = 0xFFFF900000000000, vr_size = 0x4000\<rparr>],
     g_vmalloc_base = 0xFFFF900000000000, g_vmalloc_end = 0xFFFF900000004000, g_vmalloc_initialized = True\<rparr>"

lemma demo16_init: "pmm_init 0xFFFF800000000000 0x2000 0x4000
    (Some [\<lparr>mm_base = 0, mm_length = 0x10000, mm_type = MEMMAP_USABLE\<rparr>]) = Inr demo16_pmm"
  by code_simp

lemma demo16_ok: "pmm_ok demo16_pmm"
  using pmm_init_spec [OF demo16_init] by (simp add: pmm_ok_def)

lemma demo16_card: "card (pmm_avail demo16_pmm) = 13"
  using card_pmm_avail [OF demo16_ok] by (simp add: demo16_pmm_def)

lemma demo16_root: "0x3000 \<in> pmm_managed demo16_pmm" "0x3000 \<notin> pmm_avail demo16_pmm"
proof -
  show "0x3000 \<in> pmm_managed demo16_pmm"
    by (auto simp: pmm_managed_def demo16_pmm_def image_iff intro!: exI [of _ 3])
  have "p = 3" if "p \<in> free_set demo16_pmm" "p * 4096 = 0x3000" for p
  proof -
    have "unat p < 16" using that(1) by (simp add: free_set_def demo16_pmm_def word_less_nat_alt)
    then have "unat (p * 4096) = unat p * 4096" by (intro unat_mult_4k) simp
    then show ?thesis using that(2) by (simp add: word_unat_eq_iff)
  qed
  moreover have "3 \<notin> free_set demo16_pmm" unfolding free_set_def mem_Collect_eq by code_simp
  ultimately show "0x3000 \<notin> pmm_avail demo16_pmm" by (auto simp: pmm_avail_def)
qed

lemma demo_va_simps: "vm_pmm (va_vm demo_va) = demo16_pmm"
  "g_vmalloc_free demo_va = [\<lparr>vr_start = 0xFFFF900000000000, vr_size = 0x4000\<rparr>]"
  by (simp_all add: demo_va_def)

lemma demo_va_vm:
  shows "vm_inv (va_vm demo_va) 0x3000 {}" and "leaf (ptview (va_vm demo_va)) 0x3000 p = None"
proof -
  have z: "pmm_ok (vm_pmm (va_vm demo_va))" "unat (total_pages (g_pmm_info (vm_pmm (va_vm demo_va)))) \<le> 2 ^ 40"
    "child (0x3000) = 0x3000" "0x3000 \<in> pmm_managed (vm_pmm (va_vm demo_va))"
    "0x3000 \<notin> pmm_avail (vm_pmm (va_vm demo_va))" "vm_mem (va_vm demo_va) = (\<lambda>_. 0)"
    using demo16_ok demo16_root by (simp_all add: demo_va_simps child_def, simp_all add: demo16_pmm_def demo_va_def demo_vm_def)
  show "vm_inv (va_vm demo_va) 0x3000 {}" by (rule vm_inv_zero(1) [OF z])
  show "leaf (ptview (va_vm demo_va)) 0x3000 p = None" by (rule vm_inv_zero(3) [OF z])
qed

lemma demo_va_inv: "vmalloc_inv demo_va 0x3000 {}"
proof -
  have "ranges_ok (g_vmalloc_free demo_va)"
    "range_bytes (g_vmalloc_free demo_va) \<subseteq> {unat (g_vmalloc_base demo_va) ..< unat (g_vmalloc_end demo_va)}"
    by (simp_all add: demo_va_def ranges_ok_def range_fits_def range_bytes_def rend_def rstart_def)
  moreover have "root_pml4_phys (g_paging_info (va_vm demo_va)) = 0x3000" "g_vmalloc_initialized demo_va"
    "0 < g_vmalloc_base demo_va" "unat (g_vmalloc_end demo_va) \<le> unat (g_vmalloc_base demo_va) + 2 ^ 28"
    by (simp_all add: demo_va_def)
  ultimately show ?thesis unfolding vmalloc_inv_def using demo_va_vm by simp
qed

lemma demo_va_take: "take_range (align_up 0x1800 PMM_PAGE_SIZE) (g_vmalloc_free demo_va) =
    Some (0xFFFF900000000000, [\<lparr>vr_start = 0xFFFF900000002000, vr_size = 0x2000\<rparr>])"
  by (simp add: demo_va_def align_up_def)

theorem vmalloc_allocates_witness:
  "\<exists>s' f g. vmalloc 0 0x1800 PAGING_FLAG_WRITABLE demo_va = Inr (0xFFFF900000000000, s') \<and> f \<noteq> g \<and>
     paging_translate (va_vm s') 0x3000 0xFFFF900000001234 = Some (g OR 0x234)"
proof -
  have offs: "step_range PMM_PAGE_SIZE 0 (align_up 0x1800 PMM_PAGE_SIZE) = [0, 0x1000]"
    by code_simp
  have al: "align_up 0x1800 PMM_PAGE_SIZE = (0x2000 :: u64)" by (simp add: align_up_def)
  have m: "4 * (unat (align_up 0x1800 PMM_PAGE_SIZE) div 4096) \<le> card (pmm_avail (vm_pmm (va_vm demo_va)))"
    by (simp add: demo_va_simps demo16_card al)
  have le: "(0x1800 :: u64) \<le> align_up 0x1800 PMM_PAGE_SIZE" by (simp add: al)
  have fl: "flags_allowed PAGING_FLAG_WRITABLE" by (simp add: flags_allowed_def)
  have nz: "(0x1800 :: u64) \<noteq> 0" by simp
  note E = vmalloc_allocates [OF demo_va_inv fl nz le demo_va_take m, of 0, unfolded Let_def offs, unfolded al]
  obtain s' fs where "vmalloc 0 0x1800 PAGING_FLAG_WRITABLE demo_va = Inr (0xFFFF900000000000, s')"
    "distinct fs" "length fs = unat (0x2000 :: u64) div 4096"
    "\<forall>i < length fs. \<forall>w. same_page (0xFFFF900000000000 + [0, 0x1000] ! i) w \<longrightarrow>
       paging_translate (va_vm s') 0x3000 w = Some (fs ! i OR (w AND (PMM_PAGE_SIZE - 1)))"
    using E by blast
  moreover from this(4) [rule_format, of 1 "0xFFFF900000001234"] this(3)
  have "paging_translate (va_vm s') 0x3000 0xFFFF900000001234 = Some (fs ! 1 OR 0x234)"
    by (simp add: same_page_def)
  moreover have "fs ! 0 \<noteq> fs ! 1" using \<open>distinct fs\<close> \<open>length fs = unat (0x2000 :: u64) div 4096\<close> by (simp add: nth_eq_iff_index_eq)
  ultimately show ?thesis by blast
qed

lemma vmalloc_returned:
  assumes inv: "vmalloc_inv s r F" and run: "vmalloc kend sz flags s = Inr (addr, s')" and nz: "addr \<noteq> 0"
  shows "sz \<noteq> 0" and "sz \<le> align_up sz 4096"
    and "\<exists>rs. take_range (align_up sz 4096) (g_vmalloc_free s) = Some (addr, rs)"
    and "g_vmalloc_base s' = g_vmalloc_base s \<and> g_vmalloc_end s' = g_vmalloc_end s"
proof -
  show sz: "sz \<noteq> 0" using run nz by (auto simp: vmalloc_def)
  show le: "sz \<le> align_up sz 4096" using run nz sz by (auto simp: vmalloc_def Let_def not_less [symmetric])
  have once: "vmalloc_init_once_locked kend s = (True, s)"
    using vmalloc_invD(4) [OF inv] by (simp add: vmalloc_init_once_locked_def)
  obtain a rs where take: "take_range (align_up sz 4096) (g_vmalloc_free s) = Some (a, rs)"
  proof (cases "take_range (align_up sz 4096) (g_vmalloc_free s)")
    case None
    then have "vmalloc kend sz flags s = Inr (0, s)"
      using sz leD [OF le] unfolding vmalloc_def Let_def once prod.case None option.case by simp
    then show thesis using run nz by simp
  qed auto
  have "a = addr \<and> g_vmalloc_base s' = g_vmalloc_base s \<and> g_vmalloc_end s' = g_vmalloc_end s"
    using run nz unfolding vmalloc_unfold [OF inv sz le refl take]
    by (auto simp: andthen_def split: sum.splits if_splits)
  then show "\<exists>rs. take_range (align_up sz 4096) (g_vmalloc_free s) = Some (addr, rs)"
    and "g_vmalloc_base s' = g_vmalloc_base s \<and> g_vmalloc_end s' = g_vmalloc_end s" using take by auto
qed

text \<open>
  C7. Releasing a block undoes the allocation: after \<^verbatim>\<open>vmalloc\<close> has returned a block,
  \<^verbatim>\<open>vfree\<close> of it with the same size either returns or finds the array of free ranges
  full. When it returns, exactly the bytes free before the allocation are free again, every address
  translates as it did then, the frames of the block are free, and the invariant is the one that
  held before.
\<close>

theorem vmalloc_vfree_roundtrip:
  assumes "vmalloc_inv s r F" and "flags_allowed flags"
    and "vmalloc kend sz flags s = Inr (addr, s')" and "addr \<noteq> 0"
  shows "safely (vfree addr sz s') (length (g_vmalloc_free s') \<ge> VMALLOC_MAX_RANGES) (\<lambda>s''.
     vmalloc_inv s'' r F \<and>
     range_bytes (g_vmalloc_free s'') = range_bytes (g_vmalloc_free s) \<and>
     (\<forall>w. paging_translate (va_vm s'') r w = paging_translate (va_vm s) r w) \<and>
     (\<forall>off \<in> set (step_range PMM_PAGE_SIZE 0 (align_up sz PMM_PAGE_SIZE)).
        the (paging_translate (va_vm s') r (addr + off)) \<in> pmm_avail (vm_pmm (va_vm s''))))"
proof -
  define aligned where "aligned = align_up sz 4096"
  let ?offs = "step_range 4096 0 aligned"
  note R = vmalloc_returned [OF assms(1,3,4), folded aligned_def]
  note sz = R(1,2)
  obtain rs where take: "take_range aligned (g_vmalloc_free s) = Some (addr, rs)" using R(3) by blast
  have al: "0 < aligned" "4096 dvd unat aligned"
    using sz dvd_align_up_4k [of sz] by (auto simp: aligned_def word_neq_0_conv [symmetric] intro: gr0I)
  note B = taken_block [OF assms(1) take al] and P = taken_pages [OF assms(1) take al] and D = vmalloc_invD [OF assms(1)]
  obtain fs where fs: "g_vmalloc_free s' = rs" "distinct fs" "set fs \<subseteq> pmm_avail (vm_pmm (va_vm s))"
    "vmalloc_inv s' r (F \<union> set fs)" "vm_env (va_vm s') = vm_env (va_vm s)" "maps_frames r addr flags ?offs fs (va_vm s) (va_vm s')"
    using safely_InrD [OF vmalloc_spec [OF assms(1,2) sz aligned_def take] assms(3)] assms(4) by auto
  have ch: "\<forall>f \<in> set fs. child f = f" and man: "set fs \<subseteq> pmm_managed (vm_pmm (va_vm s'))"
    using fs(3) avail_page(1,4) [OF D(1)] fs(5) by (auto simp: vm_env_def)
  note M = maps_frames_maps_to [OF fs(6) P(1) ch] and D' = vmalloc_invD [OF fs(4)]
  have disj: "F \<inter> set fs = {}" using D(1) fs(3) by (auto simp: vm_inv_def)
  have run: "safely (vfree addr sz s') (VMALLOC_MAX_RANGES \<le> length (g_vmalloc_free s')) (\<lambda>s''.
    vmalloc_inv s'' r F \<and>
    range_bytes (g_vmalloc_free s'') = range_bytes (g_vmalloc_free s') \<union> {unat addr ..< unat addr + unat aligned} \<and>
    set fs \<inter> pmm_managed (vm_pmm (va_vm s')) \<subseteq> pmm_avail (vm_pmm (va_vm s'')) \<and>
    (\<forall>q. length q = 4 \<longrightarrow> leaf (ptview (va_vm s'')) r q =
       (if q \<in> set (pages_of addr ?offs) then None else leaf (ptview (va_vm s')) r q)))"
    using vfree_spec [OF fs(4,2) disj sz aligned_def B(4,5) _ _ M] B(8,9) R(4) by simp
  show ?thesis
  proof (rule safely_mono [OF run], goal_cases)
    case (2 s'')
    have "leaf (ptview (va_vm s'')) r q = leaf (ptview (va_vm s)) r q" if "length q = 4" for q
      using 2 P(3) maps_frames_other [OF fs(6) that] that by (auto simp: pages_of_def)
    then have tr: "paging_translate (va_vm s'') r w = paging_translate (va_vm s) r w" for w
      by (intro other_translate [OF D(1) vmalloc_invD(1) [OF conjunct1 [OF 2]], where Q = "{}"]) auto
    have "range_bytes (g_vmalloc_free s'') = range_bytes (g_vmalloc_free s)"
      using 2 fs(1) B(2,3) by auto
    moreover have "the (paging_translate (va_vm s') r (addr + off)) \<in> set fs" if "off \<in> set ?offs" for off
    proof -
      obtain i where i: "i < length ?offs" "off = ?offs ! i" using \<open>off \<in> set ?offs\<close> by (metis in_set_conv_nth)
      have "(addr + off) AND 4095 = 0" using P(4) \<open>off \<in> set ?offs\<close> by blast
      then have "paging_translate (va_vm s') r (addr + off) = Some (fs ! i)"
        using pages_translate [OF D'(1) list_all2_nthD [OF M i(1)], of "addr + off"] i(2) by (simp add: same_page_def)
      then show ?thesis using i(1) list_all2_lengthD [OF M] by simp
    qed
    ultimately show ?case using 2 tr man unfolding aligned_def by blast
  qed simp
qed
lemma demo_va_alloc:
  "\<exists>s'. vmalloc 0 0x1800 PAGING_FLAG_WRITABLE demo_va = Inr (0xFFFF900000000000, s') \<and>
     g_vmalloc_free s' = [\<lparr>vr_start = 0xFFFF900000002000, vr_size = 0x2000\<rparr>]"
proof -
  have al: "align_up 0x1800 PMM_PAGE_SIZE = (0x2000 :: u64)" by (simp add: align_up_def)
  have fl: "flags_allowed PAGING_FLAG_WRITABLE" by (simp add: flags_allowed_def)
  have sz: "(0x1800 :: u64) \<noteq> 0" "(0x1800 :: u64) \<le> 0x2000" by simp_all
  have m: "\<not> card (pmm_avail (vm_pmm (va_vm demo_va))) < 4 * (unat (0x2000 :: u64) div 4096)"
    by (simp add: demo_va_simps demo16_card)
  obtain x where x: "vmalloc 0 0x1800 PAGING_FLAG_WRITABLE demo_va = Inr x"
    and "fst x = 0xFFFF900000000000 \<and> g_vmalloc_free (snd x) = [\<lparr>vr_start = 0xFFFF900000002000, vr_size = 0x2000\<rparr>]"
    using safely_returns [OF vmalloc_spec [OF demo_va_inv fl sz al [symmetric] demo_va_take [unfolded al], of 0] m] m by auto
  then show ?thesis by (cases x) auto
qed

theorem vmalloc_vfree_roundtrip_witness:
  "\<exists>s' s''. vmalloc 0 0x1800 PAGING_FLAG_WRITABLE demo_va = Inr (0xFFFF900000000000, s') \<and>
     vfree 0xFFFF900000000000 0x1800 s' = Inr s'' \<and> range_bytes (g_vmalloc_free s'') = range_bytes (g_vmalloc_free demo_va)"
proof -
  have fl: "flags_allowed PAGING_FLAG_WRITABLE" by (simp add: flags_allowed_def)
  obtain s' where s': "vmalloc 0 0x1800 PAGING_FLAG_WRITABLE demo_va = Inr (0xFFFF900000000000, s')"
    "g_vmalloc_free s' = [\<lparr>vr_start = 0xFFFF900000002000, vr_size = 0x2000\<rparr>]" using demo_va_alloc by blast
  have "\<not> length (g_vmalloc_free s') \<ge> VMALLOC_MAX_RANGES" by (simp add: s'(2) VMALLOC_MAX_RANGES_def)
  then show ?thesis using safely_returns [OF vmalloc_vfree_roundtrip [OF demo_va_inv fl s'(1)]] s'(1) by auto
qed







text \<open>
  C15. Giving a range back keeps the free list in order: the ranges stay sorted, page-aligned,
  nonempty and apart from one another (two that meet are merged, however many the new range joins),
  and together they hold exactly the bytes they held before and those of the new range. The only
  other outcome is the panic when the array of 128 ranges is full.
\<close>

theorem vmalloc_free_range_coalesces:
  assumes "ranges_ok (g_vmalloc_free s)" and "range_fits \<lparr>vr_start = start, vr_size = sz\<rparr>"
  shows "if VMALLOC_MAX_RANGES \<le> length (g_vmalloc_free s)
    then vmalloc_free_range start sz s = Inl (Panic ''vmalloc: free list overflow'')
    else \<exists>rs. vmalloc_free_range start sz s = Inr (s\<lparr>g_vmalloc_free := rs\<rparr>) \<and> ranges_ok rs \<and>
      range_bytes rs = range_bytes (g_vmalloc_free s) \<union> {unat start ..< unat start + unat sz}"
proof (cases "VMALLOC_MAX_RANGES \<le> length (g_vmalloc_free s)")
  case True
  moreover have "sz \<noteq> 0" using assms(2) by (auto simp: range_fits_def)
  ultimately show ?thesis by (simp add: vmalloc_free_range_def)
next
  case False
  then obtain s' where "vmalloc_free_range start sz s = Inr s'" "s' = s\<lparr>g_vmalloc_free := g_vmalloc_free s'\<rparr>"
    "ranges_ok (g_vmalloc_free s')"
    "range_bytes (g_vmalloc_free s') = range_bytes (g_vmalloc_free s) \<union> {unat start ..< unat start + unat sz}"
    using safely_returns [OF vmalloc_free_range_spec [OF assms]] by blast
  then show ?thesis using False by (metis (no_types))
qed

theorem vmalloc_free_range_coalesces_witness:
  "\<exists>rs. vmalloc_free_range 0xFFFF900000004000 0x1000 demo_va = Inr (demo_va\<lparr>g_vmalloc_free := rs\<rparr>) \<and> ranges_ok rs \<and>
     range_bytes rs = {0xFFFF900000000000 ..< 0xFFFF900000005000}"
proof -
  have ok: "ranges_ok (g_vmalloc_free demo_va)" "range_fits \<lparr>vr_start = 0xFFFF900000004000, vr_size = 0x1000\<rparr>"
    using demo_va_inv by (simp_all add: vmalloc_inv_def range_fits_def rend_def rstart_def)
  have "range_bytes (g_vmalloc_free demo_va) = {0xFFFF900000000000 ..< 0xFFFF900000004000}"
    by (simp add: demo_va_def range_bytes_def rstart_def rend_def)
  moreover have "{0xFFFF900000000000 ..< 0xFFFF900000004000} \<union> {0xFFFF900000004000 ..< 0xFFFF900000005000} =
      {0xFFFF900000000000 ..< 0xFFFF900000005000 :: nat}" by (rule ivl_disj_un_two(3)) simp_all
  ultimately show ?thesis
    using vmalloc_free_range_coalesces [OF ok] by (simp add: demo_va_simps VMALLOC_MAX_RANGES_def)
qed

lemma unat_sub_wrap: "unat a < unat b \<Longrightarrow> unat (a - b) = 2 ^ 64 + unat a - unat b" for a b :: u64
  by (simp add: unat_sub_if')

text \<open>
  C25. What the range check of \<^verbatim>\<open>vfree\<close> accepts. For a size up to the end of the window it
  is exact: the block lies in the window. For a larger size the subtraction wraps around, and the
  check accepts blocks that reach up to a whole address space beyond the window.
\<close>

theorem vfree_range_check:
  "vfree_accepts s start aligned \<longleftrightarrow>
     unat (g_vmalloc_base s) \<le> unat start \<and> unat start < unat (g_vmalloc_end s) \<and>
     unat start + unat aligned \<le> (if unat aligned \<le> unat (g_vmalloc_end s) then 0 else 2 ^ 64) + unat (g_vmalloc_end s)"
proof (cases "aligned \<le> g_vmalloc_end s")
  case True
  then have "unat (g_vmalloc_end s - aligned) = unat (g_vmalloc_end s) - unat aligned"
    "unat aligned \<le> unat (g_vmalloc_end s)" by (simp_all add: unat_sub word_le_nat_alt)
  then show ?thesis by (auto simp: vfree_accepts_def word_less_nat_alt word_le_nat_alt not_less)
next
  case False
  then have "unat (g_vmalloc_end s - aligned) = 2 ^ 64 + unat (g_vmalloc_end s) - unat aligned"
    "\<not> unat aligned \<le> unat (g_vmalloc_end s)"
    by (simp_all add: word_le_nat_alt unat_sub_wrap)
  moreover have "unat aligned < 2 ^ 64" using unsigned_less [of aligned] by simp
  ultimately show ?thesis
    by (auto simp: vfree_accepts_def word_less_nat_alt word_le_nat_alt not_less)
qed

end
