(* ===== verification/Kmalloc.thy ===== *)
theory Kmalloc
  imports Vmalloc
begin

text \<open>
  The kernel heap, \<^verbatim>\<open>mm/kmalloc.c\<close>: pools of 4 MiB obtained from \<^verbatim>\<open>vmalloc\<close>, cut into
  blocks with a header in front of each, the free ones on a doubly linked list. Headers live in a
  store indexed by address and are linked by pointers, as in the code; 0 is the null pointer. Loops
  that follow pointers are partial functions whose value is \<open>None\<close> when they do not end. Calls run
  under \<^verbatim>\<open>g_kmalloc_lock\<close> and are single steps.
\<close>

section \<open>State\<close>

definition KMALLOC_POOL_SIZE :: u64 where "KMALLOC_POOL_SIZE = 4 * 1024 * 1024"
abbreviation KMALLOC_ALIGN :: u64 where "KMALLOC_ALIGN \<equiv> 16"
abbreviation BLOCK_HEADER :: u64 where "BLOCK_HEADER \<equiv> 48"
definition KMALLOC_MIN_SPLIT :: u64 where "KMALLOC_MIN_SPLIT = BLOCK_HEADER + KMALLOC_ALIGN"
definition KMALLOC_MAGIC_FREE :: u32 where "KMALLOC_MAGIC_FREE = 0xFEEBEEFD"
definition KMALLOC_MAGIC_USED :: u32 where "KMALLOC_MAGIC_USED = 0xDEADBEEF"
definition VMALLOC_DEFAULT_FLAGS :: u64 where
  "VMALLOC_DEFAULT_FLAGS = PAGING_FLAG_WRITABLE OR PAGING_FLAG_GLOBAL"

record kmalloc_block =
  kb_magic :: u32
  kb_free :: u32
  kb_size :: u64
  next_phys :: u64
  next_free :: u64
  prev_free :: u64

type_synonym block_store = "u64 \<Rightarrow> kmalloc_block"

record kmalloc_state =
  km_va :: vmalloc_state
  km_heap :: block_store
  g_free_list :: u64
  g_initialized :: bool

definition upd_block :: "u64 \<Rightarrow> (kmalloc_block \<Rightarrow> kmalloc_block) \<Rightarrow> kmalloc_state \<Rightarrow> kmalloc_state" where
  "upd_block b f s = s\<lparr>km_heap := (km_heap s)(b := f (km_heap s b))\<rparr>"

section \<open>Operations\<close>

definition free_list_insert :: "u64 \<Rightarrow> kmalloc_state \<Rightarrow> kmalloc_state" where
  "free_list_insert b s =
     (let s1 = upd_block b (\<lambda>k. k\<lparr>kb_free := 1, kb_magic := KMALLOC_MAGIC_FREE,
                                   next_free := g_free_list s, prev_free := 0\<rparr>) s;
          s2 = (if g_free_list s1 \<noteq> 0 then upd_block (g_free_list s1) (\<lambda>k. k\<lparr>prev_free := b\<rparr>) s1 else s1)
      in s2\<lparr>g_free_list := b\<rparr>)"

definition free_list_remove :: "u64 \<Rightarrow> kmalloc_state \<Rightarrow> kmalloc_state" where
  "free_list_remove b s =
     (let s1 = (if prev_free (km_heap s b) \<noteq> 0
                then upd_block (prev_free (km_heap s b)) (\<lambda>k. k\<lparr>next_free := next_free (km_heap s b)\<rparr>) s
                else s\<lparr>g_free_list := next_free (km_heap s b)\<rparr>);
          s2 = (if next_free (km_heap s1 b) \<noteq> 0
                then upd_block (next_free (km_heap s1 b)) (\<lambda>k. k\<lparr>prev_free := prev_free (km_heap s1 b)\<rparr>) s1
                else s1)
      in upd_block b (\<lambda>k. k\<lparr>next_free := 0, prev_free := 0\<rparr>) s2)"

definition expand_pool :: "u64 \<Rightarrow> kmalloc_state \<Rightarrow> (bool \<times> kmalloc_state) outcome" where
  "expand_pool kernel_virtual_end s =
     andthen (vmalloc kernel_virtual_end KMALLOC_POOL_SIZE VMALLOC_DEFAULT_FLAGS (km_va s)) (\<lambda>(pool, va).
       if pool = 0 then Inr (False, s\<lparr>km_va := va\<rparr>)
       else Inr (True, free_list_insert pool
              (upd_block pool (\<lambda>k. k\<lparr>kb_size := KMALLOC_POOL_SIZE - BLOCK_HEADER, next_phys := 0\<rparr>)
                 (s\<lparr>km_va := va\<rparr>))))"

definition kmalloc_init_locked :: "u64 \<Rightarrow> kmalloc_state \<Rightarrow> (bool \<times> kmalloc_state) outcome" where
  "kmalloc_init_locked kernel_virtual_end s =
     (if g_initialized s then Inr (True, s)
      else andthen (expand_pool kernel_virtual_end s) (\<lambda>(ok, s1).
        if \<not> ok then Inr (False, s1) else Inr (True, s1\<lparr>g_initialized := True\<rparr>)))"

definition kmalloc_init :: "u64 \<Rightarrow> kmalloc_state \<Rightarrow> kmalloc_state outcome" where
  "kmalloc_init kernel_virtual_end s = andthen (kmalloc_init_locked kernel_virtual_end s) (\<lambda>(ok, s1). Inr s1)"

text \<open>The search along the free list: the first block that is large enough, or 0.\<close>

partial_function (option) find_fit :: "block_store \<Rightarrow> u64 \<Rightarrow> u64 \<Rightarrow> u64 option" where
  "find_fit h sz b =
     (if b = 0 then Some 0
      else if kb_size (h b) < sz then find_fit h sz (next_free (h b))
      else Some b)"

definition hand_out :: "u64 \<Rightarrow> u64 \<Rightarrow> kmalloc_state \<Rightarrow> u64 \<times> kmalloc_state" where
  "hand_out b sz s =
     (let leftover = kb_size (km_heap s b) - sz;
          s1 = (if KMALLOC_MIN_SPLIT \<le> leftover
                then
                  let split = b + BLOCK_HEADER + sz;
                      t1 = upd_block split (\<lambda>k. k\<lparr>kb_size := leftover - BLOCK_HEADER,
                                                   next_phys := next_phys (km_heap s b)\<rparr>) s;
                      t2 = upd_block b (\<lambda>k. k\<lparr>next_phys := split, kb_size := sz\<rparr>) t1
                  in free_list_insert split t2
                else s);
          s2 = free_list_remove b s1
      in (b + BLOCK_HEADER, upd_block b (\<lambda>k. k\<lparr>kb_free := 0, kb_magic := KMALLOC_MAGIC_USED\<rparr>) s2))"

definition kmalloc :: "u64 \<Rightarrow> u64 \<Rightarrow> kmalloc_state \<Rightarrow> (u64 \<times> kmalloc_state) outcome option" where
  "kmalloc kernel_virtual_end sz s =
     (if sz = 0 then Some (Inr (0, s))
      else case kmalloc_init_locked kernel_virtual_end s of
        Inl h \<Rightarrow> Some (Inl h)
      | Inr (ok, s0) \<Rightarrow>
          if \<not> ok then Some (Inr (0, s0))
          else
            let sz = align_up sz KMALLOC_ALIGN
            in case find_fit (km_heap s0) sz (g_free_list s0) of
                 None \<Rightarrow> None
               | Some b \<Rightarrow>
                   if b \<noteq> 0 then Some (Inr (hand_out b sz s0))
                   else case expand_pool kernel_virtual_end s0 of
                     Inl h \<Rightarrow> Some (Inl h)
                   | Inr (ok, s1) \<Rightarrow>
                       if \<not> ok then Some (Inr (0, s1))
                       else case find_fit (km_heap s1) sz (g_free_list s1) of
                         None \<Rightarrow> None
                       | Some b \<Rightarrow> Some (Inr (if b \<noteq> 0 then hand_out b sz s1 else (0, s1))))"

text \<open>One round of the coalescing loop of \<^verbatim>\<open>kfree\<close>, and the loop.\<close>

definition absorb_one :: "u64 \<Rightarrow> kmalloc_state \<Rightarrow> kmalloc_state" where
  "absorb_one block s =
     (let nxt = next_phys (km_heap s block);
          s1 = free_list_remove nxt s;
          s2 = upd_block block (\<lambda>k. k\<lparr>kb_size := kb_size k + (BLOCK_HEADER + kb_size (km_heap s1 nxt))\<rparr>) s1;
          s3 = upd_block block (\<lambda>k. k\<lparr>next_phys := next_phys (km_heap s2 nxt)\<rparr>) s2
      in upd_block nxt (\<lambda>k. k\<lparr>kb_magic := 0\<rparr>) s3)"

partial_function (option) absorb :: "u64 \<Rightarrow> kmalloc_state \<Rightarrow> kmalloc_state option" where
  "absorb block s =
     (if next_phys (km_heap s block) \<noteq> 0 \<and> kb_free (km_heap s (next_phys (km_heap s block))) \<noteq> 0
      then absorb block (absorb_one block s)
      else Some s)"

definition kfree :: "u64 \<Rightarrow> kmalloc_state \<Rightarrow> kmalloc_state option" where
  "kfree ptr s =
     (if ptr = 0 then Some s
      else
        let block = ptr - BLOCK_HEADER
        in if kb_magic (km_heap s block) = KMALLOC_MAGIC_FREE then Some s
           else if kb_magic (km_heap s block) \<noteq> KMALLOC_MAGIC_USED then Some s
           else if kb_free (km_heap s block) \<noteq> 0 then Some s
           else absorb block (free_list_insert block s))"

declare find_fit.simps [code] absorb.simps [code]

section \<open>The free list\<close>

text \<open>
  A segment of the doubly linked list: the blocks \<open>bs\<close>, the first reached by the pointer \<open>f\<close>
  and pointing back to \<open>p\<close>, the last one being \<open>l\<close> and pointing on to \<open>t\<close>.
\<close>

fun dls :: "block_store \<Rightarrow> u64 \<Rightarrow> u64 \<Rightarrow> u64 list \<Rightarrow> u64 \<Rightarrow> u64 \<Rightarrow> bool" where
  "dls h p f [] l t \<longleftrightarrow> p = l \<and> f = t"
| "dls h p f (b # bs) l t \<longleftrightarrow> f = b \<and> b \<noteq> 0 \<and> prev_free (h b) = p \<and> dls h b (next_free (h b)) bs l t"

definition free_list :: "block_store \<Rightarrow> u64 \<Rightarrow> u64 list \<Rightarrow> bool" where
  "free_list h f bs \<longleftrightarrow> (\<exists>l. dls h 0 f bs l 0) \<and> distinct bs"

lemma dls_append: "dls h p f (xs @ ys) l t \<longleftrightarrow> (\<exists>m k. dls h p f xs m k \<and> dls h m k ys l t)"
  by (induction xs arbitrary: p f) auto

lemma dls_cong: "(\<And>b. b \<in> set xs \<Longrightarrow> next_free (h' b) = next_free (h b) \<and> prev_free (h' b) = prev_free (h b)) \<Longrightarrow>
    dls h' p f xs l t \<longleftrightarrow> dls h p f xs l t"
  by (induction xs arbitrary: p f) auto

lemma dls_last: "dls h p f xs m t \<Longrightarrow> m = (if xs = [] then p else last xs) \<and> (xs \<noteq> [] \<longrightarrow> m \<noteq> 0)"
  by (induction xs arbitrary: p f) auto

lemma dls_retarget:
  "dls h p f xs m t \<Longrightarrow> xs \<noteq> [] \<Longrightarrow> distinct xs \<Longrightarrow> dls (h(m := (h m)\<lparr>next_free := t'\<rparr>)) p f xs m t'"
proof (induction xs arbitrary: p f)
  case (Cons b bs)
  show ?case
  proof (cases "bs = []")
    case True
    then show ?thesis using Cons.prems by auto
  next
    case False
    then have "m \<noteq> b" using Cons.prems dls_last [of h b "next_free (h b)" bs m t] by (metis distinct.simps(2) dls.simps(2) last_in_set)
    then show ?thesis using Cons False by simp
  qed
qed simp

lemma dls_reprev:
  "dls h p f xs l t \<Longrightarrow> xs \<noteq> [] \<Longrightarrow> distinct xs \<Longrightarrow>
     \<exists>y ys. xs = y # ys \<and> dls (h(y := (h y)\<lparr>prev_free := p'\<rparr>)) p' f xs l t"
proof -
  assume a: "dls h p f xs l t" "xs \<noteq> []" "distinct xs"
  then obtain y ys where xs: "xs = y # ys" by (cases xs) auto
  have "dls (h(y := (h y)\<lparr>prev_free := p'\<rparr>)) y (next_free (h y)) ys l t"
    using a xs by (subst dls_cong [where h = h]) auto
  then show ?thesis using a xs by auto
qed

text \<open>What the list operations leave alone: sizes and the chain of neighbours, and everything of the other blocks' status.\<close>

definition same_shape :: "block_store \<Rightarrow> block_store \<Rightarrow> bool" where
  "same_shape h h' \<longleftrightarrow> (\<forall>c. kb_size (h' c) = kb_size (h c) \<and> next_phys (h' c) = next_phys (h c))"

definition same_status :: "u64 set \<Rightarrow> block_store \<Rightarrow> block_store \<Rightarrow> bool" where
  "same_status C h h' \<longleftrightarrow> (\<forall>c. c \<notin> C \<longrightarrow> kb_free (h' c) = kb_free (h c) \<and> kb_magic (h' c) = kb_magic (h c))"

definition same_rest :: "kmalloc_state \<Rightarrow> kmalloc_state \<Rightarrow> bool" where
  "same_rest s s' \<longleftrightarrow> km_va s' = km_va s \<and> g_initialized s' = g_initialized s"

lemma free_list_insert_frame:
  "same_shape (km_heap s) (km_heap (free_list_insert b s))"
  "same_status {b} (km_heap s) (km_heap (free_list_insert b s))"
  "same_rest s (free_list_insert b s)"
  "kb_free (km_heap (free_list_insert b s) b) = 1" "kb_magic (km_heap (free_list_insert b s) b) = KMALLOC_MAGIC_FREE"
  by (auto simp: free_list_insert_def upd_block_def same_shape_def same_status_def same_rest_def Let_def)

lemma free_list_remove_frame:
  "same_shape (km_heap s) (km_heap (free_list_remove b s))"
  "same_status {} (km_heap s) (km_heap (free_list_remove b s))"
  "same_rest s (free_list_remove b s)"
  by (auto simp: free_list_remove_def upd_block_def same_shape_def same_status_def same_rest_def Let_def)

lemma free_list_insert_spec:
  assumes "free_list (km_heap s) (g_free_list s) fl" and "b \<noteq> 0" and "b \<notin> set fl"
  shows "free_list (km_heap (free_list_insert b s)) (g_free_list (free_list_insert b s)) (b # fl)"
proof -
  let ?h = "(km_heap s)(b := (km_heap s b)\<lparr>kb_free := 1, kb_magic := KMALLOC_MAGIC_FREE,
                                   next_free := g_free_list s, prev_free := 0\<rparr>)"
  obtain l where l: "dls (km_heap s) 0 (g_free_list s) fl l 0" "distinct fl" using assms(1) by (auto simp: free_list_def)
  then have d: "dls ?h 0 (g_free_list s) fl l 0" using assms(3) by (subst dls_cong [where h = "km_heap s"]) auto
  show ?thesis
  proof (cases fl)
    case Nil
    then show ?thesis using l assms(2) by (auto simp: free_list_def free_list_insert_def upd_block_def Let_def)
  next
    case (Cons y ys)
    then have y: "g_free_list s = y" "y \<noteq> 0" "y \<noteq> b" using d assms(3) by auto
    have "dls (?h(y := (?h y)\<lparr>prev_free := b\<rparr>)) b (g_free_list s) fl l 0"
      using dls_reprev [OF d _ l(2), of b] Cons by auto
    moreover have "km_heap (free_list_insert b s) = ?h(y := (?h y)\<lparr>prev_free := b\<rparr>)" "g_free_list (free_list_insert b s) = b"
      using y by (simp_all add: free_list_insert_def upd_block_def Let_def)
    ultimately show ?thesis unfolding free_list_def using assms(2,3) y l(2) by auto
  qed
qed

lemma dls_nonzero: "dls h p f xs l t \<Longrightarrow> 0 \<notin> set xs"
  by (induction xs arbitrary: p f) auto

lemma free_list_remove_spec:
  assumes "free_list (km_heap s) (g_free_list s) fl" and "b \<in> set fl"
  shows "free_list (km_heap (free_list_remove b s)) (g_free_list (free_list_remove b s)) (remove1 b fl)"
proof -
  let ?h = "km_heap s"
  obtain xs ys where fl: "fl = xs @ b # ys" "b \<notin> set xs" using split_list_first [OF assms(2)] by blast
  obtain l where l: "dls ?h 0 (g_free_list s) fl l 0" and dist: "distinct fl" using assms(1) by (auto simp: free_list_def)
  obtain m where m: "dls ?h 0 (g_free_list s) xs m b" "b \<noteq> 0" "prev_free (?h b) = m" "dls ?h b (next_free (?h b)) ys l 0"
    using l by (auto simp: fl dls_append)
  let ?n = "next_free (?h b)"
  have mx: "m = (if xs = [] then 0 else last xs)" "xs \<noteq> [] \<longrightarrow> m \<noteq> 0" using dls_last [OF m(1)] by auto
  have nb: "m \<noteq> b" using mx fl(2) m(2) by (metis last_in_set)
  have nh: "?n = (if ys = [] then 0 else hd ys)" using m(4) by (cases ys) auto
  have n0: "ys \<noteq> [] \<Longrightarrow> ?n \<noteq> 0" using m(4) by (cases ys) auto
  have nn: "?n \<noteq> b" using nh dist fl m(2) by (cases ys) auto
  let ?h1 = "if m \<noteq> 0 then ?h(m := (?h m)\<lparr>next_free := ?n\<rparr>) else ?h"
  let ?f1 = "if m \<noteq> 0 then g_free_list s else ?n"
  have my: "m \<notin> set ys" using mx dist dls_nonzero [OF m(4)] by (cases "xs = []") (auto simp: fl disjoint_iff)
  have d1: "dls ?h1 0 ?f1 xs m ?n"
    using dls_retarget [OF m(1), of ?n] mx dist m(1) by (cases "xs = []") (auto simp: fl)
  have d2: "dls ?h1 b ?n ys l 0" using m(4) my by (subst dls_cong [where h = ?h]) auto
  have h1b: "?h1 b = ?h b" using nb by simp
  let ?h2 = "if ?n \<noteq> 0 then ?h1(?n := (?h1 ?n)\<lparr>prev_free := m\<rparr>) else ?h1"
  have nx: "?n \<notin> set xs" using nh dist dls_nonzero [OF m(1)] by (cases ys) (auto simp: fl)
  have e1: "dls ?h2 0 ?f1 xs m ?n" using d1 nx by (subst dls_cong [where h = ?h1]) auto
  have e2: "\<exists>l'. dls ?h2 m ?n ys l' 0"
  proof (cases ys)
    case Nil
    then show ?thesis using nh by auto
  next
    case (Cons y zs)
    then show ?thesis using dls_reprev [OF d2, of m] nh n0 dist by (auto simp: fl)
  qed
  let ?h3 = "?h2(b := (?h2 b)\<lparr>next_free := 0, prev_free := 0\<rparr>)"
  have "km_heap (free_list_remove b s) = ?h3" "g_free_list (free_list_remove b s) = ?f1"
    using m(3) nb nn by (auto simp: free_list_remove_def upd_block_def Let_def)
  moreover have "dls ?h3 0 ?f1 xs m ?n" using e1 fl(2) by (subst dls_cong [where h = ?h2]) auto
  moreover have "\<exists>l'. dls ?h3 m ?n ys l' 0"
  proof -
    have "dls ?h3 m ?n ys l' 0 \<longleftrightarrow> dls ?h2 m ?n ys l' 0" for l'
      using dist by (intro dls_cong) (auto simp: fl)
    then show ?thesis using e2 by blast
  qed
  moreover have "remove1 b fl = xs @ ys" using fl by (simp add: remove1_append)
  ultimately show ?thesis unfolding free_list_def using dist fl(1) by (auto simp: dls_append)
qed

section \<open>The heap invariant\<close>

text \<open>
  \<open>B\<close> are the headers in use as headers and \<open>R\<close> the bytes of the pools: the blocks, headers
  included, tile \<open>R\<close>, and a block's neighbour pointer, if any, leads to the block right behind it.
\<close>

definition block_end :: "block_store \<Rightarrow> u64 \<Rightarrow> nat" where
  "block_end h b = unat b + 48 + unat (kb_size (h b))"

definition extent :: "block_store \<Rightarrow> u64 \<Rightarrow> nat set" where
  "extent h b = {unat b ..< block_end h b}"

definition block_ok :: "block_store \<Rightarrow> u64 set \<Rightarrow> u64 \<Rightarrow> bool" where
  "block_ok h B b \<longleftrightarrow> b \<noteq> 0 \<and> 16 dvd unat b \<and> 16 dvd unat (kb_size (h b)) \<and> block_end h b < 2 ^ 64 \<and>
     (next_phys (h b) \<noteq> 0 \<longrightarrow> next_phys (h b) \<in> B \<and> unat (next_phys (h b)) = block_end h b)"

definition tiled :: "block_store \<Rightarrow> u64 set \<Rightarrow> nat set \<Rightarrow> bool" where
  "tiled h B R \<longleftrightarrow> finite B \<and> (\<forall>b \<in> B. block_ok h B b) \<and>
     (\<forall>b \<in> B. \<forall>c \<in> B. b \<noteq> c \<longrightarrow> extent h b \<inter> extent h c = {}) \<and> (\<Union>b \<in> B. extent h b) = R"

definition marked :: "block_store \<Rightarrow> u64 set \<Rightarrow> u64 list \<Rightarrow> bool" where
  "marked h B fl \<longleftrightarrow> set fl \<subseteq> B \<and>
     (\<forall>b \<in> B. if b \<in> set fl then kb_free (h b) = 1 \<and> kb_magic (h b) = KMALLOC_MAGIC_FREE
              else kb_free (h b) = 0 \<and> kb_magic (h b) = KMALLOC_MAGIC_USED)"

definition heap_ok :: "block_store \<Rightarrow> u64 \<Rightarrow> u64 set \<Rightarrow> nat set \<Rightarrow> u64 list \<Rightarrow> bool" where
  "heap_ok h f B R fl \<longleftrightarrow> tiled h B R \<and> marked h B fl \<and> free_list h f fl"

text \<open>The abstract heap: the pointers handed out and not yet freed, with the sizes of their blocks.\<close>

definition live :: "block_store \<Rightarrow> u64 set \<Rightarrow> u64 \<rightharpoonup> u64" where
  "live h B p = (if p - BLOCK_HEADER \<in> B \<and> kb_free (h (p - BLOCK_HEADER)) = 0
                 then Some (kb_size (h (p - BLOCK_HEADER))) else None)"

lemma self_extent: "unat b \<in> extent h b"
  by (simp add: extent_def block_end_def)

lemma tiled_overlap: "tiled h B R \<Longrightarrow> b \<in> B \<Longrightarrow> c \<in> B \<Longrightarrow> x \<in> extent h b \<Longrightarrow> x \<in> extent h c \<Longrightarrow> b = c"
  by (auto simp: tiled_def)

lemma tiled_ok: "tiled h B R \<Longrightarrow> b \<in> B \<Longrightarrow> block_ok h B b"
  by (simp add: tiled_def)

lemma tiled_shape: "same_shape h h' \<Longrightarrow> tiled h' B R = tiled h B R"
  by (simp add: tiled_def same_shape_def block_ok_def extent_def block_end_def)

lemma tiled_add:
  assumes "tiled h B R" and "a \<notin> B" and "\<And>c. c \<in> B \<Longrightarrow> kb_size (h' c) = kb_size (h c) \<and> next_phys (h' c) = next_phys (h c)"
    and "block_ok h' {} a" and "extent h' a \<inter> R = {}"
  shows "tiled h' (insert a B) (R \<union> extent h' a)"
proof -
  have same: "extent h' c = extent h c" if "c \<in> B" for c using assms(3) [OF that] by (simp add: extent_def block_end_def)
  have "block_ok h' (insert a B) b" if "b \<in> B" for b
    using tiled_ok [OF assms(1) that] assms(3) [OF that] by (auto simp: block_ok_def block_end_def)
  moreover have "block_ok h' (insert a B) a" using assms(4) by (auto simp: block_ok_def)
  moreover have "(\<Union>b \<in> insert a B. extent h' b) = R \<union> extent h' a"
    using assms(1) same by (auto simp: tiled_def)
  moreover have "extent h' a \<inter> extent h' c = {}" if "c \<in> B" for c
    using assms(1,5) same [OF that] that by (auto simp: tiled_def)
  ultimately show ?thesis using assms(1) same by (auto simp: tiled_def Int_commute)
qed

lemma split_fresh:
  assumes t: "tiled h B R" and b: "b \<in> B" and sz: "unat sz + 64 \<le> unat (kb_size (h b))"
  shows "b + 48 + sz \<notin> B" and "b + 48 + sz \<noteq> 0" and "unat (b + 48 + sz) = unat b + 48 + unat sz" and "b + 48 + sz \<noteq> b"
proof -
  let ?c = "b + 48 + sz"
  note ok = tiled_ok [OF t b, unfolded block_ok_def block_end_def]
  show uc: "unat ?c = unat b + 48 + unat sz" using ok sz by (subst unat_plus_if')+ auto
  then show "?c \<noteq> 0" and cb: "?c \<noteq> b" by (metis add_is_0 numeral_eq_iff unat_eq_0 zero_neq_numeral, force)
  have "unat ?c \<in> extent h b" using uc sz by (simp add: extent_def block_end_def)
  then show "?c \<notin> B" using tiled_overlap [OF t b _ _ self_extent] cb by metis
qed

lemma tiled_split:
  assumes t: "tiled h B R" and b: "b \<in> B" and sz: "16 dvd unat sz" "unat sz + 64 \<le> unat (kb_size (h b))"
  defines "c \<equiv> b + 48 + sz"
  assumes h': "kb_size (h' b) = sz" "next_phys (h' b) = c" "kb_size (h' c) = kb_size (h b) - sz - 48"
    "next_phys (h' c) = next_phys (h b)"
    "\<And>x. x \<in> B \<Longrightarrow> x \<noteq> b \<Longrightarrow> kb_size (h' x) = kb_size (h x) \<and> next_phys (h' x) = next_phys (h x)"
  shows "tiled h' (insert c B) R"
proof -
  note ok = tiled_ok [OF t b, unfolded block_ok_def block_end_def]
  note c = split_fresh [OF t b sz(2), folded c_def]
  note uc = c(3)
  have us: "unat (kb_size (h' c)) = unat (kb_size (h b)) - unat sz - 48"
    unfolding h'(3) using sz(2) by (simp add: unat_sub word_le_nat_alt)
  have eb: "block_end h' b = unat c" "block_end h' c = block_end h b"
    using uc us h'(1) sz(2) by (simp_all add: block_end_def)
  have ex: "extent h' x = extent h x" if "x \<in> B" "x \<noteq> b" for x using h'(5) [OF that] by (simp add: extent_def block_end_def)
  have un: "extent h b = extent h' b \<union> extent h' c" "extent h' b \<inter> extent h' c = {}"
    using eb uc us sz(2) by (auto simp: extent_def block_end_def)
  have "block_ok h' (insert c B) x" if "x \<in> B" "x \<noteq> b" for x
    using tiled_ok [OF t that(1)] h'(5) [OF that] by (auto simp: block_ok_def block_end_def)
  moreover have "block_ok h' (insert c B) b" using ok h'(1,2) sz eb by (auto simp: block_ok_def block_end_def)
  moreover have "block_ok h' (insert c B) c"
    using ok h'(4) sz eb(2) uc us c(2) by (auto simp: block_ok_def block_end_def)
  moreover have "extent h' x \<inter> extent h' y = {}" if "x \<in> insert c B" "y \<in> insert c B" "x \<noteq> y" for x y
  proof -
    have B: "extent h u \<inter> extent h v = {}" if "u \<in> B" "v \<in> B" "u \<noteq> v" for u v using t that by (simp add: tiled_def)
    have "extent h' u \<inter> (extent h' b \<union> extent h' c) = {}" if "u \<in> B" "u \<noteq> b" for u
      using B [OF that(1) b that(2)] ex [OF that] un(1) by simp
    then show ?thesis using that B ex un(2) by (cases "x = b \<or> x = c"; cases "y = b \<or> y = c") auto
  qed
  moreover have "(\<Union>x \<in> insert c B. extent h' x) = R"
  proof -
    have "(\<Union>x \<in> insert c B. extent h' x) = (extent h' b \<union> extent h' c) \<union> (\<Union>x \<in> B - {b}. extent h' x)" using b by auto
    also have "\<dots> = extent h b \<union> (\<Union>x \<in> B - {b}. extent h x)" using un(1) ex by simp
    also have "\<dots> = R" using t b by (auto simp: tiled_def)
    finally show ?thesis .
  qed
  ultimately show "tiled h' (insert c B) R" using t by (auto simp: tiled_def)
qed

lemma tiled_merge:
  assumes t: "tiled h B R" and b: "b \<in> B" and n: "n = next_phys (h b)" "n \<noteq> 0"
  assumes h': "kb_size (h' b) = kb_size (h b) + (48 + kb_size (h n))" "next_phys (h' b) = next_phys (h n)"
    "\<And>x. x \<in> B \<Longrightarrow> x \<noteq> b \<Longrightarrow> x \<noteq> n \<Longrightarrow> kb_size (h' x) = kb_size (h x) \<and> next_phys (h' x) = next_phys (h x)"
  shows "n \<in> B" and "n \<noteq> b" and "tiled h' (B - {n}) R"
proof -
  note ok = tiled_ok [OF t b, unfolded block_ok_def]
  show nB: "n \<in> B" and nb: "n \<noteq> b" using ok n by (auto simp: block_end_def)
  note okn = tiled_ok [OF t nB, unfolded block_ok_def]
  have un: "unat n = unat b + 48 + unat (kb_size (h b))" using ok n by (simp add: block_end_def)
  have us: "unat (kb_size (h' b)) = unat (kb_size (h b)) + 48 + unat (kb_size (h n))"
    unfolding h'(1) using okn un by (subst unat_plus_if')+ (auto simp: block_end_def)
  have eb: "block_end h' b = block_end h n" using un us by (simp add: block_end_def)
  have ex: "extent h' x = extent h x" if "x \<in> B - {b, n}" for x using h'(3) [of x] that by (simp add: extent_def block_end_def)
  have xb: "extent h' b = extent h b \<union> extent h n" using eb un by (auto simp: extent_def block_end_def)
  have nn: "next_phys (h n) \<noteq> n" using okn by (auto simp: block_end_def)
  have "block_ok h' (B - {n}) x" if x: "x \<in> B - {b, n}" for x
  proof -
    have "next_phys (h x) \<noteq> n"
    proof
      assume "next_phys (h x) = n"
      then have "block_end h x = block_end h b" using tiled_ok [OF t, of x] x n ok by (auto simp: block_ok_def)
      then have "block_end h b - 1 \<in> extent h x" "block_end h b - 1 \<in> extent h b"
        by (simp_all add: extent_def) (simp_all add: block_end_def)
      then show False using tiled_overlap [OF t _ b] x by blast
    qed
    then show ?thesis using tiled_ok [OF t, of x] h'(3) [of x] x by (auto simp: block_ok_def block_end_def)
  qed
  moreover have "block_ok h' (B - {n}) b" using ok okn nn eb us by (auto simp: block_ok_def h'(2))
  moreover have "extent h' x \<inter> extent h' y = {}" if "x \<in> B - {n}" "y \<in> B - {n}" "x \<noteq> y" for x y
  proof -
    have B: "extent h u \<inter> extent h v = {}" if "u \<in> B" "v \<in> B" "u \<noteq> v" for u v using t that by (simp add: tiled_def)
    show ?thesis using that B [of b y] B [of x b] B [of n y] B [of x n] B [of x y] b nB ex xb
      by (cases "x = b"; cases "y = b") auto
  qed
  moreover have "(\<Union>x \<in> B - {n}. extent h' x) = R"
  proof -
    have "(\<Union>x \<in> B - {n}. extent h' x) = extent h' b \<union> (\<Union>x \<in> B - {b, n}. extent h' x)" using b nb by auto
    also have "\<dots> = extent h b \<union> extent h n \<union> (\<Union>x \<in> B - {b, n}. extent h x)" using xb ex by simp
    also have "\<dots> = R" using t b nB by (auto simp: tiled_def)
    finally show ?thesis .
  qed
  ultimately show "tiled h' (B - {n}) R" using t unfolding tiled_def by auto
qed

section \<open>The operations on a well-formed heap\<close>

lemma find_fit_spec:
  assumes "dls h p f fl l 0"
  shows "\<exists>b. find_fit h sz f = Some b \<and>
    (if b = 0 then \<forall>c \<in> set fl. kb_size (h c) < sz else b \<in> set fl \<and> sz \<le> kb_size (h b))"
  using assms
proof (induction fl arbitrary: p f)
  case Nil
  then show ?case by (subst find_fit.simps) simp
next
  case (Cons c fl)
  then have f: "f = c" "c \<noteq> 0" "dls h c (next_free (h c)) fl l 0" by auto
  show ?case
  proof (cases "kb_size (h c) < sz")
    case True
    then have "find_fit h sz f = find_fit h sz (next_free (h c))" using f by (subst find_fit.simps) simp
    then show ?thesis using Cons.IH [OF f(3)] True by (auto split: if_splits)
  next
    case False
    then have "find_fit h sz f = Some c" using f by (subst find_fit.simps) simp
    then show ?thesis using False f(2) by auto
  qed
qed

lemma heap_okD:
  assumes "heap_ok h f B R fl"
  shows "tiled h B R" "marked h B fl" "free_list h f fl" "finite B" "distinct fl" "set fl \<subseteq> B"
    "b \<in> B \<Longrightarrow> b \<noteq> 0" "b \<in> B \<Longrightarrow> kb_free (h b) = (if b \<in> set fl then 1 else 0)"
    "b \<in> B \<Longrightarrow> kb_magic (h b) = (if b \<in> set fl then KMALLOC_MAGIC_FREE else KMALLOC_MAGIC_USED)"
  using assms by (auto simp: heap_ok_def marked_def tiled_def block_ok_def free_list_def split: if_splits)

lemma marked_upd:
  assumes "marked h B fl" and "set fl' \<subseteq> B'"
    and "\<And>x. x \<in> B' \<Longrightarrow> x \<noteq> a \<Longrightarrow> x \<in> B \<and> (x \<in> set fl' \<longleftrightarrow> x \<in> set fl) \<and>
       kb_free (h' x) = kb_free (h x) \<and> kb_magic (h' x) = kb_magic (h x)"
    and "a \<in> B' \<Longrightarrow> if a \<in> set fl' then kb_free (h' a) = 1 \<and> kb_magic (h' a) = KMALLOC_MAGIC_FREE
              else kb_free (h' a) = 0 \<and> kb_magic (h' a) = KMALLOC_MAGIC_USED"
  shows "marked h' B' fl'"
  unfolding marked_def
proof (intro conjI ballI)
  fix x
  assume x: "x \<in> B'"
  show "if x \<in> set fl' then kb_free (h' x) = 1 \<and> kb_magic (h' x) = KMALLOC_MAGIC_FREE
              else kb_free (h' x) = 0 \<and> kb_magic (h' x) = KMALLOC_MAGIC_USED"
    using assms(1) assms(3) [OF x] assms(4) x by (cases "x = a") (auto simp: marked_def)
qed (fact assms(2))

lemma hand_out_spec:
  assumes ok: "heap_ok (km_heap s) (g_free_list s) B R fl" and b: "b \<in> set fl" "sz \<le> kb_size (km_heap s b)"
    and sz: "16 dvd unat sz"
  shows "\<exists>s' B' fl'. hand_out b sz s = (b + 48, s') \<and> heap_ok (km_heap s') (g_free_list s') B' R fl' \<and> same_rest s s' \<and>
    B \<subseteq> B' \<and> set fl' = (B' - B) \<union> (set fl - {b}) \<and> sz \<le> kb_size (km_heap s' b) \<and>
    (\<forall>c \<in> B. c \<noteq> b \<longrightarrow> kb_size (km_heap s' c) = kb_size (km_heap s c))"
proof -
  note D = heap_okD [OF ok]
  let ?h = "km_heap s" and ?left = "kb_size (km_heap s b) - sz" and ?c = "b + 48 + sz"
  let ?t = "upd_block b (\<lambda>k. k\<lparr>next_phys := ?c, kb_size := sz\<rparr>)
     (upd_block ?c (\<lambda>k. k\<lparr>kb_size := ?left - 48, next_phys := next_phys (?h b)\<rparr>) s)"
  define s1 where "s1 = (if KMALLOC_MIN_SPLIT \<le> ?left then free_list_insert ?c ?t else s)"
  have bB: "b \<in> B" using b(1) D(6) by blast
  have "\<exists>B1 fl1. heap_ok (km_heap s1) (g_free_list s1) B1 R fl1 \<and> same_rest s s1 \<and> B \<subseteq> B1 \<and>
    set fl1 = (B1 - B) \<union> set fl \<and> sz \<le> kb_size (km_heap s1 b) \<and>
    (\<forall>c \<in> B. c \<noteq> b \<longrightarrow> kb_size (km_heap s1 c) = kb_size (km_heap s c))"
  proof (cases "KMALLOC_MIN_SPLIT \<le> ?left")
    case False
    then show ?thesis using ok b by (auto simp: s1_def same_rest_def)
  next
    case True
    have left: "unat sz + 64 \<le> unat (kb_size (?h b))"
      using True b(2) by (simp add: KMALLOC_MIN_SPLIT_def word_le_nat_alt unat_sub)
    note c = split_fresh [OF D(1) bB left]
    have shape: "kb_size (km_heap ?t b) = sz" "next_phys (km_heap ?t b) = ?c" "kb_size (km_heap ?t ?c) = kb_size (?h b) - sz - 48"
      "next_phys (km_heap ?t ?c) = next_phys (?h b)" using c(4) by (simp_all add: upd_block_def)
    have other: "km_heap ?t x = ?h x" if "x \<in> B" "x \<noteq> b" for x
    proof -
      have "x \<noteq> ?c" using that c(1) by blast
      then show ?thesis using that by (simp add: upd_block_def)
    qed
    note F = free_list_insert_frame [where b = ?c and s = ?t] and s1 = s1_def [unfolded if_P [OF True]]
    have "tiled (km_heap ?t) (insert ?c B) R" by (rule tiled_split [OF D(1) bB sz left shape]) (simp add: other)
    then have t: "tiled (km_heap s1) (insert ?c B) R" using tiled_shape [OF F(1)] s1 by simp
    have fr: "next_free (km_heap ?t x) = next_free (?h x) \<and> prev_free (km_heap ?t x) = prev_free (?h x)" for x
      using c(4) by (simp add: upd_block_def)
    have "free_list (km_heap ?t) (g_free_list ?t) fl"
      using D(3) dls_cong [of fl "km_heap ?t" ?h] fr by (simp add: free_list_def) (simp add: upd_block_def)
    then have f: "free_list (km_heap s1) (g_free_list s1) (?c # fl)"
      unfolding s1 by (rule free_list_insert_spec) (use c D(6) in auto)
    have st: "kb_free (km_heap s1 x) = kb_free (?h x) \<and> kb_magic (km_heap s1 x) = kb_magic (?h x)" if "x \<noteq> ?c" for x
      using F(2) that c(4) unfolding s1 same_status_def by (simp add: upd_block_def)
    have m: "marked (km_heap s1) (insert ?c B) (?c # fl)"
    proof (rule marked_upd [OF D(2), where a = ?c])
      show "set (?c # fl) \<subseteq> insert ?c B" using D(6) by auto
    qed (use st c(1) F(4,5) s1 in auto)
    have sh: "kb_size (km_heap s1 x) = kb_size (km_heap ?t x)" for x using F(1) unfolding s1 same_shape_def by simp
    have "same_rest s s1" using F(3) unfolding s1 same_rest_def by (simp add: upd_block_def)
    then show ?thesis using t f m c(1) sh shape(1) other
      by (intro exI [of _ "insert ?c B"] exI [of _ "?c # fl"]) (auto simp: heap_ok_def)
  qed
  then obtain B1 fl1 where 1: "heap_ok (km_heap s1) (g_free_list s1) B1 R fl1" "same_rest s s1" "B \<subseteq> B1"
    "set fl1 = (B1 - B) \<union> set fl" "sz \<le> kb_size (km_heap s1 b)"
    "\<forall>c \<in> B. c \<noteq> b \<longrightarrow> kb_size (km_heap s1 c) = kb_size (km_heap s c)" by blast
  note D1 = heap_okD [OF 1(1)] and G = free_list_remove_frame [where b = b and s = s1]
  let ?s2 = "free_list_remove b s1"
  let ?s3 = "upd_block b (\<lambda>k. k\<lparr>kb_free := 0, kb_magic := KMALLOC_MAGIC_USED\<rparr>) ?s2"
  have run: "hand_out b sz s = (b + 48, ?s3)" by (simp add: hand_out_def s1_def Let_def)
  have b1: "b \<in> set fl1" using 1(4) b(1) by simp
  have sh: "same_shape (km_heap s1) (km_heap ?s3)" using G(1) by (auto simp: same_shape_def upd_block_def)
  have f: "free_list (km_heap ?s3) (g_free_list ?s3) (remove1 b fl1)"
    using free_list_remove_spec [OF D1(3) b1] dls_cong [of "remove1 b fl1" "km_heap ?s3" "km_heap ?s2"]
    by (simp add: free_list_def upd_block_def)
  have m: "marked (km_heap ?s3) B1 (remove1 b fl1)"
  proof (rule marked_upd [OF D1(2), where a = b])
    show "set (remove1 b fl1) \<subseteq> B1" using D1(6) set_remove1_subset [of b fl1] by blast
  qed (use D1(5) G(2) in \<open>auto simp: upd_block_def same_status_def\<close>)
  have "heap_ok (km_heap ?s3) (g_free_list ?s3) B1 R (remove1 b fl1)"
    using f m D1(1) tiled_shape [OF sh] by (simp add: heap_ok_def)
  moreover have "same_rest s ?s3" using 1(2) G(3) by (simp add: same_rest_def upd_block_def)
  moreover have "set (remove1 b fl1) = (B1 - B) \<union> (set fl - {b})" using 1(4) D1(5) bB by auto
  ultimately show ?thesis using run 1(3,5,6) sh unfolding same_shape_def
    by (intro exI [of _ ?s3] exI [of _ B1] exI [of _ "remove1 b fl1"]) simp
qed

lemma absorb_one_spec:
  assumes ok: "heap_ok (km_heap s) (g_free_list s) B R fl" and b: "b \<in> set fl"
    and n: "n = next_phys (km_heap s b)" "n \<noteq> 0" "kb_free (km_heap s n) \<noteq> 0"
  shows "n \<in> set fl" and "n \<noteq> b"
    and "heap_ok (km_heap (absorb_one b s)) (g_free_list (absorb_one b s)) (B - {n}) R (remove1 n fl)"
    and "same_rest s (absorb_one b s)"
    and "c \<noteq> b \<Longrightarrow> kb_size (km_heap (absorb_one b s) c) = kb_size (km_heap s c)"
proof -
  note D = heap_okD [OF ok]
  let ?h = "km_heap s" and ?s1 = "free_list_remove n s" and ?s' = "absorb_one b s"
  note G = free_list_remove_frame [where b = n and s = s]
  have bB: "b \<in> B" using b D(6) by blast
  have nB: "n \<in> B" "n \<noteq> b" using tiled_ok [OF D(1) bB] n(1,2) by (auto simp: block_ok_def block_end_def)
  then show nf: "n \<in> set fl" "n \<noteq> b" using D(8) [OF nB(1)] n(3) by (auto split: if_splits)
  have sh: "kb_size (km_heap ?s1 x) = kb_size (?h x)" "next_phys (km_heap ?s1 x) = next_phys (?h x)" for x
    using G(1) by (simp_all add: same_shape_def)
  have run: "?s' = upd_block n (\<lambda>k. k\<lparr>kb_magic := 0\<rparr>) (upd_block b (\<lambda>k. k\<lparr>next_phys := next_phys (?h n)\<rparr>)
      (upd_block b (\<lambda>k. k\<lparr>kb_size := kb_size k + (48 + kb_size (?h n))\<rparr>) ?s1))"
    using nB(2) by (simp add: absorb_one_def Let_def n(1) [symmetric] sh) (simp add: upd_block_def sh)
  have hs: "kb_size (km_heap ?s' x) = (if x = b then kb_size (?h b) + (48 + kb_size (?h n)) else kb_size (?h x))"
    "next_phys (km_heap ?s' x) = (if x = b then next_phys (?h n) else next_phys (?h x))"
    "kb_free (km_heap ?s' x) = kb_free (?h x)" "x \<noteq> n \<Longrightarrow> kb_magic (km_heap ?s' x) = kb_magic (?h x)"
    "next_free (km_heap ?s' x) = next_free (km_heap ?s1 x)" "prev_free (km_heap ?s' x) = prev_free (km_heap ?s1 x)" for x
    using nB(2) G(2) by (auto simp: run upd_block_def sh same_status_def)
  show "c \<noteq> b \<Longrightarrow> kb_size (km_heap ?s' c) = kb_size (?h c)" by (simp add: hs)
  have "tiled (km_heap ?s') (B - {n}) R" by (rule tiled_merge(3) [OF D(1) bB n(1,2)]) (use nB(2) in \<open>auto simp: hs\<close>)
  moreover have "marked (km_heap ?s') (B - {n}) (remove1 n fl)"
  proof (rule marked_upd [OF D(2), where a = n])
    show "set (remove1 n fl) \<subseteq> B - {n}" using D(5,6) by auto
  qed (use D(5) hs in auto)
  moreover have "free_list (km_heap ?s') (g_free_list ?s') (remove1 n fl)"
  proof -
    have "g_free_list ?s' = g_free_list ?s1" by (simp add: run upd_block_def)
    then show ?thesis using free_list_remove_spec [OF D(3) nf(1)] dls_cong [of "remove1 n fl" "km_heap ?s'" "km_heap ?s1"] hs(5,6)
      by (simp add: free_list_def)
  qed
  ultimately show "heap_ok (km_heap ?s') (g_free_list ?s') (B - {n}) R (remove1 n fl)" by (simp add: heap_ok_def)
  show "same_rest s ?s'" using G(3) by (simp add: run same_rest_def upd_block_def)
qed

text \<open>The coalescing loop ends, for every round removes a block; what is free stays free.\<close>

lemma absorb_spec:
  assumes "heap_ok (km_heap s) (g_free_list s) B R fl" and "b \<in> set fl"
  shows "\<exists>s' B' fl'. absorb b s = Some s' \<and> heap_ok (km_heap s') (g_free_list s') B' R fl' \<and> same_rest s s' \<and>
    b \<in> set fl' \<and> B' - set fl' = B - set fl \<and> (\<forall>c. c \<noteq> b \<longrightarrow> kb_size (km_heap s' c) = kb_size (km_heap s c))"
  using assms
proof (induction "card B" arbitrary: s B fl rule: less_induct)
  case less
  let ?n = "next_phys (km_heap s b)"
  note D = heap_okD [OF less.prems(1)]
  show ?case
  proof (cases "?n \<noteq> 0 \<and> kb_free (km_heap s ?n) \<noteq> 0")
    case False
    then have "absorb b s = Some s" by (subst absorb.simps) (simp only: if_False)
    then show ?thesis using less.prems by (auto simp: same_rest_def)
  next
    case True
    note A = absorb_one_spec [OF less.prems refl conjunct1 [OF True] conjunct2 [OF True]]
    have "card (B - {?n}) < card B" using A(1) D(4,6) by (meson card_Diff1_less subsetD)
    moreover have "b \<in> set (remove1 ?n fl)" using less.prems(2) A(2) by simp
    ultimately obtain s' B' fl' where s': "absorb b (absorb_one b s) = Some s'" "heap_ok (km_heap s') (g_free_list s') B' R fl'"
      "same_rest (absorb_one b s) s'" "b \<in> set fl'" "B' - set fl' = (B - {?n}) - set (remove1 ?n fl)"
      "\<forall>c. c \<noteq> b \<longrightarrow> kb_size (km_heap s' c) = kb_size (km_heap (absorb_one b s) c)"
      using less.hyps [OF _ A(3)] by blast
    have "absorb b s = Some s'" using True s'(1) by (subst absorb.simps) simp
    moreover have "B' - set fl' = B - set fl" using s'(5) D(5) A(1) by auto
    moreover have "same_rest s s'" using s'(3) A(4) by (simp add: same_rest_def)
    ultimately show ?thesis using s'(2,4,6) A(5) by (intro exI [of _ s'] exI [of _ B'] exI [of _ fl']) auto
  qed
qed

lemma live_unfold: "heap_ok h f B R fl \<Longrightarrow>
    live h B p = (if p - 48 \<in> B - set fl then Some (kb_size (h (p - 48))) else None)"
  by (auto simp: live_def heap_okD(8))

lemma live_ptr:
  assumes "heap_ok h f B R fl" and "b \<in> B"
  shows "unat (b + 48) = unat b + 48" and "b + 48 \<noteq> 0" and "16 dvd unat (b + 48)"
proof -
  note ok = tiled_ok [OF heap_okD(1) [OF assms(1)] assms(2), unfolded block_ok_def block_end_def]
  show u: "unat (b + 48) = unat b + 48" using ok by (subst unat_plus_if') auto
  show "b + 48 \<noteq> 0" using u by (metis add_is_0 unat_eq_0 zero_neq_numeral)
  show "16 dvd unat (b + 48)" using ok by (simp add: u)
qed

lemma live_region:
  assumes "heap_ok h f B R fl" and "live h B p = Some n"
  shows "p \<noteq> 0" and "16 dvd unat p" and "{unat p ..< unat p + unat n} \<subseteq> extent h (p - 48)" and "p - 48 \<in> B"
    and "unat p + unat n < 2 ^ 64"
proof -
  have p: "p - 48 \<in> B" "n = kb_size (h (p - 48))" using assms by (auto simp: live_def split: if_splits)
  show "p - 48 \<in> B" by (fact p)
  note L = live_ptr [OF assms(1) p(1), simplified] and ok = tiled_ok [OF heap_okD(1) [OF assms(1)] p(1)]
  show "p \<noteq> 0" "16 dvd unat p" using L by auto
  show "{unat p ..< unat p + unat n} \<subseteq> extent h (p - 48)" using L(1) by (auto simp: extent_def block_end_def p)
  show "unat p + unat n < 2 ^ 64" using ok L(1) by (simp add: block_ok_def block_end_def p(2))
qed

lemma live_disjoint:
  assumes "heap_ok h f B R fl" and "live h B p = Some n" and "live h B q = Some m" and "p \<noteq> q"
  shows "{unat p ..< unat p + unat n} \<inter> {unat q ..< unat q + unat m} = {}"
proof -
  note P = live_region [OF assms(1,2)] and Q = live_region [OF assms(1,3)]
  have "p - 48 \<noteq> q - 48" using assms(4) by simp
  then have "extent h (p - 48) \<inter> extent h (q - 48) = {}"
    using heap_okD(1) [OF assms(1)] P(4) Q(4) unfolding tiled_def by blast
  then show ?thesis using P(3) Q(3) by blast
qed

lemma kfree_spec:
  assumes ok: "heap_ok (km_heap s) (g_free_list s) B R fl" and p: "live (km_heap s) B p = Some n"
  shows "\<exists>s' B' fl'. kfree p s = Some s' \<and> heap_ok (km_heap s') (g_free_list s') B' R fl' \<and> same_rest s s' \<and>
    live (km_heap s') B' = (live (km_heap s) B)(p := None) \<and> kb_magic (km_heap s' (p - 48)) = KMALLOC_MAGIC_FREE"
proof -
  let ?b = "p - 48" and ?s1 = "free_list_insert (p - 48) s"
  note D = heap_okD [OF ok] and F = free_list_insert_frame [where b = ?b and s = s]
  have b: "?b \<in> B" "?b \<notin> set fl" using p by (auto simp: live_unfold [OF ok] split: if_splits)
  have "marked (km_heap ?s1) B (?b # fl)"
  proof (rule marked_upd [OF D(2), where a = ?b])
    show "set (?b # fl) \<subseteq> B" using D(6) b(1) by simp
  qed (use F(2,4,5) in \<open>auto simp: same_status_def\<close>)
  then have ok1: "heap_ok (km_heap ?s1) (g_free_list ?s1) B R (?b # fl)"
    using D(1) tiled_shape [OF F(1)] free_list_insert_spec [OF D(3) D(7) [OF b(1)] b(2)] by (simp add: heap_ok_def)
  obtain s' B' fl' where s': "absorb ?b ?s1 = Some s'" "heap_ok (km_heap s') (g_free_list s') B' R fl'" "same_rest ?s1 s'"
    "?b \<in> set fl'" "B' - set fl' = B - set (?b # fl)" "\<forall>c. c \<noteq> ?b \<longrightarrow> kb_size (km_heap s' c) = kb_size (km_heap ?s1 c)"
    using absorb_spec [OF ok1, of ?b, OF list.set_intros(1)] by blast
  have "KMALLOC_MAGIC_USED \<noteq> KMALLOC_MAGIC_FREE" by (simp add: KMALLOC_MAGIC_USED_def KMALLOC_MAGIC_FREE_def)
  then have "kfree p s = Some s'"
    using live_region(1) [OF ok p] D(8,9) [OF b(1)] b(2) s'(1) by (simp add: kfree_def Let_def)
  moreover have "same_rest s s'" using s'(3) F(3) by (simp add: same_rest_def)
  moreover have "live (km_heap s') B' q = ((live (km_heap s) B)(p := None)) q" for q
    unfolding fun_upd_apply live_unfold [OF s'(2)] live_unfold [OF ok] s'(5)
    using s'(6) F(1) by (auto simp: same_shape_def)
  moreover have "kb_magic (km_heap s' ?b) = KMALLOC_MAGIC_FREE"
    using heap_okD(9) [OF s'(2), of ?b] heap_okD(6) [OF s'(2)] s'(4) by auto
  ultimately show ?thesis using s'(2) by blast
qed

section \<open>Where the pools come from\<close>

definition va_ok :: "vmalloc_state \<Rightarrow> bool" where
  "va_ok va \<longleftrightarrow> (\<exists>r F. vmalloc_inv va r F)"

lemma pool_flags: "flags_allowed VMALLOC_DEFAULT_FLAGS"
  by (simp add: flags_allowed_def VMALLOC_DEFAULT_FLAGS_def)

lemma pool_size: "align_up KMALLOC_POOL_SIZE 4096 = KMALLOC_POOL_SIZE" "unat KMALLOC_POOL_SIZE = 4194304" "KMALLOC_POOL_SIZE \<noteq> 0"
  by (simp_all add: KMALLOC_POOL_SIZE_def align_up_def)

lemma vmalloc_pool:
  assumes inv: "vmalloc_inv va r F"
  shows "safely (vmalloc kend KMALLOC_POOL_SIZE VMALLOC_DEFAULT_FLAGS va) (card (pmm_avail (vm_pmm (va_vm va))) < 4096)
    (\<lambda>(a, va'). va_ok va' \<and>
      (if a = 0 then range_bytes (g_vmalloc_free va') = range_bytes (g_vmalloc_free va)
       else 16 dvd unat a \<and> unat a + unat KMALLOC_POOL_SIZE < 2 ^ 64 \<and>
         {unat a ..< unat a + unat KMALLOC_POOL_SIZE} \<subseteq> range_bytes (g_vmalloc_free va) \<and>
         range_bytes (g_vmalloc_free va') = range_bytes (g_vmalloc_free va) - {unat a ..< unat a + unat KMALLOC_POOL_SIZE}))"
proof (cases "take_range KMALLOC_POOL_SIZE (g_vmalloc_free va)")
  case None
  have "vmalloc_init_once_locked kend va = (True, va)"
    using vmalloc_invD(4) [OF inv] by (simp add: vmalloc_init_once_locked_def)
  then have "vmalloc kend KMALLOC_POOL_SIZE VMALLOC_DEFAULT_FLAGS va = Inr (0, va)"
    unfolding vmalloc_def Let_def pool_size(1) by (simp add: None pool_size(3))
  then show ?thesis using inv by (auto simp: va_ok_def)
next
  case (Some x)
  then obtain addr rs where take: "take_range KMALLOC_POOL_SIZE (g_vmalloc_free va) = Some (addr, rs)" by (cases x) auto
  have al: "0 < KMALLOC_POOL_SIZE" "4096 dvd unat KMALLOC_POOL_SIZE" by (simp_all add: KMALLOC_POOL_SIZE_def)
  note B = taken_block [OF inv take al]
  have a0: "addr \<noteq> 0" using B(8) vmalloc_invD(6) [OF inv] by (auto simp: word_less_nat_alt)
  have d: "16 dvd unat addr" using B(4) by (rule dvd_trans [rotated]) simp
  show ?thesis
  proof (rule safely_mono [OF vmalloc_spec [OF inv pool_flags pool_size(3) order_refl pool_size(1) [symmetric] take, of kend]], goal_cases)
    case 1
    then show ?case by (simp add: pool_size)
  next
    case (2 x)
    then show ?case using B(2,3,5) a0 d by (auto simp: va_ok_def)
  qed
qed

interpretation vp: range_source "vmalloc kend KMALLOC_POOL_SIZE VMALLOC_DEFAULT_FLAGS" "unat KMALLOC_POOL_SIZE"
  "\<lambda>va. range_bytes (g_vmalloc_free va)" va_ok for kend
proof
  fix va a va'
  assume "va_ok va" and run: "vmalloc kend KMALLOC_POOL_SIZE VMALLOC_DEFAULT_FLAGS va = Inr (a, va')" and a: "a \<noteq> 0"
  then obtain r F where inv: "vmalloc_inv va r F" by (auto simp: va_ok_def)
  show "va_ok va' \<and> 16 dvd unat a \<and> unat a + unat KMALLOC_POOL_SIZE < 2 ^ 64 \<and>
      {unat a ..< unat a + unat KMALLOC_POOL_SIZE} \<subseteq> range_bytes (g_vmalloc_free va) \<and>
      range_bytes (g_vmalloc_free va') = range_bytes (g_vmalloc_free va) - {unat a ..< unat a + unat KMALLOC_POOL_SIZE}"
    using safely_InrD [OF vmalloc_pool [OF inv] run] a by simp
next
  fix va va'
  assume "va_ok va" and run: "vmalloc kend KMALLOC_POOL_SIZE VMALLOC_DEFAULT_FLAGS va = Inr (0, va')"
  then obtain r F where inv: "vmalloc_inv va r F" by (auto simp: va_ok_def)
  show "va_ok va' \<and> range_bytes (g_vmalloc_free va') = range_bytes (g_vmalloc_free va)"
    using safely_InrD [OF vmalloc_pool [OF inv] run] by simp
qed

definition kmalloc_inv :: "kmalloc_state \<Rightarrow> u64 set \<Rightarrow> nat set \<Rightarrow> bool" where
  "kmalloc_inv s B R \<longleftrightarrow> (\<exists>fl. heap_ok (km_heap s) (g_free_list s) B R fl) \<and> va_ok (km_va s) \<and>
     R \<inter> range_bytes (g_vmalloc_free (km_va s)) = {}"

text \<open>The panic that is left: not enough free pages for a pool and its page tables.\<close>

definition few_pages :: "kmalloc_state \<Rightarrow> bool" where
  "few_pages s \<longleftrightarrow> card (pmm_avail (vm_pmm (va_vm (km_va s)))) < 4096"

lemma add_pool_spec:
  assumes ok: "heap_ok (km_heap s) (g_free_list s) B R fl" and a: "a \<noteq> 0" "16 dvd unat a"
      "unat a + unat KMALLOC_POOL_SIZE < 2 ^ 64" and fresh: "R \<inter> {unat a ..< unat a + unat KMALLOC_POOL_SIZE} = {}"
  defines "s1 \<equiv> upd_block a (\<lambda>k. k\<lparr>kb_size := KMALLOC_POOL_SIZE - 48, next_phys := 0\<rparr>) s"
  defines "s' \<equiv> free_list_insert a s1"
  shows "heap_ok (km_heap s') (g_free_list s') (insert a B) (R \<union> {unat a ..< unat a + unat KMALLOC_POOL_SIZE}) (a # fl)"
    and "same_rest s s'" and "live (km_heap s') (insert a B) = live (km_heap s) B"
    and "kb_free (km_heap s' a) = 1" and "kb_size (km_heap s' a) = KMALLOC_POOL_SIZE - 48"
proof -
  note D = heap_okD [OF ok] and FR = free_list_insert_frame [where b = a and s = s1, folded s'_def]
  have ea: "extent (km_heap s1) a = {unat a ..< unat a + unat KMALLOC_POOL_SIZE}" "block_ok (km_heap s1) {} a"
    using a by (auto simp: extent_def block_ok_def block_end_def s1_def upd_block_def KMALLOC_POOL_SIZE_def)
  have aB: "a \<notin> B" using fresh D(1) self_extent [of a "km_heap s"] pool_size(2) unfolding tiled_def by force
  have old: "km_heap s1 c = km_heap s c" if "c \<in> B" for c using that aB by (auto simp: s1_def upd_block_def)
  have "tiled (km_heap s1) (insert a B) (R \<union> extent (km_heap s1) a)"
    by (rule tiled_add [OF D(1) aB]) (use old ea fresh in auto)
  then have t: "tiled (km_heap s') (insert a B) (R \<union> extent (km_heap s1) a)" using tiled_shape [OF FR(1)] by simp
  have "dls (km_heap s1) p f fl l t = dls (km_heap s) p f fl l t" for p f l t using old D(6) by (intro dls_cong) auto
  moreover have "g_free_list s1 = g_free_list s" by (simp add: s1_def upd_block_def)
  ultimately have "free_list (km_heap s1) (g_free_list s1) fl" using D(3) by (simp add: free_list_def)
  then have f: "free_list (km_heap s') (g_free_list s') (a # fl)"
    unfolding s'_def by (rule free_list_insert_spec) (use a(1) aB D(6) in auto)
  have "marked (km_heap s') (insert a B) (a # fl)"
  proof (rule marked_upd [OF D(2), where a = a])
    show "set (a # fl) \<subseteq> insert a B" using D(6) by auto
  qed (use FR(2,4,5) old in \<open>auto simp: same_status_def\<close>)
  then show hok: "heap_ok (km_heap s') (g_free_list s') (insert a B) (R \<union> {unat a ..< unat a + unat KMALLOC_POOL_SIZE}) (a # fl)"
    using t f ea(1) by (simp add: heap_ok_def)
  show "same_rest s s'" using FR(3) by (simp add: same_rest_def s1_def upd_block_def)
  show "kb_free (km_heap s' a) = 1" "kb_size (km_heap s' a) = KMALLOC_POOL_SIZE - 48"
    using FR(1,4) by (simp_all add: same_shape_def s1_def upd_block_def)
  have "kb_size (km_heap s' c) = kb_size (km_heap s c)" if "c \<in> B" for c
    using FR(1) old [OF that] by (simp add: same_shape_def)
  then have "live (km_heap s') (insert a B) p = live (km_heap s) B p" for p
    unfolding live_unfold [OF hok] live_unfold [OF ok] using aB by auto
  then show "live (km_heap s') (insert a B) = live (km_heap s) B" by blast
qed

lemma expand_pool_spec:
  assumes inv: "kmalloc_inv s B R"
  shows "safely (expand_pool kend s) (few_pages s)
    (\<lambda>(ok, s'). g_initialized s' = g_initialized s \<and> (\<exists>B' R'. kmalloc_inv s' B' R' \<and> R \<subseteq> R' \<and>
       live (km_heap s') B' = live (km_heap s) B \<and>
       (ok \<longrightarrow> (\<exists>c \<in> B'. kb_free (km_heap s' c) = 1 \<and> kb_size (km_heap s' c) = KMALLOC_POOL_SIZE - 48))))"
proof -
  obtain fl where ok: "heap_ok (km_heap s) (g_free_list s) B R fl" using inv by (auto simp: kmalloc_inv_def)
  obtain r F where va: "vmalloc_inv (km_va s) r F" and dis: "R \<inter> range_bytes (g_vmalloc_free (km_va s)) = {}"
    using inv by (auto simp: kmalloc_inv_def va_ok_def)
  show ?thesis
  proof (cases "vmalloc kend KMALLOC_POOL_SIZE VMALLOC_DEFAULT_FLAGS (km_va s)")
    case (Inl h)
    then show ?thesis using vmalloc_pool [OF va, of kend] by (simp add: expand_pool_def few_pages_def)
  next
    case (Inr x)
    obtain a va' where x: "x = (a, va')" by (cases x)
    note run = Inr [unfolded x]
    have vok: "va_ok (km_va s)" using va by (auto simp: va_ok_def)
    show ?thesis
    proof (cases "a = 0")
      case True
      have "va_ok va'" "range_bytes (g_vmalloc_free va') = range_bytes (g_vmalloc_free (km_va s))"
        using vp.alloc_refused [OF vok] run True by auto
      then show ?thesis using run True ok dis
        by (auto simp: expand_pool_def kmalloc_inv_def intro!: exI [of _ B] exI [of _ R])
    next
      case False
      note P = vp.alloc_range [OF vok run False] and fresh = vp.range_fresh [OF vok run False dis]
      let ?s = "s\<lparr>km_va := va'\<rparr>"
      let ?s' = "free_list_insert a (upd_block a (\<lambda>k. k\<lparr>kb_size := KMALLOC_POOL_SIZE - 48, next_phys := 0\<rparr>) ?s)"
      have "heap_ok (km_heap ?s) (g_free_list ?s) B R fl" using ok by simp
      note A = add_pool_spec [OF this False _ _ fresh(1)]
      have "kmalloc_inv ?s' (insert a B) (R \<union> {unat a ..< unat a + unat KMALLOC_POOL_SIZE})"
        unfolding kmalloc_inv_def using A(1,2) fresh(2) P by (auto simp: same_rest_def)
      moreover have "expand_pool kend s = Inr (True, ?s')" using run False by (simp add: expand_pool_def)
      ultimately show ?thesis using A(2-5) P by (auto simp: same_rest_def)
    qed
  qed
qed

section \<open>Properties\<close>

definition gives_block :: "u64 \<Rightarrow> kmalloc_state \<Rightarrow> u64 set \<Rightarrow> u64 \<Rightarrow> kmalloc_state \<Rightarrow> u64 set \<Rightarrow> bool" where
  "gives_block sz s B p s' B' \<longleftrightarrow> p \<noteq> 0 \<and> 16 dvd unat p \<and> live (km_heap s) B p = None \<and>
     (\<exists>n. sz \<le> n \<and> live (km_heap s') B' = (live (km_heap s) B)(p \<mapsto> n) \<and> unat p + unat n < 2 ^ 64 \<and>
        (\<forall>q m. live (km_heap s) B q = Some m \<longrightarrow> {unat p ..< unat p + unat n} \<inter> {unat q ..< unat q + unat m} = {}))"

lemma hand_out_live:
  assumes inv: "kmalloc_inv s B R" and ok: "heap_ok (km_heap s) (g_free_list s) B R fl"
    and b: "b \<in> set fl" "align_up sz 16 \<le> kb_size (km_heap s b)" and sz: "unat sz \<le> 2 ^ 64 - 16"
  shows "\<exists>p s' B'. hand_out b (align_up sz 16) s = (p, s') \<and> kmalloc_inv s' B' R \<and> gives_block sz s B p s' B' \<and> same_rest s s'"
proof -
  let ?sz = "align_up sz 16"
  have al: "16 dvd unat ?sz" "sz \<le> ?sz"
    using unat_align_up [of 4 sz] sz by (simp_all add: word_le_nat_alt)
  obtain s' B' fl' where h: "hand_out b ?sz s = (b + 48, s')" "heap_ok (km_heap s') (g_free_list s') B' R fl'" "same_rest s s'"
    "B \<subseteq> B'" "set fl' = (B' - B) \<union> (set fl - {b})" "?sz \<le> kb_size (km_heap s' b)"
    "\<forall>c \<in> B. c \<noteq> b \<longrightarrow> kb_size (km_heap s' c) = kb_size (km_heap s c)"
    using hand_out_spec [OF ok b al(1)] by blast
  have bB: "b \<in> B" "b \<in> B'" using b(1) heap_okD(6) [OF ok] h(4) by auto
  let ?n = "kb_size (km_heap s' b)"
  have l: "live (km_heap s') B' q = ((live (km_heap s) B)(b + 48 \<mapsto> ?n)) q" for q
    unfolding fun_upd_apply live_unfold [OF h(2)] live_unfold [OF ok] using h(4,5,7) bB by auto
  then have lp: "live (km_heap s') B' (b + 48) = Some ?n" by simp
  have none: "live (km_heap s) B (b + 48) = None" using b(1) by (simp add: live_unfold [OF ok])
  have "{unat (b + 48) ..< unat (b + 48) + unat ?n} \<inter> {unat q ..< unat q + unat m} = {}" if "live (km_heap s) B q = Some m" for q m
    using live_disjoint [OF h(2) lp, of q m] that none l by (cases "q = b + 48") auto
  then have "gives_block sz s B (b + 48) s' B'"
    unfolding gives_block_def using live_region [OF h(2) lp] none l al(2) h(6) by (intro conjI exI [of _ ?n]) auto
  moreover have "kmalloc_inv s' B' R" using inv h(2,3) by (auto simp: kmalloc_inv_def same_rest_def)
  ultimately show ?thesis using h(1,3) by blast
qed

lemma search_spec:
  assumes inv: "kmalloc_inv s B R" and sz: "unat sz \<le> 2 ^ 64 - 16"
  shows "\<exists>b. find_fit (km_heap s) (align_up sz 16) (g_free_list s) = Some b \<and>
    (if b = 0 then \<forall>c \<in> B. kb_free (km_heap s c) = 1 \<longrightarrow> kb_size (km_heap s c) < align_up sz 16
     else \<exists>p s' B'. hand_out b (align_up sz 16) s = (p, s') \<and> kmalloc_inv s' B' R \<and> gives_block sz s B p s' B' \<and> same_rest s s')"
proof -
  obtain fl where ok: "heap_ok (km_heap s) (g_free_list s) B R fl" using inv by (auto simp: kmalloc_inv_def)
  obtain l where "dls (km_heap s) 0 (g_free_list s) fl l 0" using heap_okD(3) [OF ok] by (auto simp: free_list_def)
  from find_fit_spec [OF this, of "align_up sz 16"] obtain b where b: "find_fit (km_heap s) (align_up sz 16) (g_free_list s) = Some b"
    "if b = 0 then \<forall>c \<in> set fl. kb_size (km_heap s c) < align_up sz 16 else b \<in> set fl \<and> align_up sz 16 \<le> kb_size (km_heap s b)" by blast
  show ?thesis
  proof (cases "b = 0")
    case True
    have "c \<in> set fl" if "c \<in> B" "kb_free (km_heap s c) = 1" for c using heap_okD(8) [OF ok that(1)] that(2) by (simp split: if_splits)
    then show ?thesis using b True by auto
  next
    case False
    then show ?thesis using b hand_out_live [OF inv ok _ _ sz] by simp
  qed
qed

lemma init_locked_spec:
  assumes "kmalloc_inv s B R"
  shows "safely (kmalloc_init_locked kend s) (\<not> g_initialized s \<and> few_pages s)
    (\<lambda>(ok, s'). (ok \<longrightarrow> g_initialized s') \<and> (g_initialized s \<longrightarrow> ok \<and> s' = s) \<and>
      (\<exists>B' R'. kmalloc_inv s' B' R' \<and> R \<subseteq> R' \<and> live (km_heap s') B' = live (km_heap s) B \<and>
         (g_initialized s \<longrightarrow> B' = B \<and> R' = R) \<and>
         (ok \<and> \<not> g_initialized s \<longrightarrow> (\<exists>c \<in> B'. kb_free (km_heap s' c) = 1 \<and> kb_size (km_heap s' c) = KMALLOC_POOL_SIZE - 48))))"
proof (cases "g_initialized s")
  case True
  then show ?thesis using assms by (auto simp: kmalloc_init_locked_def)
next
  case False
  show ?thesis unfolding kmalloc_init_locked_def if_not_P [OF False]
  proof (rule safely_bind [OF expand_pool_spec [OF assms]], goal_cases)
    case (2 x)
    then show ?case using False by (cases x) (auto simp: kmalloc_inv_def)
  qed (use False in simp)
qed

lemma gives_block_live: "live (km_heap s0) B0 = live (km_heap s) B \<Longrightarrow> gives_block sz s0 B0 p s' B' \<Longrightarrow> gives_block sz s B p s' B'"
  by (simp add: gives_block_def)

definition kmalloc_post :: "u64 \<Rightarrow> kmalloc_state \<Rightarrow> u64 set \<Rightarrow> nat set \<Rightarrow> u64 \<Rightarrow> kmalloc_state \<Rightarrow> bool" where
  "kmalloc_post sz s B R p s' \<longleftrightarrow> (\<exists>B' R'. kmalloc_inv s' B' R' \<and> R \<subseteq> R' \<and>
     (if p = 0 then live (km_heap s') B' = live (km_heap s) B else gives_block sz s B p s' B'))"

lemma kmalloc_retry:
  assumes inv: "kmalloc_inv s B R" and sz: "unat sz \<le> 2 ^ 64 - 16"
  shows "\<exists>out. (case expand_pool kend s of
        Inl h \<Rightarrow> Some (Inl h)
      | Inr (ok, s1) \<Rightarrow>
          if \<not> ok then Some (Inr (0, s1))
          else case find_fit (km_heap s1) (align_up sz 16) (g_free_list s1) of
            None \<Rightarrow> None
          | Some b \<Rightarrow> Some (Inr (if b \<noteq> 0 then hand_out b (align_up sz 16) s1 else (0, s1)))) = Some out \<and>
    safely out (few_pages s) (\<lambda>(p, s'). kmalloc_post sz s B R p s')"
proof (cases "expand_pool kend s")
  case (Inl h)
  then show ?thesis using expand_pool_spec [OF inv, of kend] by simp
next
  case (Inr x)
  obtain ok s1 where x: "x = (ok, s1)" by (cases x)
  obtain B1 R1 where 1: "kmalloc_inv s1 B1 R1" "R \<subseteq> R1" "live (km_heap s1) B1 = live (km_heap s) B"
    using expand_pool_spec [OF inv, of kend] Inr x by auto
  show ?thesis
  proof (cases ok)
    case False
    then show ?thesis using Inr x 1 by (auto simp: kmalloc_post_def)
  next
    case True
    from search_spec [OF 1(1) sz] obtain b where b: "find_fit (km_heap s1) (align_up sz 16) (g_free_list s1) = Some b"
      "b \<noteq> 0 \<longrightarrow> (\<exists>p s' B'. hand_out b (align_up sz 16) s1 = (p, s') \<and> kmalloc_inv s' B' R1 \<and> gives_block sz s1 B1 p s' B')"
      by metis
    show ?thesis
    proof (cases "b = 0")
      case True
      then show ?thesis using Inr x \<open>ok\<close> 1 b(1) by (auto simp: kmalloc_post_def)
    next
      case False
      then obtain p s' B' where h: "hand_out b (align_up sz 16) s1 = (p, s')" "kmalloc_inv s' B' R1" "gives_block sz s1 B1 p s' B'"
        using b(2) by blast
      have "kmalloc_post sz s B R p s'"
        unfolding kmalloc_post_def using h(2) 1(2) gives_block_live [OF 1(3) h(3)] by (auto simp: gives_block_def)
      then show ?thesis using Inr x \<open>ok\<close> b(1) False h(1) by simp
    qed
  qed
qed

lemma kmalloc_spec:
  assumes inv: "kmalloc_inv s B R" and sz: "sz \<noteq> 0" "unat sz \<le> 2 ^ 64 - 16"
  shows "\<exists>out. kmalloc kend sz s = Some out \<and>
    safely out (few_pages s \<or> \<not> g_initialized s \<and> KMALLOC_POOL_SIZE - 48 < align_up sz 16)
      (\<lambda>(p, s'). kmalloc_post sz s B R p s' \<and>
         (g_initialized s \<longrightarrow> p = 0 \<longrightarrow> (\<forall>c \<in> B. kb_free (km_heap s c) = 1 \<longrightarrow> kb_size (km_heap s c) < align_up sz 16)))"
proof (cases "kmalloc_init_locked kend s")
  case (Inl h)
  then show ?thesis using init_locked_spec [OF inv, of kend] sz by (auto simp: kmalloc_def)
next
  case (Inr x)
  obtain ok s0 where x: "x = (ok, s0)" by (cases x)
  obtain B0 R0 where 0: "kmalloc_inv s0 B0 R0" "R \<subseteq> R0" "live (km_heap s0) B0 = live (km_heap s) B"
    "ok \<and> \<not> g_initialized s \<longrightarrow> (\<exists>c \<in> B0. kb_free (km_heap s0 c) = 1 \<and> kb_size (km_heap s0 c) = KMALLOC_POOL_SIZE - 48)"
    and init: "g_initialized s \<longrightarrow> ok \<and> s0 = s \<and> B0 = B \<and> R0 = R"
    using init_locked_spec [OF inv, of kend] Inr x by auto
  show ?thesis
  proof (cases "ok")
    case False
    then show ?thesis using Inr x sz 0 init by (auto simp: kmalloc_def kmalloc_post_def)
  next
    case True
    from search_spec [OF 0(1) sz(2)] obtain b where b: "find_fit (km_heap s0) (align_up sz 16) (g_free_list s0) = Some b"
      "b = 0 \<longrightarrow> (\<forall>c \<in> B0. kb_free (km_heap s0 c) = 1 \<longrightarrow> kb_size (km_heap s0 c) < align_up sz 16)"
      "b \<noteq> 0 \<longrightarrow> (\<exists>p s' B'. hand_out b (align_up sz 16) s0 = (p, s') \<and> kmalloc_inv s' B' R0 \<and> gives_block sz s0 B0 p s' B')"
      by metis
    show ?thesis
    proof (cases "b = 0")
      case False
      then obtain p s' B' where h: "hand_out b (align_up sz 16) s0 = (p, s')" "kmalloc_inv s' B' R0" "gives_block sz s0 B0 p s' B'"
        using b(3) by blast
      have "kmalloc_post sz s B R p s'" "p \<noteq> 0"
        unfolding kmalloc_post_def using h(2) 0(2) gives_block_live [OF 0(3) h(3)] by (auto simp: gives_block_def)
      then show ?thesis using Inr x True b(1) False h(1) sz(1) by (simp add: kmalloc_def)
    next
      case True
      obtain out where out: "(case expand_pool kend s0 of Inl h \<Rightarrow> Some (Inl h)
          | Inr (ok, s1) \<Rightarrow> if \<not> ok then Some (Inr (0, s1))
              else case find_fit (km_heap s1) (align_up sz 16) (g_free_list s1) of None \<Rightarrow> None
                | Some b \<Rightarrow> Some (Inr (if b \<noteq> 0 then hand_out b (align_up sz 16) s1 else (0, s1)))) = Some out"
        "safely out (few_pages s0) (\<lambda>(p, s'). kmalloc_post sz s0 B0 R0 p s')"
        using kmalloc_retry [OF 0(1) sz(2)] by blast
      have "kmalloc kend sz s = Some out" using Inr x \<open>ok\<close> b(1) True out(1) sz(1) by (simp add: kmalloc_def)
      moreover have "few_pages s0 \<Longrightarrow> few_pages s \<or> \<not> g_initialized s \<and> KMALLOC_POOL_SIZE - 48 < align_up sz 16"
        using b(2) True init 0(4) \<open>ok\<close> by (cases "g_initialized s") auto
      moreover have "kmalloc_post sz s B R p s'" if "kmalloc_post sz s0 B0 R0 p s'" for p s'
        using that 0(2,3) gives_block_live [OF 0(3)] by (fastforce simp: kmalloc_post_def split: if_splits)
      ultimately show ?thesis using out(2) b(2) True init
        by (intro exI [of _ out] conjI) (simp, rule safely_mono, assumption, blast, auto)
    qed
  qed
qed

text \<open>
  C1. \<^verbatim>\<open>kmalloc\<close> always comes back. It may panic for want of page tables, but only with
  fewer than 4096 free pages, or on a first call for more than a whole pool. Otherwise it returns 0
  and the live blocks are the same, or it returns a pointer, 16-byte aligned, to a new block of at
  least the size asked for that overlaps no live block, and the live blocks are the old ones and
  this one. The heap invariant is kept: the blocks tile the pools and the free list holds exactly
  the free ones. The bound on the size excludes requests whose rounding up to 16 wraps around.
\<close>

theorem kmalloc_allocates:
  assumes "kmalloc_inv s B R" and "sz \<noteq> 0" and "unat sz \<le> 2 ^ 64 - 16"
  shows "\<exists>out. kmalloc kend sz s = Some out \<and>
    (case out of
       Inl h \<Rightarrow> card (pmm_avail (vm_pmm (va_vm (km_va s)))) < 4096 \<or>
                \<not> g_initialized s \<and> KMALLOC_POOL_SIZE - BLOCK_HEADER < align_up sz KMALLOC_ALIGN
     | Inr (p, s') \<Rightarrow> \<exists>B' R'. kmalloc_inv s' B' R' \<and> R \<subseteq> R' \<and>
         (if p = 0 then live (km_heap s') B' = live (km_heap s) B
          else 16 dvd unat p \<and> live (km_heap s) B p = None \<and>
            (\<exists>n. sz \<le> n \<and> live (km_heap s') B' = (live (km_heap s) B)(p \<mapsto> n) \<and> unat p + unat n < 2 ^ 64 \<and>
               (\<forall>q m. live (km_heap s) B q = Some m \<longrightarrow>
                  {unat p ..< unat p + unat n} \<inter> {unat q ..< unat q + unat m} = {}))))"
proof -
  obtain out where out: "kmalloc kend sz s = Some out"
    "safely out (few_pages s \<or> \<not> g_initialized s \<and> KMALLOC_POOL_SIZE - 48 < align_up sz 16) (\<lambda>(p, s'). kmalloc_post sz s B R p s')"
  proof -
    obtain out where "kmalloc kend sz s = Some out" "safely out (few_pages s \<or> \<not> g_initialized s \<and> KMALLOC_POOL_SIZE - 48 < align_up sz 16)
      (\<lambda>(p, s'). kmalloc_post sz s B R p s' \<and> (g_initialized s \<longrightarrow> p = 0 \<longrightarrow>
        (\<forall>c \<in> B. kb_free (km_heap s c) = 1 \<longrightarrow> kb_size (km_heap s c) < align_up sz 16)))"
      using kmalloc_spec [OF assms] by blast
    then show thesis by (intro that [of out]) (assumption, erule safely_mono, auto)
  qed
  show ?thesis
  proof (cases out)
    case (Inl h)
    then show ?thesis using out by (simp add: few_pages_def)
  next
    case (Inr x)
    then have "kmalloc_post sz s B R (fst x) (snd x)" using out(2) by (cases x) simp
    then show ?thesis using out(1) Inr by (simp add: kmalloc_post_def gives_block_def split_beta cong: if_cong) 
  qed
qed

text \<open>
  C17. Once the heap is set up, a request that some free block can hold is served, without a panic:
  the first-fit search reaches every free block.
\<close>

theorem kmalloc_serves_fitting:
  assumes "kmalloc_inv s B R" and "sz \<noteq> 0" and "unat sz \<le> 2 ^ 64 - 16" and "g_initialized s"
    and "c \<in> B" and "kb_free (km_heap s c) = 1" and "align_up sz KMALLOC_ALIGN \<le> kb_size (km_heap s c)"
  shows "\<exists>p s'. kmalloc kend sz s = Some (Inr (p, s')) \<and> p \<noteq> 0 \<and> km_va s' = km_va s"
proof -
  from search_spec [OF assms(1,3)] obtain b where b: "find_fit (km_heap s) (align_up sz 16) (g_free_list s) = Some b"
    "b = 0 \<longrightarrow> (\<forall>c \<in> B. kb_free (km_heap s c) = 1 \<longrightarrow> kb_size (km_heap s c) < align_up sz 16)"
    "b \<noteq> 0 \<longrightarrow> (\<exists>p s' B'. hand_out b (align_up sz 16) s = (p, s') \<and> kmalloc_inv s' B' R \<and> gives_block sz s B p s' B' \<and> same_rest s s')"
    by metis
  have "b \<noteq> 0" using b(2) assms(5-7) leD by blast
  then obtain p s' where "hand_out b (align_up sz 16) s = (p, s')" "p \<noteq> 0" "km_va s' = km_va s"
    using b(3) by (auto simp: gives_block_def same_rest_def)
  then show ?thesis using b(1) \<open>b \<noteq> 0\<close> assms(2,4) by (simp add: kmalloc_def kmalloc_init_locked_def)
qed

lemma kfree_inv:
  assumes "kmalloc_inv s B R" and "live (km_heap s) B p = Some n"
  shows "\<exists>s' B'. kfree p s = Some s' \<and> kmalloc_inv s' B' R \<and> live (km_heap s') B' = (live (km_heap s) B)(p := None) \<and>
    kfree p s' = Some s'"
proof -
  obtain fl where ok: "heap_ok (km_heap s) (g_free_list s) B R fl" using assms(1) by (auto simp: kmalloc_inv_def)
  obtain s' B' fl' where s': "kfree p s = Some s'" "heap_ok (km_heap s') (g_free_list s') B' R fl'" "same_rest s s'"
    "live (km_heap s') B' = (live (km_heap s) B)(p := None)" "kb_magic (km_heap s' (p - 48)) = KMALLOC_MAGIC_FREE"
    using kfree_spec [OF ok assms(2)] by blast
  have "kmalloc_inv s' B' R" using assms(1) s'(2,3) by (auto simp: kmalloc_inv_def same_rest_def)
  moreover have "kfree p s' = Some s'" using s'(5) by (simp add: kfree_def Let_def)
  ultimately show ?thesis using s'(1,4) by blast
qed

text \<open>
  C3. \<^verbatim>\<open>kfree\<close> of a live pointer comes back with exactly that block released, whatever
  merging it does with its free neighbours, and the invariant kept. Freeing the pointer once more
  is recognised and changes nothing.
\<close>

theorem kfree_releases:
  assumes "kmalloc_inv s B R" and "live (km_heap s) B p = Some n"
  shows "\<exists>s' B'. kfree p s = Some s' \<and> kmalloc_inv s' B' R \<and> live (km_heap s') B' = (live (km_heap s) B)(p := None) \<and>
    kfree p s' = Some s'"
  by (rule kfree_inv [OF assms])

text \<open>
  C26. A request for one of the 15 largest sizes rounds up to 0 and is served, by the first free
  block and whatever its size, instead of failing.
\<close>

theorem kmalloc_size_wraps:
  assumes "2 ^ 64 - 16 < unat sz" and "g_initialized s" and "g_free_list s \<noteq> 0"
  shows "\<exists>s'. kmalloc kend sz s = Some (Inr (g_free_list s + BLOCK_HEADER, s')) \<and>
    kb_size (km_heap s' (g_free_list s)) \<le> KMALLOC_MIN_SPLIT"
proof -
  have al: "align_up sz 16 = 0" using align_up_wraps [of 4 sz] assms(1) by simp
  have nz: "sz \<noteq> 0" using assms(1) by auto
  have fit: "find_fit (km_heap s) 0 (g_free_list s) = Some (g_free_list s)" using assms(3) by (subst find_fit.simps) simp
  let ?b = "g_free_list s"
  obtain s' where h: "hand_out ?b 0 s = (?b + 48, s')" by (simp add: hand_out_def Let_def)
  have "kb_size (km_heap s' ?b) = (if KMALLOC_MIN_SPLIT \<le> kb_size (km_heap s ?b) then 0 else kb_size (km_heap s ?b))"
  proof -
    let ?s1 = "if KMALLOC_MIN_SPLIT \<le> kb_size (km_heap s ?b) then
        free_list_insert (?b + 48) (upd_block ?b (\<lambda>k. k\<lparr>next_phys := ?b + 48, kb_size := 0\<rparr>)
         (upd_block (?b + 48) (\<lambda>k. k\<lparr>kb_size := kb_size (km_heap s ?b) - 48, next_phys := next_phys (km_heap s ?b)\<rparr>) s)) else s"
    have s': "s' = upd_block ?b (\<lambda>k. k\<lparr>kb_free := 0, kb_magic := KMALLOC_MAGIC_USED\<rparr>) (free_list_remove ?b ?s1)"
      using h by (auto simp: hand_out_def Let_def)
    have "kb_size (km_heap s' ?b) = kb_size (km_heap ?s1 ?b)"
      using free_list_remove_frame(1) [where b = ?b and s = ?s1] unfolding s' by (simp add: upd_block_def same_shape_def)
    then show ?thesis using free_list_insert_frame(1) by (auto simp: same_shape_def upd_block_def)
  qed
  moreover have "kmalloc kend sz s = Some (Inr (?b + 48, s'))"
    using nz assms(2,3) fit h by (simp add: kmalloc_def kmalloc_init_locked_def al)
  ultimately show ?thesis by (auto simp: not_le)
qed

section \<open>The heap as its clients see it\<close>

definition kheap :: "u64 \<Rightarrow> kmalloc_state heap_ops" where
  "kheap kend = \<lparr>hp_alloc = kmalloc kend, hp_free = \<lambda>p s. map_option Inr (kfree p s)\<rparr>"

definition kmalloc_live :: "kmalloc_state \<Rightarrow> u64 set \<Rightarrow> bool" where
  "kmalloc_live s L \<longleftrightarrow> (\<exists>B R. kmalloc_inv s B R \<and> dom (live (km_heap s) B) = L)"

interpretation kh: heap_source "kheap kend" kmalloc_live for kend
proof (unfold_locales, goal_cases)
  case (1 s L sz)
  then obtain B R where inv: "kmalloc_inv s B R" "dom (live (km_heap s) B) = L" by (auto simp: kmalloc_live_def)
  show ?case
  proof (unfold yields_def, intro allI impI, clarify)
    fix p s' assume run: "hp_alloc (kheap kend) sz s = ret (p, s')"
    have "kmalloc_post sz s B R p s'"
    proof (cases "sz = 0")
      case True
      then show ?thesis using run inv(1) by (auto simp: kheap_def kmalloc_def kmalloc_post_def)
    next
      case False
      then show ?thesis using run kmalloc_spec [OF inv(1) _ 1(2), of kend] by (auto simp: kheap_def)
    qed
    then obtain B' R' where post: "kmalloc_inv s' B' R'"
      "if p = 0 then live (km_heap s') B' = live (km_heap s) B else gives_block sz s B p s' B'"
      unfolding kmalloc_post_def by blast
    then have "if p = 0 then dom (live (km_heap s') B') = L else p \<notin> L \<and> dom (live (km_heap s') B') = insert p L"
      using inv(2) by (auto simp: gives_block_def)
    then show "if p = 0 then kmalloc_live s' L else p \<notin> L \<and> kmalloc_live s' (insert p L)"
      using post(1) unfolding kmalloc_live_def by metis
  qed
next
  case (2 s L sz)
  then show ?case using kmalloc_spec [of s _ _ sz kend] by (cases "sz = 0") (auto simp: kmalloc_live_def kheap_def kmalloc_def)
next
  case (3 s L p)
  then obtain B R n where inv: "kmalloc_inv s B R" "dom (live (km_heap s) B) = L" "live (km_heap s) B p = Some n"
    by (auto simp: kmalloc_live_def)
  from kfree_inv [OF inv(1,3)] obtain s' B' where s': "kfree p s = Some s'" "kmalloc_inv s' B' R"
    "live (km_heap s') B' = (live (km_heap s) B)(p := None)" by blast
  then have "kmalloc_live s' (L - {p})" unfolding kmalloc_live_def using inv(2) by (intro exI [of _ B'] exI [of _ R]) simp
  then show ?case using s'(1) by (simp add: kheap_def)
next
  case (4 s)
  then show ?case by (simp add: kheap_def kfree_def)
next
  case (5 s L)
  then obtain B R fl where "heap_ok (km_heap s) (g_free_list s) B R fl" "dom (live (km_heap s) B) = L"
    by (auto simp: kmalloc_live_def kmalloc_inv_def)
  then show ?case using live_region(1) [of "km_heap s" "g_free_list s" B R fl 0] by auto
qed

text \<open>A heap for the witnesses: one pool, one free block.\<close>

definition demo_km :: kmalloc_state where
  "demo_km = \<lparr>km_va = demo_va,
     km_heap = (\<lambda>_. \<lparr>kb_magic = KMALLOC_MAGIC_FREE, kb_free = 1, kb_size = 4194256, next_phys = 0, next_free = 0, prev_free = 0\<rparr>),
     g_free_list = 0xFFFF900000010000, g_initialized = True\<rparr>"

lemma demo_km_simps [simp]: "g_initialized demo_km" "g_free_list demo_km = 0xFFFF900000010000"
  "kb_free (km_heap demo_km b) = 1" "kb_size (km_heap demo_km b) = 4194256"
  by (simp_all add: demo_km_def)

lemma demo_km_inv: "kmalloc_inv demo_km {0xFFFF900000010000} {0xFFFF900000010000 ..< 0xFFFF900000410000}"
proof -
  let ?b = "0xFFFF900000010000 :: u64"
  have "tiled (km_heap demo_km) {?b} {0xFFFF900000010000 ..< 0xFFFF900000410000}"
    by (simp add: tiled_def demo_km_def block_ok_def block_end_def extent_def)
  moreover have "marked (km_heap demo_km) {?b} [?b]" "free_list (km_heap demo_km) (g_free_list demo_km) [?b]"
    by (simp_all add: marked_def free_list_def demo_km_def)
  moreover have "va_ok (km_va demo_km)" using demo_va_inv by (auto simp: va_ok_def demo_km_def)
  moreover have "range_bytes (g_vmalloc_free (km_va demo_km)) = {0xFFFF900000000000 ..< 0xFFFF900000004000}"
    by (simp add: demo_km_def demo_va_def range_bytes_def rstart_def rend_def)
  ultimately show ?thesis unfolding kmalloc_inv_def heap_ok_def by auto
qed

lemma demo_km_dead: "live (km_heap demo_km) {0xFFFF900000010000} = (\<lambda>_. None)"
  by (auto simp: live_def)

lemma demo_km_run: "\<exists>s'. kmalloc 0 100 demo_km = Some (Inr (0xFFFF900000010030, s'))"
proof -
  have "find_fit (km_heap demo_km) 112 0xFFFF900000010000 = Some 0xFFFF900000010000" by (subst find_fit.simps) simp
  moreover have "align_up 100 KMALLOC_ALIGN = 112" by (simp add: align_up_def)
  ultimately show ?thesis by (simp add: kmalloc_def kmalloc_init_locked_def hand_out_def Let_def)
qed

theorem kmalloc_allocates_witness:
  "\<exists>s' B' n. kmalloc 0 100 demo_km = Some (Inr (0xFFFF900000010030, s')) \<and> 100 \<le> n \<and>
     live (km_heap s') B' = [0xFFFF900000010030 \<mapsto> n]"
  using demo_km_run kmalloc_allocates [OF demo_km_inv, of 100 0] by (fastforce simp: demo_km_dead)

theorem kmalloc_serves_fitting_witness: "\<exists>p s'. kmalloc 0 100 demo_km = Some (Inr (p, s')) \<and> p \<noteq> 0"
  using kmalloc_serves_fitting [OF demo_km_inv, of 100 "0xFFFF900000010000" 0] by (auto simp: align_up_def)

theorem kmalloc_size_wraps_witness:
  "\<exists>s'. kmalloc 0 0xFFFFFFFFFFFFFFF8 demo_km = Some (Inr (0xFFFF900000010030, s'))"
  using kmalloc_size_wraps [of "0xFFFFFFFFFFFFFFF8" demo_km 0] by auto

theorem kfree_releases_witness:
  "\<exists>s' s'' B''. kmalloc 0 100 demo_km = Some (Inr (0xFFFF900000010030, s')) \<and> kfree 0xFFFF900000010030 s' = Some s'' \<and>
     live (km_heap s'') B'' = (\<lambda>_. None)"
proof -
  obtain s' where run: "kmalloc 0 100 demo_km = Some (Inr (0xFFFF900000010030, s'))" using demo_km_run by blast
  then obtain B' R' n where "kmalloc_inv s' B' R'" "live (km_heap s') B' = [0xFFFF900000010030 \<mapsto> n]"
    using kmalloc_spec [OF demo_km_inv, of 100 0] by (auto simp: kmalloc_post_def gives_block_def demo_km_dead)
  then show ?thesis using kfree_releases [of s' B' R' "0xFFFF900000010030" n] run by auto
qed

end
