(* ===== verification/Vfs.thy ===== *)
theory Vfs
  imports Fat32 Kmalloc
begin

text \<open>
  The file-system switch, \<^verbatim>\<open>fs/vfs/vfs.c\<close>. Nodes, open files and the strings the kernel keeps
  live in stores indexed by their addresses, 0 being the null pointer; the list of mounts is the list
  of its elements from \<^verbatim>\<open>g_mounts\<close> on. A node's table of operations is a tag \<open>'o\<close>;
  the functions behind the tags are the argument \<open>ops\<close>, and what they keep at other
  addresses is in the store \<open>fs_private\<close>. The kernel heap is an argument too, \<open>hp\<close>,
  with its state in \<open>fs_heap\<close>. The argument \<open>path\<close> of a call is a byte string without its
  terminator. A null path, buffer or out-parameter, which every function rejects first, has no
  counterpart; null nodes and files are the address 0. Out-parameters are part of the result, and
  a result \<open>fs_error option\<close> is \<^verbatim>\<open>VFS_OK\<close> when it is \<open>None\<close>. The entry \<^verbatim>\<open>ioctl\<close> of the
  operations, which nothing fills in or calls, is left out.
\<close>

section \<open>State\<close>

abbreviation VFS_NAME_MAX :: nat where "VFS_NAME_MAX \<equiv> 255"
abbreviation VFS_NODE_FILE :: u32 where "VFS_NODE_FILE \<equiv> 1"
abbreviation VFS_NODE_DIR :: u32 where "VFS_NODE_DIR \<equiv> 2"
abbreviation VFS_NODE_NAME_OWNED :: u32 where "VFS_NODE_NAME_OWNED \<equiv> 0x80000000"
abbreviation slash :: u8 where "slash \<equiv> 0x2F"

record vfs_dirent =
  vd_name :: bytes
  vd_type :: u32

record vfs_stat_t =
  vs_type :: u32
  vs_size :: u64

record 'o vfs_node =
  vn_name :: u64
  vn_name_len :: u16
  vn_type :: u32
  vn_flags :: u32
  vn_size :: u64
  vn_ops :: "'o option"
  vn_data :: u64
  vn_parent :: u64
  vn_first_child :: u64
  vn_next_sibling :: u64

record vfs_file =
  vf_node :: u64
  vf_pos :: u64
  vf_flags :: u32
  vf_private_data :: u64

record vfs_mount_t =
  mnt_addr :: u64
  mnt_path :: u64
  mnt_path_len :: u16
  mnt_root :: u64

record ('o, 'x, 'h) vfs =
  fs_nodes :: "u64 \<Rightarrow> 'o vfs_node"
  fs_files :: "u64 \<Rightarrow> vfs_file"
  fs_strings :: "u64 \<Rightarrow> bytes"
  g_mounts :: "vfs_mount_t list"
  fs_private :: "u64 \<Rightarrow> 'x"
  fs_heap :: 'h

record ('o, 'x, 'h) vfs_node_ops =
  op_open :: "(u64 \<Rightarrow> u32 \<Rightarrow> ('o, 'x, 'h) vfs \<Rightarrow> (fs_error option \<times> ('o, 'x, 'h) vfs) run) option"
  op_close :: "(u64 \<Rightarrow> ('o, 'x, 'h) vfs \<Rightarrow> (fs_error option \<times> ('o, 'x, 'h) vfs) run) option"
  op_read :: "(u64 \<Rightarrow> u64 \<Rightarrow> ('o, 'x, 'h) vfs \<Rightarrow> ((fs_error + bytes) \<times> ('o, 'x, 'h) vfs) run) option"
  op_write :: "(u64 \<Rightarrow> bytes \<Rightarrow> ('o, 'x, 'h) vfs \<Rightarrow> ((fs_error + u64) \<times> ('o, 'x, 'h) vfs) run) option"
  op_readdir :: "(u64 \<Rightarrow> nat \<Rightarrow> ('o, 'x, 'h) vfs \<Rightarrow> ((fs_error + vfs_dirent option) \<times> ('o, 'x, 'h) vfs) run) option"
  op_lookup :: "(u64 \<Rightarrow> bytes \<Rightarrow> ('o, 'x, 'h) vfs \<Rightarrow> (u64 \<times> ('o, 'x, 'h) vfs) run) option"
  op_stat :: "(u64 \<Rightarrow> ('o, 'x, 'h) vfs \<Rightarrow> ((fs_error + vfs_stat_t) \<times> ('o, 'x, 'h) vfs) run) option"

definition ops_of :: "('o \<Rightarrow> ('o, 'x, 'h) vfs_node_ops) \<Rightarrow> ('o, 'x, 'h) vfs \<Rightarrow> u64 \<Rightarrow> ('o, 'x, 'h) vfs_node_ops option" where
  "ops_of ops s node = map_option ops (vn_ops (fs_nodes s node))"

definition upd_node :: "u64 \<Rightarrow> ('o vfs_node \<Rightarrow> 'o vfs_node) \<Rightarrow> ('o, 'x, 'h) vfs \<Rightarrow> ('o, 'x, 'h) vfs" where
  "upd_node n f s = s\<lparr>fs_nodes := (fs_nodes s)(n := f (fs_nodes s n))\<rparr>"

definition kmalloc_fs :: "'h heap_ops \<Rightarrow> u64 \<Rightarrow> ('o, 'x, 'h) vfs \<Rightarrow> (u64 \<times> ('o, 'x, 'h) vfs) run" where
  "kmalloc_fs hp sz s = run_bind (hp_alloc hp sz (fs_heap s)) (\<lambda>(p, h). ret (p, s\<lparr>fs_heap := h\<rparr>))"

definition kfree_fs :: "'h heap_ops \<Rightarrow> u64 \<Rightarrow> ('o, 'x, 'h) vfs \<Rightarrow> ('o, 'x, 'h) vfs run" where
  "kfree_fs hp p s = run_bind (hp_free hp p (fs_heap s)) (\<lambda>h. ret (s\<lparr>fs_heap := h\<rparr>))"

section \<open>Strings and paths\<close>

definition vfs_strlen :: "bytes \<Rightarrow> nat" where
  "vfs_strlen s = length (takeWhile (\<lambda>c. c \<noteq> 0) s)"

fun vfs_strcmp :: "bytes \<Rightarrow> bytes \<Rightarrow> int" where
  "vfs_strcmp (a # as) (b # bs) = (if a \<noteq> 0 \<and> a = b then vfs_strcmp as bs else uint a - uint b)"
| "vfs_strcmp (a # as) [] = uint a"
| "vfs_strcmp [] (b # bs) = - uint b"
| "vfs_strcmp [] [] = 0"

fun trim_len :: "bytes \<Rightarrow> nat \<Rightarrow> nat" where
  "trim_len path 0 = 0"
| "trim_len path (Suc n) = (if 0 < n \<and> path ! n = slash then trim_len path n else Suc n)"

definition vfs_trim_path_len :: "bytes \<Rightarrow> nat" where
  "vfs_trim_path_len path = trim_len path (vfs_strlen path)"

text \<open>A pointer into a path together with the path's end is the list of the bytes between.\<close>

fun vfs_skip_slashes :: "bytes \<Rightarrow> bytes" where
  "vfs_skip_slashes [] = []"
| "vfs_skip_slashes (c # p) = (if c = slash then vfs_skip_slashes p else c # p)"

definition vfs_path_is_prefix :: "(u64 \<Rightarrow> bytes) \<Rightarrow> bytes \<Rightarrow> nat \<Rightarrow> vfs_mount_t \<Rightarrow> bool" where
  "vfs_path_is_prefix strs path path_len mnt =
     (let n = unat (mnt_path_len mnt)
      in if mnt_path mnt = 0 \<or> n = 0 then False
         else if n = 1 then 1 \<le> path_len \<and> path ! 0 = slash
         else if path_len < n then False
         else if take n path \<noteq> take n (strs (mnt_path mnt)) then False
         else if path_len = n then True
         else path ! n = slash)"

fun best_mount :: "(u64 \<Rightarrow> bytes) \<Rightarrow> bytes \<Rightarrow> nat \<Rightarrow> vfs_mount_t list \<Rightarrow> vfs_mount_t option \<Rightarrow> nat \<Rightarrow> vfs_mount_t option" where
  "best_mount strs path path_len [] best best_len = best"
| "best_mount strs path path_len (mnt # mnts) best best_len =
     (if \<not> vfs_path_is_prefix strs path path_len mnt then best_mount strs path path_len mnts best best_len
      else if best_len \<le> unat (mnt_path_len mnt)
      then best_mount strs path path_len mnts (Some mnt) (unat (mnt_path_len mnt))
      else best_mount strs path path_len mnts best best_len)"

definition vfs_find_mount_for_path :: "('o, 'x, 'h) vfs \<Rightarrow> bytes \<Rightarrow> nat \<Rightarrow> vfs_mount_t option" where
  "vfs_find_mount_for_path s path path_len = best_mount (fs_strings s) path path_len (g_mounts s) None 0"

section \<open>Nodes\<close>

text \<open>The walk along a list of siblings; \<open>None\<close> when the list runs in a circle without a match.\<close>

partial_function (option) find_sibling :: "('o, 'x, 'h) vfs \<Rightarrow> (bytes \<Rightarrow> bool) \<Rightarrow> u64 \<Rightarrow> u64 option" where
  "find_sibling s match node =
     (if node = 0 then Some 0
      else if vn_name (fs_nodes s node) \<noteq> 0 \<and> match (fs_strings s (vn_name (fs_nodes s node))) then Some node
      else find_sibling s match (vn_next_sibling (fs_nodes s node)))"

declare find_sibling.simps [code]

definition vfs_find_child :: "u64 \<Rightarrow> bytes \<Rightarrow> ('o, 'x, 'h) vfs \<Rightarrow> u64 run" where
  "vfs_find_child parent name s =
     (if parent = 0 then ret 0
      else map_option Inr (find_sibling s (\<lambda>n. vfs_strcmp n name = 0) (vn_first_child (fs_nodes s parent))))"

definition vfs_add_child :: "u64 \<Rightarrow> u64 \<Rightarrow> ('o, 'x, 'h) vfs \<Rightarrow> fs_error option \<times> ('o, 'x, 'h) vfs" where
  "vfs_add_child parent node s =
     (if parent = 0 \<or> node = 0 then (Some INVAL, s)
      else if vn_type (fs_nodes s parent) AND VFS_NODE_DIR = 0 then (Some NOTDIR, s)
      else
        let s1 = upd_node node (\<lambda>n. n\<lparr>vn_parent := parent\<rparr>) s;
            s2 = upd_node node (\<lambda>n. n\<lparr>vn_next_sibling := vn_first_child (fs_nodes s1 parent)\<rparr>) s1
        in (None, upd_node parent (\<lambda>n. n\<lparr>vn_first_child := node\<rparr>) s2))"

definition vfs_node_create :: "'h heap_ops \<Rightarrow> bytes \<Rightarrow> u32 \<Rightarrow> 'o option \<Rightarrow> u64 \<Rightarrow> ('o, 'x, 'h) vfs \<Rightarrow> (u64 \<times> ('o, 'x, 'h) vfs) run" where
  "vfs_node_create hp name type ops data s =
     run_bind (kmalloc_fs hp 72 s) (\<lambda>(node, s1).
       if node = 0 then ret (0, s1)
       else
         let s2 = upd_node node (\<lambda>_. \<lparr>vn_name = 0, vn_name_len = 0, vn_type = type, vn_flags = 0, vn_size = 0, vn_ops = ops,
                    vn_data = data, vn_parent = 0, vn_first_child = 0, vn_next_sibling = 0\<rparr>) s1;
             name_len = vfs_strlen name
         in if VFS_NAME_MAX < name_len then run_bind (kfree_fs hp node s2) (\<lambda>s3. ret (0, s3))
            else run_bind (kmalloc_fs hp (word_of_nat (name_len + 1)) s2) (\<lambda>(name_copy, s3).
              if name_copy = 0 then run_bind (kfree_fs hp node s3) (\<lambda>s4. ret (0, s4))
              else
                let s4 = s3\<lparr>fs_strings := (fs_strings s3)(name_copy := take name_len name)\<rparr>
                in ret (node, upd_node node (\<lambda>n. n\<lparr>vn_name := name_copy, vn_name_len := word_of_nat name_len,
                                                   vn_flags := vn_flags n OR VFS_NODE_NAME_OWNED\<rparr>) s4)))"

definition vfs_node_destroy :: "'h heap_ops \<Rightarrow> u64 \<Rightarrow> ('o, 'x, 'h) vfs \<Rightarrow> ('o, 'x, 'h) vfs run" where
  "vfs_node_destroy hp node s =
     (if node = 0 then ret s
      else run_bind
        (if vn_flags (fs_nodes s node) AND VFS_NODE_NAME_OWNED \<noteq> 0 \<and> vn_name (fs_nodes s node) \<noteq> 0
         then kfree_fs hp (vn_name (fs_nodes s node)) s else ret s)
        (\<lambda>s1. kfree_fs hp node s1))"

section \<open>Resolving paths\<close>

definition vfs_lookup_child :: "('o \<Rightarrow> ('o, 'x, 'h) vfs_node_ops) \<Rightarrow> u64 \<Rightarrow> bytes \<Rightarrow> ('o, 'x, 'h) vfs \<Rightarrow> (u64 \<times> ('o, 'x, 'h) vfs) run" where
  "vfs_lookup_child ops dir name s =
     (if dir = 0 then ret (0, s)
      else case Option.bind (ops_of ops s dir) op_lookup of
        Some lookup \<Rightarrow> lookup dir name s
      | None \<Rightarrow> run_bind (vfs_find_child dir name s) (\<lambda>node. ret (node, s)))"

lemma skip_slashes_drop: "vfs_skip_slashes p = dropWhile (\<lambda>c. c = slash) p"
  by (induction p) auto

lemma rest_shorter: "p \<noteq> [] \<Longrightarrow> length (dropWhile (\<lambda>c. c = slash) (drop (length (takeWhile (\<lambda>c. c \<noteq> slash) p)) p)) < length p"
proof (cases p)
  case (Cons c q)
  then show ?thesis
    using length_dropWhile_le [of "\<lambda>c. c = slash" q]
      length_dropWhile_le [of "\<lambda>c. c = slash" "drop (length (takeWhile (\<lambda>c. c \<noteq> slash) q)) q"] by auto
qed simp

text \<open>The loop of \<^verbatim>\<open>vfs_resolve_path\<close> over the segments; \<open>p\<close> are the bytes still to go.\<close>

function resolve_segments :: "('o \<Rightarrow> ('o, 'x, 'h) vfs_node_ops) \<Rightarrow> u64 \<Rightarrow> bytes \<Rightarrow> ('o, 'x, 'h) vfs \<Rightarrow>
    ((fs_error + u64) \<times> ('o, 'x, 'h) vfs) run" where
  "resolve_segments ops node p s =
     (if p = [] then ret (Inr node, s)
      else
        let seg = takeWhile (\<lambda>c. c \<noteq> slash) p; rest = drop (length seg) p
        in if seg = [] then resolve_segments ops node (vfs_skip_slashes rest) s
           else if VFS_NAME_MAX < length seg then ret (Inl NAMETOOLONG, s)
           else run_bind (vfs_lookup_child ops node seg s) (\<lambda>(node', s').
                  if node' = 0 then ret (Inl NOENT, s')
                  else
                    let p' = vfs_skip_slashes rest
                    in if p' \<noteq> [] \<and> vn_type (fs_nodes s' node') AND VFS_NODE_DIR = 0 then ret (Inl NOTDIR, s')
                       else resolve_segments ops node' p' s'))"
  by pat_completeness auto

termination
  by (relation "measure (\<lambda>(ops, node, p, s). length p)")
    (use rest_shorter in \<open>force simp: skip_slashes_drop\<close>)+

declare resolve_segments.simps [simp del]

definition vfs_resolve_path :: "('o \<Rightarrow> ('o, 'x, 'h) vfs_node_ops) \<Rightarrow> bytes \<Rightarrow> ('o, 'x, 'h) vfs \<Rightarrow>
    ((fs_error + u64) \<times> ('o, 'x, 'h) vfs) run" where
  "vfs_resolve_path ops path s =
     (if path = [] \<or> path ! 0 \<noteq> slash then ret (Inl INVAL, s)
      else
        let path_len = vfs_trim_path_len path
        in if path_len = 0 then ret (Inl INVAL, s)
           else case vfs_find_mount_for_path s path path_len of
             None \<Rightarrow> ret (Inl NOENT, s)
           | Some mnt \<Rightarrow>
               if mnt_root mnt = 0 then ret (Inl NOENT, s)
               else
                 let p0 = drop (unat (mnt_path_len mnt)) (take path_len path);
                     p1 = (if 1 < mnt_path_len mnt \<and> p0 \<noteq> [] \<and> hd p0 = slash then tl p0 else p0);
                     p2 = vfs_skip_slashes p1
                 in if p2 = [] then ret (Inr (mnt_root mnt), s) else resolve_segments ops (mnt_root mnt) p2 s)"

definition vfs_resolve :: "('o \<Rightarrow> ('o, 'x, 'h) vfs_node_ops) \<Rightarrow> bytes \<Rightarrow> ('o, 'x, 'h) vfs \<Rightarrow> (u64 \<times> ('o, 'x, 'h) vfs) run" where
  "vfs_resolve ops path s =
     run_bind (vfs_resolve_path ops path s) (\<lambda>(r, s'). ret (case r of Inl e \<Rightarrow> 0 | Inr node \<Rightarrow> node, s'))"

section \<open>Mounts\<close>

definition vfs_init :: "('o, 'x, 'h) vfs \<Rightarrow> ('o, 'x, 'h) vfs" where
  "vfs_init s = s\<lparr>g_mounts := []\<rparr>"

definition mounted_at :: "('o, 'x, 'h) vfs \<Rightarrow> bytes \<Rightarrow> nat \<Rightarrow> vfs_mount_t \<Rightarrow> bool" where
  "mounted_at s path path_len mnt \<longleftrightarrow>
     unat (mnt_path_len mnt) = path_len \<and> take path_len (fs_strings s (mnt_path mnt)) = take path_len path"

definition check_mount_point :: "('o \<Rightarrow> ('o, 'x, 'h) vfs_node_ops) \<Rightarrow> bytes \<Rightarrow> nat \<Rightarrow> ('o, 'x, 'h) vfs \<Rightarrow>
    (fs_error option \<times> ('o, 'x, 'h) vfs) run" where
  "check_mount_point ops path path_len s =
     (if 1 < path_len \<and> g_mounts s \<noteq> []
      then run_bind (vfs_resolve_path ops path s) (\<lambda>(r, s').
             ret (case r of
                    Inl e \<Rightarrow> Some e
                  | Inr mp \<Rightarrow> if vn_type (fs_nodes s' mp) AND VFS_NODE_DIR = 0 then Some NOTDIR else None, s'))
      else ret (None, s))"

definition add_mount :: "u64 \<Rightarrow> u64 \<Rightarrow> bytes \<Rightarrow> u64 \<Rightarrow> ('o, 'x, 'h) vfs \<Rightarrow> ('o, 'x, 'h) vfs" where
  "add_mount mnt mpath path root s =
     s\<lparr>fs_strings := (fs_strings s)(mpath := path),
       g_mounts := \<lparr>mnt_addr = mnt, mnt_path = mpath, mnt_path_len = word_of_nat (length path), mnt_root = root\<rparr> # g_mounts s\<rparr>"

definition link_mount :: "'h heap_ops \<Rightarrow> u64 \<Rightarrow> bytes \<Rightarrow> nat \<Rightarrow> ('o, 'x, 'h) vfs \<Rightarrow> (fs_error option \<times> ('o, 'x, 'h) vfs) run" where
  "link_mount hp root path path_len s =
     run_bind (kmalloc_fs hp 32 s) (\<lambda>(mnt, s1).
       if mnt = 0 then ret (Some NOMEM, s1)
       else run_bind (kmalloc_fs hp (word_of_nat (path_len + 1)) s1) (\<lambda>(mpath, s2).
         if mpath = 0 then run_bind (kfree_fs hp mnt s2) (\<lambda>s3. ret (Some NOMEM, s3))
         else ret (None, add_mount mnt mpath (take path_len path) root s2)))"

definition vfs_mount :: "'h heap_ops \<Rightarrow> ('o \<Rightarrow> ('o, 'x, 'h) vfs_node_ops) \<Rightarrow> u64 \<Rightarrow> bytes \<Rightarrow> ('o, 'x, 'h) vfs \<Rightarrow>
    (fs_error option \<times> ('o, 'x, 'h) vfs) run" where
  "vfs_mount hp ops root path s =
     (if root = 0 \<or> path = [] \<or> path ! 0 \<noteq> slash then ret (Some INVAL, s)
      else
        let path_len = vfs_trim_path_len path
        in if path_len = 0 then ret (Some INVAL, s)
           else if list_ex (mounted_at s path path_len) (g_mounts s) then ret (Some EXIST, s)
           else run_bind (check_mount_point ops path path_len s) (\<lambda>(rc, s0).
             case rc of Some e \<Rightarrow> ret (Some e, s0) | None \<Rightarrow> link_mount hp root path path_len s0))"

definition vfs_unmount_detach :: "'h heap_ops \<Rightarrow> bytes \<Rightarrow> ('o, 'x, 'h) vfs \<Rightarrow> ((fs_error + u64) \<times> ('o, 'x, 'h) vfs) run" where
  "vfs_unmount_detach hp path s =
     (if path = [] \<or> path ! 0 \<noteq> slash then ret (Inl INVAL, s)
      else
        let path_len = vfs_trim_path_len path
        in case List.extract (mounted_at s path path_len) (g_mounts s) of
             None \<Rightarrow> ret (Inl NOENT, s)
           | Some (before, mnt, after) \<Rightarrow>
               run_bind (kfree_fs hp (mnt_path mnt) (s\<lparr>g_mounts := before @ after\<rparr>)) (\<lambda>s1.
               run_bind (kfree_fs hp (mnt_addr mnt) s1) (\<lambda>s2.
               ret (Inr (mnt_root mnt), s2))))"

definition vfs_unmount :: "'h heap_ops \<Rightarrow> bytes \<Rightarrow> ('o, 'x, 'h) vfs \<Rightarrow> (fs_error option \<times> ('o, 'x, 'h) vfs) run" where
  "vfs_unmount hp path s =
     run_bind (vfs_unmount_detach hp path s) (\<lambda>(r, s'). ret (case r of Inl e \<Rightarrow> Some e | Inr _ \<Rightarrow> None, s'))"

section \<open>Files\<close>

definition open_node :: "'h heap_ops \<Rightarrow> ('o \<Rightarrow> ('o, 'x, 'h) vfs_node_ops) \<Rightarrow> u64 \<Rightarrow> u32 \<Rightarrow> ('o, 'x, 'h) vfs \<Rightarrow>
    ((fs_error + u64) \<times> ('o, 'x, 'h) vfs) run" where
  "open_node hp ops node flags s =
     run_bind (kmalloc_fs hp 32 s) (\<lambda>(file, s1).
       if file = 0 then ret (Inl NOMEM, s1)
       else
         let s2 = s1\<lparr>fs_files := (fs_files s1)(file := \<lparr>vf_node = node, vf_pos = 0, vf_flags = flags, vf_private_data = 0\<rparr>)\<rparr>
         in case Option.bind (ops_of ops s2 node) op_open of
              None \<Rightarrow> ret (Inr file, s2)
            | Some open' \<Rightarrow>
                run_bind (open' file flags s2) (\<lambda>(rc, s3).
                  case rc of
                    Some e \<Rightarrow> run_bind (kfree_fs hp file s3) (\<lambda>s4. ret (Inl e, s4))
                  | None \<Rightarrow> ret (Inr file, s3)))"

definition vfs_open :: "'h heap_ops \<Rightarrow> ('o \<Rightarrow> ('o, 'x, 'h) vfs_node_ops) \<Rightarrow> bytes \<Rightarrow> u32 \<Rightarrow> ('o, 'x, 'h) vfs \<Rightarrow>
    ((fs_error + u64) \<times> ('o, 'x, 'h) vfs) run" where
  "vfs_open hp ops path flags s =
     run_bind (vfs_resolve_path ops path s) (\<lambda>(r, s0).
       case r of Inl e \<Rightarrow> ret (Inl e, s0) | Inr node \<Rightarrow> open_node hp ops node flags s0)"

definition vfs_close :: "'h heap_ops \<Rightarrow> ('o \<Rightarrow> ('o, 'x, 'h) vfs_node_ops) \<Rightarrow> u64 \<Rightarrow> ('o, 'x, 'h) vfs \<Rightarrow>
    (fs_error option \<times> ('o, 'x, 'h) vfs) run" where
  "vfs_close hp ops file s =
     (if file = 0 then ret (Some INVAL, s)
      else
        let node = vf_node (fs_files s file)
        in run_bind
             (case (if node = 0 then None else Option.bind (ops_of ops s node) op_close) of
                None \<Rightarrow> ret (None, s)
              | Some close \<Rightarrow> close file s)
             (\<lambda>(rc, s1). run_bind (kfree_fs hp file s1) (\<lambda>s2. ret (rc, s2))))"

definition advance :: "u64 \<Rightarrow> u64 \<Rightarrow> ('o, 'x, 'h) vfs \<Rightarrow> ('o, 'x, 'h) vfs" where
  "advance file n s = s\<lparr>fs_files := (fs_files s)(file := (fs_files s file)\<lparr>vf_pos := vf_pos (fs_files s file) + n\<rparr>)\<rparr>"

definition vfs_read :: "('o \<Rightarrow> ('o, 'x, 'h) vfs_node_ops) \<Rightarrow> u64 \<Rightarrow> u64 \<Rightarrow> ('o, 'x, 'h) vfs \<Rightarrow>
    ((fs_error + bytes) \<times> ('o, 'x, 'h) vfs) run" where
  "vfs_read ops file len s =
     (if file = 0 \<or> vf_node (fs_files s file) = 0 then ret (Inl INVAL, s)
      else case Option.bind (ops_of ops s (vf_node (fs_files s file))) op_read of
        None \<Rightarrow> ret (Inl NOTSUP, s)
      | Some read \<Rightarrow>
          run_bind (read file len s) (\<lambda>(r, s1).
            ret (r, case r of
                      Inl e \<Rightarrow> s1
                    | Inr bs \<Rightarrow> if 0 < length bs then advance file (word_of_nat (length bs)) s1 else s1)))"

definition vfs_write :: "('o \<Rightarrow> ('o, 'x, 'h) vfs_node_ops) \<Rightarrow> u64 \<Rightarrow> bytes \<Rightarrow> ('o, 'x, 'h) vfs \<Rightarrow>
    ((fs_error + u64) \<times> ('o, 'x, 'h) vfs) run" where
  "vfs_write ops file buf s =
     (if file = 0 \<or> vf_node (fs_files s file) = 0 then ret (Inl INVAL, s)
      else case Option.bind (ops_of ops s (vf_node (fs_files s file))) op_write of
        None \<Rightarrow> ret (Inl NOTSUP, s)
      | Some write \<Rightarrow>
          run_bind (write file buf s) (\<lambda>(r, s1).
            ret (r, case r of Inl e \<Rightarrow> s1 | Inr n \<Rightarrow> if 0 < n then advance file n s1 else s1)))"

fun nth_sibling :: "('o, 'x, 'h) vfs \<Rightarrow> u64 \<Rightarrow> nat \<Rightarrow> u64" where
  "nth_sibling s node 0 = node"
| "nth_sibling s node (Suc i) = (if node = 0 then 0 else nth_sibling s (vn_next_sibling (fs_nodes s node)) i)"

definition vfs_readdir :: "('o \<Rightarrow> ('o, 'x, 'h) vfs_node_ops) \<Rightarrow> u64 \<Rightarrow> nat \<Rightarrow> ('o, 'x, 'h) vfs \<Rightarrow>
    ((fs_error + vfs_dirent option) \<times> ('o, 'x, 'h) vfs) run" where
  "vfs_readdir ops file index s =
     (if file = 0 \<or> vf_node (fs_files s file) = 0 then ret (Inl INVAL, s)
      else
        let dir = vf_node (fs_files s file)
        in if vn_type (fs_nodes s dir) AND VFS_NODE_DIR = 0 then ret (Inl NOTDIR, s)
           else case Option.bind (ops_of ops s dir) op_readdir of
             Some readdir \<Rightarrow> readdir dir index s
           | None \<Rightarrow>
               let node = nth_sibling s (vn_first_child (fs_nodes s dir)) index; n = fs_nodes s node
               in if node = 0 then ret (Inr None, s)
                  else if VFS_NAME_MAX < unat (vn_name_len n) then ret (Inl NAMETOOLONG, s)
                  else ret (Inr (Some \<lparr>vd_name = take (unat (vn_name_len n)) (fs_strings s (vn_name n)), vd_type = vn_type n\<rparr>), s))"

definition vfs_stat_node :: "('o \<Rightarrow> ('o, 'x, 'h) vfs_node_ops) \<Rightarrow> u64 \<Rightarrow> ('o, 'x, 'h) vfs \<Rightarrow>
    ((fs_error + vfs_stat_t) \<times> ('o, 'x, 'h) vfs) run" where
  "vfs_stat_node ops node s =
     (if node = 0 then ret (Inl INVAL, s)
      else case Option.bind (ops_of ops s node) op_stat of
        Some stat \<Rightarrow> stat node s
      | None \<Rightarrow> ret (Inr \<lparr>vs_type = vn_type (fs_nodes s node), vs_size = vn_size (fs_nodes s node)\<rparr>, s))"

definition vfs_stat :: "('o \<Rightarrow> ('o, 'x, 'h) vfs_node_ops) \<Rightarrow> bytes \<Rightarrow> ('o, 'x, 'h) vfs \<Rightarrow>
    ((fs_error + vfs_stat_t) \<times> ('o, 'x, 'h) vfs) run" where
  "vfs_stat ops path s =
     run_bind (vfs_resolve_path ops path s) (\<lambda>(r, s').
       case r of Inl e \<Rightarrow> ret (Inl e, s') | Inr node \<Rightarrow> vfs_stat_node ops node s')"

definition vfs_fstat :: "('o \<Rightarrow> ('o, 'x, 'h) vfs_node_ops) \<Rightarrow> u64 \<Rightarrow> ('o, 'x, 'h) vfs \<Rightarrow>
    ((fs_error + vfs_stat_t) \<times> ('o, 'x, 'h) vfs) run" where
  "vfs_fstat ops file s =
     (if file = 0 \<or> vf_node (fs_files s file) = 0 then ret (Inl INVAL, s)
      else vfs_stat_node ops (vf_node (fs_files s file)) s)"

section \<open>Resolving a path: mount, then components\<close>

text \<open>Walking down from a node, one component at a time.\<close>

fun walk_nodes :: "('o \<Rightarrow> ('o, 'x, 'h) vfs_node_ops) \<Rightarrow> u64 \<Rightarrow> bytes list \<Rightarrow> ('o, 'x, 'h) vfs \<Rightarrow>
    ((fs_error + u64) \<times> ('o, 'x, 'h) vfs) run" where
  "walk_nodes ops node [] s = ret (Inr node, s)"
| "walk_nodes ops node (seg # segs) s =
     (if VFS_NAME_MAX < length seg then ret (Inl NAMETOOLONG, s)
      else run_bind (vfs_lookup_child ops node seg s) (\<lambda>(node', s').
        if node' = 0 then ret (Inl NOENT, s')
        else if segs \<noteq> [] \<and> vn_type (fs_nodes s' node') AND VFS_NODE_DIR = 0 then ret (Inl NOTDIR, s')
        else walk_nodes ops node' segs s'))"

lemma path_segments_first:
  assumes "takeWhile (\<lambda>c. c \<noteq> slash) p \<noteq> []"
  shows "path_segments p = takeWhile (\<lambda>c. c \<noteq> slash) p # path_segments (drop (length (takeWhile (\<lambda>c. c \<noteq> slash) p)) p)"
proof -
  have "dropWhile (\<lambda>c. c = slash) p = p" "p \<noteq> []" using assms by (cases p; auto)+
  then show ?thesis unfolding path_segments.simps [of p] Let_def dropWhile_eq_drop [of "\<lambda>c. c \<noteq> slash"] by simp
qed

lemma resolve_walk: "resolve_segments ops node p s = walk_nodes ops node (path_segments p) s"
proof (induction ops node p s rule: resolve_segments.induct)
  case (1 ops node p s)
  let ?seg = "takeWhile (\<lambda>c. c \<noteq> slash) p"
  let ?rest = "drop (length ?seg) p"
  have skip: "path_segments (vfs_skip_slashes ?rest) = path_segments ?rest"
    unfolding skip_slashes_drop by (rule path_segments_skip)
  have ends: "vfs_skip_slashes ?rest = [] \<longleftrightarrow> path_segments ?rest = []"
    unfolding skip_slashes_drop path_segments_Nil ..
  show ?case
  proof (cases "p = []")
    case True
    then show ?thesis by (simp add: resolve_segments.simps path_segments.simps)
  next
    case ne: False
    show ?thesis
    proof (cases "?seg = []")
      case True
      then have "resolve_segments ops node p s = resolve_segments ops node (vfs_skip_slashes ?rest) s"
        using ne by (subst resolve_segments.simps) (simp add: Let_def)
      also have "\<dots> = walk_nodes ops node (path_segments ?rest) s"
        unfolding 1(1) [OF ne refl refl True] skip ..
      finally show ?thesis using True by simp
    next
      case False
      note IH = 1(2) [OF ne refl refl False, unfolded skip, simplified ends, OF _ _ refl]
      have "resolve_segments ops node p s =
         (if VFS_NAME_MAX < length ?seg then ret (Inl NAMETOOLONG, s)
          else run_bind (vfs_lookup_child ops node ?seg s) (\<lambda>(node', s').
            if node' = 0 then ret (Inl NOENT, s')
            else if path_segments ?rest \<noteq> [] \<and> vn_type (fs_nodes s' node') AND VFS_NODE_DIR = 0 then ret (Inl NOTDIR, s')
            else walk_nodes ops node' (path_segments ?rest) s'))"
        using ne False IH unfolding resolve_segments.simps [of ops node p s]
        by (auto simp: Let_def ends skip intro!: run_bind_cong)
      then show ?thesis unfolding path_segments_first [OF False] walk_nodes.simps .
    qed
  qed
qed

text \<open>A path without its trailing slashes; the root stays a slash.\<close>

abbreviation trimmed :: "bytes \<Rightarrow> bytes" where
  "trimmed path \<equiv> take (vfs_trim_path_len path) path"

lemma trim_len_spec:
  "0 < n \<Longrightarrow> 0 < trim_len path n \<and> trim_len path n \<le> n \<and> (trim_len path n = 1 \<or> path ! (trim_len path n - 1) \<noteq> slash) \<and>
     (\<forall>i. trim_len path n \<le> i \<and> i < n \<longrightarrow> path ! i = slash)"
  by (induction path n rule: trim_len.induct) (auto simp: less_Suc_eq)

lemma vfs_strlen_nonzero: "0 \<notin> set p \<Longrightarrow> vfs_strlen p = length p"
  unfolding vfs_strlen_def by (induction p) auto

lemma vfs_strlen_le: "vfs_strlen p \<le> length p"
  by (simp add: vfs_strlen_def length_takeWhile_le)

lemma trim_pos: "path \<noteq> [] \<Longrightarrow> path ! 0 = slash \<Longrightarrow> 0 < vfs_trim_path_len path \<and> vfs_trim_path_len path \<le> length path"
proof -
  assume "path \<noteq> []" "path ! 0 = slash"
  then have "0 < vfs_strlen path" by (cases path) (auto simp: vfs_strlen_def)
  then show ?thesis using trim_len_spec [of "vfs_strlen path" path] vfs_strlen_le [of path] by (simp add: vfs_trim_path_len_def)
qed

text \<open>The mounts as a table from paths to root nodes.\<close>

abbreviation mount_name :: "('o, 'x, 'h) vfs \<Rightarrow> vfs_mount_t \<Rightarrow> bytes" where
  "mount_name s mnt \<equiv> fs_strings s (mnt_path mnt)"

definition mount_table :: "('o, 'x, 'h) vfs \<Rightarrow> bytes \<rightharpoonup> u64" where
  "mount_table s = map_of (map (\<lambda>mnt. (mount_name s mnt, mnt_root mnt)) (g_mounts s))"

definition mount_ok :: "('o, 'x, 'h) vfs \<Rightarrow> vfs_mount_t \<Rightarrow> bool" where
  "mount_ok s mnt \<longleftrightarrow> mnt_path mnt \<noteq> 0 \<and> mnt_root mnt \<noteq> 0 \<and> length (mount_name s mnt) = unat (mnt_path_len mnt) \<and>
     mount_name s mnt \<noteq> [] \<and> mount_name s mnt ! 0 = slash"

definition mounts_ok :: "('o, 'x, 'h) vfs \<Rightarrow> bool" where
  "mounts_ok s \<longleftrightarrow> list_all (mount_ok s) (g_mounts s) \<and> distinct (map (mount_name s) (g_mounts s))"

text \<open>A mount path covers a path when it is the path or ends at one of its slashes.\<close>

definition covers :: "bytes \<Rightarrow> bytes \<Rightarrow> bool" where
  "covers mp p \<longleftrightarrow> length mp \<le> length p \<and> take (length mp) p = mp \<and> (mp = [slash] \<or> length p = length mp \<or> p ! length mp = slash)"

lemma path_is_prefix_covers:
  assumes "mount_ok s mnt" and "n \<le> length path" and "0 < n" and "path ! 0 = slash"
  shows "vfs_path_is_prefix (fs_strings s) path n mnt \<longleftrightarrow> covers (mount_name s mnt) (take n path)"
proof (cases "unat (mnt_path_len mnt) = 1")
  case True
  then have "mount_name s mnt = [slash]" using assms(1) by (cases "mount_name s mnt") (auto simp: mount_ok_def)
  then show ?thesis using True assms by (cases path; cases n) (auto simp: vfs_path_is_prefix_def covers_def mount_ok_def)
next
  case False
  then have "mount_name s mnt \<noteq> [slash]" "unat (mnt_path_len mnt) \<noteq> 0"
    using assms(1) by (auto simp: mount_ok_def simp flip: length_greater_0_conv)
  then show ?thesis using False assms(1,2)
    by (auto simp: vfs_path_is_prefix_def covers_def mount_ok_def Let_def min_def)
qed

lemma best_mount_spec:
  assumes "case best of None \<Rightarrow> best_len = 0 | Some b \<Rightarrow> vfs_path_is_prefix strs path n b \<and> best_len = unat (mnt_path_len b)"
  shows "case best_mount strs path n ms best best_len of
      None \<Rightarrow> best = None \<and> (\<forall>m \<in> set ms. \<not> vfs_path_is_prefix strs path n m)
    | Some r \<Rightarrow> (r \<in> set ms \<or> best = Some r) \<and> vfs_path_is_prefix strs path n r \<and> best_len \<le> unat (mnt_path_len r) \<and>
        (\<forall>m \<in> set ms. vfs_path_is_prefix strs path n m \<longrightarrow> mnt_path_len m \<le> mnt_path_len r)"
  using assms
proof (induction ms arbitrary: best best_len)
  case Nil
  then show ?case by (auto split: option.splits)
next
  case (Cons m ms)
  show ?case
  proof (cases "vfs_path_is_prefix strs path n m \<and> best_len \<le> unat (mnt_path_len m)")
    case True
    then show ?thesis using Cons.IH [of "unat (mnt_path_len m)" "Some m"] by (auto simp: word_le_nat_alt split: option.splits)
  next
    case False
    then show ?thesis using Cons.IH [OF Cons.prems] Cons.prems by (auto simp: word_le_nat_alt split: option.splits)
  qed
qed

lemma find_mount_spec:
  assumes "mounts_ok s" and "n \<le> length path" and "0 < n" and "path ! 0 = slash"
  shows "case vfs_find_mount_for_path s path n of
      None \<Rightarrow> \<forall>mnt \<in> set (g_mounts s). \<not> covers (mount_name s mnt) (take n path)
    | Some r \<Rightarrow> r \<in> set (g_mounts s) \<and> covers (mount_name s r) (take n path) \<and>
        (\<forall>mnt \<in> set (g_mounts s). covers (mount_name s mnt) (take n path) \<longrightarrow> length (mount_name s mnt) \<le> length (mount_name s r))"
proof -
  have "mount_ok s mnt" if "mnt \<in> set (g_mounts s)" for mnt
    using assms(1) that by (auto simp: mounts_ok_def list_all_iff)
  then have eq: "vfs_path_is_prefix (fs_strings s) path n mnt \<longleftrightarrow> covers (mount_name s mnt) (take n path)"
      "length (mount_name s mnt) = unat (mnt_path_len mnt)" if "mnt \<in> set (g_mounts s)" for mnt
    using path_is_prefix_covers [OF _ assms(2-4), of s mnt] that by (auto simp: mount_ok_def)
  have spec: "case vfs_find_mount_for_path s path n of
      None \<Rightarrow> (\<forall>m \<in> set (g_mounts s). \<not> vfs_path_is_prefix (fs_strings s) path n m)
    | Some r \<Rightarrow> r \<in> set (g_mounts s) \<and> vfs_path_is_prefix (fs_strings s) path n r \<and>
        (\<forall>m \<in> set (g_mounts s). vfs_path_is_prefix (fs_strings s) path n m \<longrightarrow> mnt_path_len m \<le> mnt_path_len r)"
    unfolding vfs_find_mount_for_path_def
    using best_mount_spec [where best = None and best_len = 0 and strs = "fs_strings s" and path = path and n = n and ms = "g_mounts s"] by (auto split: option.splits)
  show ?thesis
  proof (cases "vfs_find_mount_for_path s path n")
    case None
    then show ?thesis using spec eq by simp
  next
    case (Some r)
    then show ?thesis using spec eq by (auto simp: word_le_nat_alt)
  qed
qed

lemma covers_unique: "covers a p \<Longrightarrow> covers b p \<Longrightarrow> length a = length b \<Longrightarrow> a = b"
  by (metis covers_def)

lemma mount_table_Some:
  "mounts_ok s \<Longrightarrow> mount_table s mp = Some root \<longleftrightarrow> (\<exists>mnt \<in> set (g_mounts s). mount_name s mnt = mp \<and> mnt_root mnt = root)"
  by (auto simp: mount_table_def mounts_ok_def map_of_eq_Some_iff comp_def)

lemma dom_mount_table: "dom (mount_table s) = mount_name s ` set (g_mounts s)"
  by (simp add: mount_table_def dom_map_of_conv_image_fst image_comp comp_def)

lemma path_segments_slash: "path_segments (slash # p) = path_segments p"
  using path_segments_skip [of "slash # p"] path_segments_skip [of p] by simp

lemma resolve_path_mount:
  assumes "mounts_ok s" and "path \<noteq> []" and "path ! 0 = slash" and "mount_table s mp = Some root" and "covers mp (trimmed path)"
    and "\<forall>mp' \<in> dom (mount_table s). covers mp' (trimmed path) \<longrightarrow> length mp' \<le> length mp"
  shows "vfs_resolve_path ops path s = walk_nodes ops root (path_segments (drop (length mp) (trimmed path))) s"
proof -
  let ?n = "vfs_trim_path_len path" and ?rest = "drop (length mp) (trimmed path)"
  note n = trim_pos [OF assms(2,3)]
  obtain m where m: "m \<in> set (g_mounts s)" "mount_name s m = mp" "mnt_root m = root"
    using assms(4) mount_table_Some [OF assms(1)] by auto
  note F = find_mount_spec [OF assms(1) _ _ assms(3), of ?n]
  obtain r where r: "vfs_find_mount_for_path s path ?n = Some r" "r \<in> set (g_mounts s)" "covers (mount_name s r) (trimmed path)"
    "length mp \<le> length (mount_name s r)"
    using F n m assms(5) by (cases "vfs_find_mount_for_path s path ?n") auto
  have "mount_name s r = mp"
    using covers_unique [OF r(3) assms(5)] assms(6) r(2-4) by (auto simp: dom_mount_table)
  then have "r = m" using m r(2) assms(1) by (auto simp: mounts_ok_def distinct_map inj_on_def)
  then have root: "mnt_root r = root" "root \<noteq> 0" "unat (mnt_path_len r) = length mp"
    using m assms(1) by (auto simp: mounts_ok_def list_all_iff mount_ok_def)
  have segs: "path_segments (vfs_skip_slashes (if b \<and> q \<noteq> [] \<and> hd q = slash then tl q else q)) = path_segments q" for b q
    unfolding skip_slashes_drop path_segments_skip by (cases q) (auto simp: path_segments_slash)
  have "vfs_resolve_path ops path s =
      walk_nodes ops root (path_segments (vfs_skip_slashes (if 1 < mnt_path_len r \<and> ?rest \<noteq> [] \<and> hd ?rest = slash then tl ?rest else ?rest))) s"
    unfolding vfs_resolve_path_def Let_def r(1) option.case root(3) resolve_walk
    using n assms(2,3) root(1,2) by (auto simp: path_segments.simps [of "[]"])
  then show ?thesis unfolding segs .
qed

lemma resolve_path_no_mount:
  assumes "mounts_ok s" and "path \<noteq> []" and "path ! 0 = slash" and "\<forall>mp \<in> dom (mount_table s). \<not> covers mp (trimmed path)"
  shows "vfs_resolve_path ops path s = ret (Inl NOENT, s)"
  using find_mount_spec [OF assms(1) _ _ assms(3), of "vfs_trim_path_len path"] trim_pos [OF assms(2,3)] assms(2-4)
  by (cases "vfs_find_mount_for_path s path (vfs_trim_path_len path)") (auto simp: vfs_resolve_path_def dom_mount_table)

lemma find_sibling_in:
  assumes "find_sibling s match n = Some r" and "n \<in> insert 0 N"
    and links: "\<And>m. m \<in> N \<Longrightarrow> vn_next_sibling (fs_nodes s m) \<in> insert 0 N"
  shows "r \<in> insert 0 N"
proof -
  have "s = s \<longrightarrow> n \<in> insert 0 N \<longrightarrow> r \<in> insert 0 N"
    using assms(1)
  proof (rule find_sibling.raw_induct [rotated, where P = "\<lambda>s' match n r. s' = s \<longrightarrow> n \<in> insert 0 N \<longrightarrow> r \<in> insert 0 N"])
    fix f s' match m r'
    assume IH: "\<And>s' match m r'. f s' match m = Some r' \<Longrightarrow> s' = s \<longrightarrow> m \<in> insert 0 N \<longrightarrow> r' \<in> insert 0 N"
      and step: "(if m = 0 then Some 0
        else if vn_name (fs_nodes s' m) \<noteq> 0 \<and> match (fs_strings s' (vn_name (fs_nodes s' m))) then Some m
        else f s' match (vn_next_sibling (fs_nodes s' m))) = Some r'"
    show "s' = s \<longrightarrow> m \<in> insert 0 N \<longrightarrow> r' \<in> insert 0 N"
      using step IH links [of m] by (auto split: if_splits)
  qed
  then show ?thesis using assms(2) by blast
qed

section \<open>What a file system promises to the switch\<close>

text \<open>
  \<open>own s X N\<close>: the nodes and private data of the file systems occupy the heap blocks \<open>X\<close>, and \<open>N\<close> are
  the valid nodes among them. \<open>Y\<close> are the blocks of everybody else, the switch included: an
  operation of a file system may take and return blocks of its own, but keeps those.
\<close>

definition same_at :: "u64 set \<Rightarrow> ('o, 'x, 'h) vfs \<Rightarrow> ('o, 'x, 'h) vfs \<Rightarrow> bool" where
  "same_at A s s' \<longleftrightarrow> (\<forall>a \<in> A. fs_nodes s' a = fs_nodes s a \<and> fs_strings s' a = fs_strings s a \<and> fs_private s' a = fs_private s a)"

definition keeps :: "u64 set \<Rightarrow> ('o, 'x, 'h) vfs \<Rightarrow> ('o, 'x, 'h) vfs \<Rightarrow> bool" where
  "keeps Y s s' \<longleftrightarrow> g_mounts s' = g_mounts s \<and> fs_files s' = fs_files s \<and> same_at Y s s'"

definition in_order :: "('h \<Rightarrow> u64 set \<Rightarrow> bool) \<Rightarrow> (('o, 'x, 'h) vfs \<Rightarrow> u64 set \<Rightarrow> u64 set \<Rightarrow> bool) \<Rightarrow> u64 set \<Rightarrow>
    ('o, 'x, 'h) vfs \<Rightarrow> u64 set \<Rightarrow> bool" where
  "in_order ok own Y s N \<longleftrightarrow> (\<exists>X. own s X N \<and> ok (fs_heap s) (X \<union> Y) \<and> X \<inter> Y = {})"

definition moves :: "('h \<Rightarrow> u64 set \<Rightarrow> bool) \<Rightarrow> (('o, 'x, 'h) vfs \<Rightarrow> u64 set \<Rightarrow> u64 set \<Rightarrow> bool) \<Rightarrow> u64 set \<Rightarrow>
    u64 set \<Rightarrow> ('o, 'x, 'h) vfs \<Rightarrow> ('o, 'x, 'h) vfs \<Rightarrow> u64 set \<Rightarrow> bool" where
  "moves ok own Y N s s' N' \<longleftrightarrow> in_order ok own Y s' N' \<and> N \<subseteq> N' \<and> keeps Y s s'"

text \<open>The state of the whole: the open files are \<open>F\<close>, the blocks of the rest of the kernel \<open>L\<close>.\<close>

definition mount_blocks :: "('o, 'x, 'h) vfs \<Rightarrow> u64 list" where
  "mount_blocks s = concat (map (\<lambda>mnt. [mnt_addr mnt, mnt_path mnt]) (g_mounts s))"

definition switch_inv :: "('h \<Rightarrow> u64 set \<Rightarrow> bool) \<Rightarrow> (('o, 'x, 'h) vfs \<Rightarrow> u64 set \<Rightarrow> u64 set \<Rightarrow> bool) \<Rightarrow> u64 set \<Rightarrow>
    u64 set \<Rightarrow> ('o, 'x, 'h) vfs \<Rightarrow> u64 set \<Rightarrow> bool" where
  "switch_inv ok own L F s N \<longleftrightarrow>
     in_order ok own (L \<union> F \<union> set (mount_blocks s)) s N \<and> mounts_ok s \<and> distinct (mount_blocks s) \<and>
     L \<inter> F = {} \<and> (L \<union> F) \<inter> set (mount_blocks s) = {} \<and>
     (\<forall>mnt \<in> set (g_mounts s). mnt_root mnt \<in> N) \<and> (\<forall>f \<in> F. vf_node (fs_files s f) \<in> N)"

locale fs_backend = heap_source hp ok
  for hp :: "'h heap_ops" and ok :: "'h \<Rightarrow> u64 set \<Rightarrow> bool" +
  fixes ops :: "'o \<Rightarrow> ('o, 'x, 'h) vfs_node_ops"
    and own :: "('o, 'x, 'h) vfs \<Rightarrow> u64 set \<Rightarrow> u64 set \<Rightarrow> bool"
  assumes own_frame: "own s X N \<Longrightarrow> same_at X s s' \<Longrightarrow> own s' X N"
    and own_nodes: "own s X N \<Longrightarrow> N \<subseteq> X"
    and own_links: "own s X N \<Longrightarrow> n \<in> N \<Longrightarrow> {vn_first_child (fs_nodes s n), vn_next_sibling (fs_nodes s n)} \<subseteq> insert 0 N"
    and lookup_law: "in_order ok own Y s N \<Longrightarrow> dir \<in> N \<Longrightarrow> Option.bind (ops_of ops s dir) op_lookup = Some lookup \<Longrightarrow>
      yields (lookup dir name s) (\<lambda>(n, s'). \<exists>N'. moves ok own Y N s s' N' \<and> n \<in> insert 0 N')"
    and open_law: "in_order ok own Y s N \<Longrightarrow> vf_node (fs_files s file) \<in> N \<Longrightarrow>
      Option.bind (ops_of ops s (vf_node (fs_files s file))) op_open = Some open' \<Longrightarrow>
      yields (open' file flags s) (\<lambda>(rc, s'). \<exists>N'. moves ok own Y N s s' N')"
    and close_law: "in_order ok own Y s N \<Longrightarrow> vf_node (fs_files s file) \<in> N \<Longrightarrow>
      Option.bind (ops_of ops s (vf_node (fs_files s file))) op_close = Some close \<Longrightarrow>
      yields (close file s) (\<lambda>(rc, s'). \<exists>N'. moves ok own Y N s s' N')"
    and read_law: "in_order ok own Y s N \<Longrightarrow> vf_node (fs_files s file) \<in> N \<Longrightarrow>
      Option.bind (ops_of ops s (vf_node (fs_files s file))) op_read = Some read \<Longrightarrow>
      yields (read file len s) (\<lambda>(r, s'). \<exists>N'. moves ok own Y N s s' N')"
    and write_law: "in_order ok own Y s N \<Longrightarrow> vf_node (fs_files s file) \<in> N \<Longrightarrow>
      Option.bind (ops_of ops s (vf_node (fs_files s file))) op_write = Some write \<Longrightarrow>
      yields (write file buf s) (\<lambda>(r, s'). \<exists>N'. moves ok own Y N s s' N')"
    and readdir_law: "in_order ok own Y s N \<Longrightarrow> dir \<in> N \<Longrightarrow> Option.bind (ops_of ops s dir) op_readdir = Some readdir \<Longrightarrow>
      yields (readdir dir index s) (\<lambda>(r, s'). \<exists>N'. moves ok own Y N s s' N')"
    and stat_law: "in_order ok own Y s N \<Longrightarrow> node \<in> N \<Longrightarrow> Option.bind (ops_of ops s node) op_stat = Some stat \<Longrightarrow>
      yields (stat node s) (\<lambda>(r, s'). \<exists>N'. moves ok own Y N s s' N')"
begin

lemma moves_refl: "in_order ok own Y s N \<Longrightarrow> moves ok own Y N s s N"
  by (simp add: moves_def keeps_def same_at_def)

lemma moves_trans: "moves ok own Y N s s1 N1 \<Longrightarrow> moves ok own Y N1 s1 s2 N2 \<Longrightarrow> moves ok own Y N s s2 N2"
  by (auto simp: moves_def keeps_def same_at_def)

lemma zero_not_node: "in_order ok own Y s N \<Longrightarrow> 0 \<notin> N"
  using null_free own_nodes by (fastforce simp: in_order_def)

lemma lookup_child_moves:
  assumes "in_order ok own Y s N" and "dir \<in> N"
  shows "yields (vfs_lookup_child ops dir name s) (\<lambda>(n, s'). \<exists>N'. moves ok own Y N s s' N' \<and> n \<in> insert 0 N')"
proof (cases "Option.bind (ops_of ops s dir) op_lookup")
  case None
  obtain X where X: "own s X N" using assms(1) by (auto simp: in_order_def)
  have "yields (vfs_find_child dir name s) (\<lambda>n. n \<in> insert 0 N)"
    using find_sibling_in [of s _ "vn_first_child (fs_nodes s dir)" _ N] own_links [OF X] assms(2)
    by (auto simp: vfs_find_child_def yields_def)
  then show ?thesis using None moves_refl [OF assms(1)] by (auto simp: vfs_lookup_child_def elim!: yields_mono)
next
  case (Some f)
  then show ?thesis using lookup_law [OF assms Some] moves_refl [OF assms(1)] by (auto simp: vfs_lookup_child_def)
qed

lemma walk_moves:
  assumes "in_order ok own Y s N" and "node \<in> N"
  shows "yields (walk_nodes ops node segs s)
    (\<lambda>(r, s'). \<exists>N'. moves ok own Y N s s' N' \<and> (case r of Inl e \<Rightarrow> True | Inr n \<Rightarrow> n \<in> N'))"
  using assms
proof (induction segs arbitrary: node s N)
  case Nil
  then show ?case using moves_refl by auto
next
  case (Cons seg segs)
  show ?case
  proof (cases "VFS_NAME_MAX < length seg")
    case True
    then show ?thesis using moves_refl [OF Cons.prems(1)] by auto
  next
    case False
    show ?thesis
      unfolding walk_nodes.simps using False
    proof (simp only: if_False yields_simps, intro yields_mono [OF lookup_child_moves [OF Cons.prems]], clarify)
      fix n s1 N1 assume 1: "moves ok own Y N s s1 N1" "n \<in> insert 0 N1"
      show "yields (if n = 0 then ret (Inl NOENT, s1)
          else if segs \<noteq> [] \<and> vn_type (fs_nodes s1 n) AND VFS_NODE_DIR = 0 then ret (Inl NOTDIR, s1)
          else walk_nodes ops n segs s1)
        (\<lambda>(r, s'). \<exists>N'. moves ok own Y N s s' N' \<and> (case r of Inl e \<Rightarrow> True | Inr n \<Rightarrow> n \<in> N'))"
      proof (cases "n = 0 \<or> segs \<noteq> [] \<and> vn_type (fs_nodes s1 n) AND VFS_NODE_DIR = 0")
        case True
        then show ?thesis using 1(1) by auto
      next
        case False
        then have "in_order ok own Y s1 N1" "n \<in> N1" using 1 by (auto simp: moves_def)
        then have "yields (walk_nodes ops n segs s1)
          (\<lambda>(r, s'). \<exists>N'. moves ok own Y N s s' N' \<and> (case r of Inl e \<Rightarrow> True | Inr n \<Rightarrow> n \<in> N'))"
          using moves_trans [OF 1(1)] by (intro yields_mono [OF Cons.IH]) blast+
        then show ?thesis using False by (simp only: if_False de_Morgan_disj)
      qed
    qed
  qed
qed

end

context fs_backend
begin

lemma in_order_frame:
  assumes "in_order ok own Y s N" and "fs_nodes s' = fs_nodes s" and "\<forall>a. a \<notin> Y \<longrightarrow> fs_strings s' a = fs_strings s a"
    and "fs_private s' = fs_private s" and "fs_heap s' = fs_heap s"
  shows "in_order ok own Y s' N"
proof -
  obtain X where X: "own s X N" "ok (fs_heap s) (X \<union> Y)" "X \<inter> Y = {}" using assms(1) by (auto simp: in_order_def)
  have "own s' X N" using X(3) assms(2-4) by (intro own_frame [OF X(1)]) (auto simp: same_at_def)
  then show ?thesis unfolding in_order_def using X assms(5) by auto
qed

lemma kmalloc_in_order:
  assumes "in_order ok own Y s N" and "unat sz \<le> 2 ^ 64 - 16"
  shows "yields (kmalloc_fs hp sz s) (\<lambda>(p, s'). \<exists>h. s' = s\<lparr>fs_heap := h\<rparr> \<and>
    (if p = 0 then in_order ok own Y s' N else p \<notin> Y \<and> p \<notin> N \<and> in_order ok own (insert p Y) s' N))"
proof -
  obtain X where X: "own s X N" "ok (fs_heap s) (X \<union> Y)" "X \<inter> Y = {}" using assms(1) by (auto simp: in_order_def)
  have own: "own (s\<lparr>fs_heap := h\<rparr>) X N" for h by (rule own_frame [OF X(1)]) (simp add: same_at_def)
  show ?thesis
    unfolding kmalloc_fs_def yields_simps
  proof (rule yields_mono [OF alloc_block [OF X(2) assms(2)]], clarify)
    fix p h assume "if p = 0 then ok h (X \<union> Y) else p \<notin> X \<union> Y \<and> ok h (insert p (X \<union> Y))"
    then show "yields (ret (p, s\<lparr>fs_heap := h\<rparr>)) (\<lambda>(p, s'). \<exists>h. s' = s\<lparr>fs_heap := h\<rparr> \<and>
        (if p = 0 then in_order ok own Y s' N else p \<notin> Y \<and> p \<notin> N \<and> in_order ok own (insert p Y) s' N))"
      using own [of h] X(3) own_nodes [OF X(1)] by (auto simp: in_order_def split: if_splits)
  qed
qed

lemma kfree_in_order:
  assumes "in_order ok own Y s N" and "p \<in> Y"
  shows "\<exists>h. kfree_fs hp p s = ret (s\<lparr>fs_heap := h\<rparr>) \<and> in_order ok own (Y - {p}) (s\<lparr>fs_heap := h\<rparr>) N"
proof -
  obtain X where X: "own s X N" "ok (fs_heap s) (X \<union> Y)" "X \<inter> Y = {}" using assms(1) by (auto simp: in_order_def)
  obtain h where h: "hp_free hp p (fs_heap s) = ret h" "ok h (X \<union> Y - {p})" using free_block [OF X(2)] assms(2) by blast
  have "own (s\<lparr>fs_heap := h\<rparr>) X N" by (rule own_frame [OF X(1)]) (simp add: same_at_def)
  moreover have "X \<union> Y - {p} = X \<union> (Y - {p})" "X \<inter> (Y - {p}) = {}" using X(3) assms(2) by auto
  ultimately show ?thesis using h by (auto simp: kfree_fs_def in_order_def)
qed

lemma switch_keep:
  assumes "switch_inv ok own L F s N" and "in_order ok own (L \<union> F' \<union> set (mount_blocks s)) s' N'" and "N \<subseteq> N'"
    and "g_mounts s' = g_mounts s" and "\<forall>a \<in> set (mount_blocks s). fs_strings s' a = fs_strings s a"
    and "L \<inter> F' = {}" and "F' \<inter> set (mount_blocks s) = {}" and "\<forall>f \<in> F'. vf_node (fs_files s' f) \<in> N'"
  shows "switch_inv ok own L F' s' N'" and "mount_table s' = mount_table s" and "mount_blocks s' = mount_blocks s"
proof -
  show mb: "mount_blocks s' = mount_blocks s" by (simp add: mount_blocks_def assms(4))
  have names: "mount_name s' m = mount_name s m" if "m \<in> set (g_mounts s)" for m
    using that assms(5) by (auto simp: mount_blocks_def)
  then show "mount_table s' = mount_table s" by (simp add: mount_table_def assms(4) cong: map_cong)
  have "mounts_ok s'"
    using assms(1) names by (auto simp: switch_inv_def mounts_ok_def assms(4) list_all_iff mount_ok_def cong: map_cong)
  then show "switch_inv ok own L F' s' N'" using assms by (auto simp: switch_inv_def mb)
qed

lemma moves_switch:
  assumes "switch_inv ok own L F s N" and "moves ok own (L \<union> F \<union> set (mount_blocks s)) N s s' N'"
  shows "switch_inv ok own L F s' N'" and "mount_table s' = mount_table s" and "mount_blocks s' = mount_blocks s"
    and "N \<subseteq> N'" and "g_mounts s' = g_mounts s" and "fs_files s' = fs_files s"
proof -
  show k: "N \<subseteq> N'" "g_mounts s' = g_mounts s" "fs_files s' = fs_files s"
    using assms(2) by (auto simp: moves_def keeps_def)
  have "L \<inter> F = {}" "F \<inter> set (mount_blocks s) = {}" "\<forall>f \<in> F. vf_node (fs_files s' f) \<in> N'"
    using assms(1) k by (auto simp: switch_inv_def)
  note K = switch_keep [OF assms(1) _ k(1,2) _ this]
  show "switch_inv ok own L F s' N'" "mount_table s' = mount_table s" "mount_blocks s' = mount_blocks s"
    using K assms(2) by (auto simp: moves_def keeps_def same_at_def)
qed

lemma resolve_moves:
  assumes "switch_inv ok own L F s N"
  shows "yields (vfs_resolve_path ops path s) (\<lambda>(r, s'). \<exists>N'. moves ok own (L \<union> F \<union> set (mount_blocks s)) N s s' N' \<and>
    (case r of Inl e \<Rightarrow> True | Inr n \<Rightarrow> n \<in> N'))"
proof -
  let ?Y = "L \<union> F \<union> set (mount_blocks s)"
  have io: "in_order ok own ?Y s N" using assms by (simp add: switch_inv_def)
  note id = moves_refl [OF io]
  show ?thesis
  proof (cases "path = [] \<or> path ! 0 \<noteq> slash")
    case True
    then show ?thesis using id by (auto simp: vfs_resolve_path_def)
  next
    case path: False
    then have p: "path \<noteq> []" "path ! 0 = slash" "vfs_trim_path_len path \<noteq> 0" using trim_pos [of path] by auto
    show ?thesis
    proof (cases "vfs_find_mount_for_path s path (vfs_trim_path_len path)")
      case None
      then show ?thesis using id p by (auto simp: vfs_resolve_path_def)
    next
      case (Some m)
      then have "m \<in> set (g_mounts s)"
        using find_mount_spec [of s "vfs_trim_path_len path" path] trim_pos [OF p(1,2)] p assms by (simp add: switch_inv_def)
      then have "mnt_root m \<in> N" using assms by (simp add: switch_inv_def)
      then have "yields (walk_nodes ops (mnt_root m) segs s)
          (\<lambda>(r, s'). \<exists>N'. moves ok own ?Y N s s' N' \<and> (case r of Inl e \<Rightarrow> True | Inr n \<Rightarrow> n \<in> N'))" for segs
        by (rule walk_moves [OF io])
      then show ?thesis using id p Some \<open>mnt_root m \<in> N\<close> by (auto simp: vfs_resolve_path_def Let_def resolve_walk)
    qed
  qed
qed

lemma open_node_switch:
  assumes inv: "switch_inv ok own L F s N" and node: "node \<in> N"
  shows "yields (open_node hp ops node flags s) (\<lambda>(r, s'). \<exists>N'. N \<subseteq> N' \<and> g_mounts s' = g_mounts s \<and> mount_table s' = mount_table s \<and>
    (case r of Inl e \<Rightarrow> switch_inv ok own L F s' N'
     | Inr f \<Rightarrow> f \<notin> F \<and> f \<noteq> 0 \<and> switch_inv ok own L (insert f F) s' N'))"
  (is "yields _ ?Q")
proof -
  let ?Y = "L \<union> F \<union> set (mount_blocks s)"
  have io: "in_order ok own ?Y s N" and F: "\<forall>f \<in> F. vf_node (fs_files s f) \<in> N" "L \<inter> F = {}" "(L \<union> F) \<inter> set (mount_blocks s) = {}"
    using inv by (auto simp: switch_inv_def)
  show ?thesis
    unfolding open_node_def yields_simps
  proof (rule yields_mono [OF kmalloc_in_order [OF io]], simp, clarify, goal_cases)
    case (1 f s1 h)
    note s1 = 1(2)
    define s2 where "s2 = s\<lparr>fs_heap := h, fs_files := (fs_files s)(f := \<lparr>vf_node = node, vf_pos = 0, vf_flags = flags, vf_private_data = 0\<rparr>)\<rparr>"
    have s2: "in_order ok own (insert f ?Y) s2 N" if "f \<noteq> 0"
      by (rule in_order_frame [of _ "s\<lparr>fs_heap := h\<rparr>"]) (use s1 that in \<open>auto simp: s2_def\<close>)
    have k: "N \<subseteq> N3" "g_mounts s3 = g_mounts s" "\<forall>a \<in> set (mount_blocks s). fs_strings s3 a = fs_strings s a"
      "fs_files s3 = fs_files s2" "in_order ok own (insert f ?Y) s3 N3" if "moves ok own (insert f ?Y) N s2 s3 N3" for s3 N3
      using that by (auto simp: moves_def keeps_def same_at_def s2_def)
    have opened: "?Q (Inr f, s3)" if "f \<noteq> 0" and m: "moves ok own (insert f ?Y) N s2 s3 N3" for s3 N3
    proof -
      have Y: "L \<union> insert f F \<union> set (mount_blocks s) = insert f ?Y" by blast
      have "\<forall>g \<in> insert f F. vf_node (fs_files s3 g) \<in> N3" using k(1,4) [OF m] F(1) node s1 that(1) by (auto simp: s2_def)
      then have "switch_inv ok own L (insert f F) s3 N3" "mount_table s3 = mount_table s"
        using switch_keep [OF inv _ k(1-3) [OF m], of "insert f F", unfolded Y, OF k(5) [OF m]] s1 that(1) F(2,3) by auto
      then show ?thesis using k(1,2) [OF m] s1 that(1) by auto
    qed
    have failed: "yields (kfree_fs hp f s3) (\<lambda>s4. ?Q (Inl e, s4))" if "f \<noteq> 0" and m: "moves ok own (insert f ?Y) N s2 s3 N3" for s3 N3 e
    proof -
      have Y: "insert f ?Y - {f} = ?Y" using s1 that(1) by auto
      obtain h' where h': "kfree_fs hp f s3 = ret (s3\<lparr>fs_heap := h'\<rparr>)" "in_order ok own ?Y (s3\<lparr>fs_heap := h'\<rparr>) N3"
        using kfree_in_order [OF k(5) [OF m], of f, unfolded Y] by auto
      have "\<forall>g \<in> F. vf_node (fs_files s3 g) \<in> N3" using k(1,4) [OF m] F(1) s1 that(1) by (auto simp: s2_def)
      then have "switch_inv ok own L F (s3\<lparr>fs_heap := h'\<rparr>) N3" "mount_table (s3\<lparr>fs_heap := h'\<rparr>) = mount_table s"
        using switch_keep [OF inv h'(2) k(1) [OF m]] k(2,3) [OF m] F(2,3) by auto
      then show ?thesis using h'(1) k(1,2) [OF m] by auto
    qed
    show ?case
    proof (cases "f = 0")
      case True
      then have "in_order ok own ?Y (s\<lparr>fs_heap := h\<rparr>) N" using s1 by simp
      then have "switch_inv ok own L F (s\<lparr>fs_heap := h\<rparr>) N" "mount_table (s\<lparr>fs_heap := h\<rparr>) = mount_table s"
        using switch_keep [OF inv, of F "s\<lparr>fs_heap := h\<rparr>" N] F by auto
      then show ?thesis using True by auto
    next
      case False
      have node2: "vf_node (fs_files s2 f) = node" by (simp add: s2_def)
      show ?thesis
      proof (cases "Option.bind (ops_of ops s2 node) op_open")
        case None
        then show ?thesis using False opened [OF False moves_refl [OF s2 [OF False]]] by (simp add: s2_def)
      next
        case (Some g)
        have "yields (g f flags s2) (\<lambda>(rc, s3). yields (case rc of Some e \<Rightarrow> run_bind (kfree_fs hp f s3) (\<lambda>s4. ret (Inl e, s4))
            | None \<Rightarrow> ret (Inr f, s3)) ?Q)"
        proof (rule yields_mono [OF open_law [OF s2 [OF False], of f g flags, unfolded node2, OF node Some]], clarify)
          fix rc s3 N3 assume m: "moves ok own (insert f ?Y) N s2 s3 N3"
          show "yields (case rc of Some e \<Rightarrow> run_bind (kfree_fs hp f s3) (\<lambda>s4. ret (Inl e, s4)) | None \<Rightarrow> ret (Inr f, s3)) ?Q"
            using opened [OF False m] failed [OF False m] by (cases rc) auto
        qed
        then show ?thesis using False Some by (simp add: s2_def case_prod_unfold)
      qed
    qed
  qed
qed

lemma open_switch:
  assumes inv: "switch_inv ok own L F s N"
  shows "yields (vfs_open hp ops path flags s) (\<lambda>(r, s'). \<exists>N'. N \<subseteq> N' \<and> g_mounts s' = g_mounts s \<and> mount_table s' = mount_table s \<and>
    (case r of Inl e \<Rightarrow> switch_inv ok own L F s' N'
     | Inr f \<Rightarrow> f \<notin> F \<and> f \<noteq> 0 \<and> switch_inv ok own L (insert f F) s' N'))"
  unfolding vfs_open_def yields_simps
proof (rule yields_mono [OF resolve_moves [OF inv]], clarify, goal_cases)
  case (1 r s0 N0)
  note S = moves_switch [OF inv 1(2)]
  show ?case
  proof (cases r)
    case (Inl e)
    then show ?thesis using S by auto
  next
    case (Inr node)
    then have "node \<in> N0" using 1(3) by simp
    show ?thesis
      unfolding Inr sum.case
    proof (rule yields_mono [OF open_node_switch [OF S(1) \<open>node \<in> N0\<close>]], clarify, goal_cases)
      case (1 r' s' N')
      then show ?case using S(2,4,5) by (intro exI [of _ N']) auto
    qed
  qed
qed

end

context fs_backend
begin

lemma file_nonzero: "switch_inv ok own L F s N \<Longrightarrow> f \<in> F \<Longrightarrow> f \<noteq> 0 \<and> vf_node (fs_files s f) \<noteq> 0"
  using null_free zero_not_node by (fastforce simp: switch_inv_def in_order_def)

lemma switch_order:
  assumes "switch_inv ok own L F s N"
  shows "in_order ok own (L \<union> F \<union> set (mount_blocks s)) s N" and "f \<in> F \<Longrightarrow> vf_node (fs_files s f) \<in> N"
    and "L \<inter> F = {}" and "F \<inter> set (mount_blocks s) = {}"
  using assms by (auto simp: switch_inv_def)

lemma moves_yields:
  assumes "switch_inv ok own L F s N" and "yields m (\<lambda>(r, s'). \<exists>N'. moves ok own (L \<union> F \<union> set (mount_blocks s)) N s s' N')"
  shows "yields m (\<lambda>(r, s'). \<exists>N'. N \<subseteq> N' \<and> g_mounts s' = g_mounts s \<and> mount_table s' = mount_table s \<and> switch_inv ok own L F s' N')"
proof (rule yields_mono [OF assms(2)], clarify, goal_cases)
  case (1 r s' N')
  show ?case using moves_switch [OF assms(1) 1(2)] by (intro exI [of _ N']) simp
qed

lemma close_switch:
  assumes inv: "switch_inv ok own L F s N" and f: "f \<in> F"
  shows "yields (vfs_close hp ops f s) (\<lambda>(rc, s'). \<exists>N'. N \<subseteq> N' \<and> g_mounts s' = g_mounts s \<and> mount_table s' = mount_table s \<and> switch_inv ok own L (F - {f}) s' N')"
    (is "yields _ ?Q")
proof -
  let ?Y = "L \<union> F \<union> set (mount_blocks s)" and ?node = "vf_node (fs_files s f)"
  note io = switch_order [OF inv]
  have Y: "?Y - {f} = L \<union> (F - {f}) \<union> set (mount_blocks s)" using io(3,4) f by blast
  have disj: "L \<inter> (F - {f}) = {}" "(F - {f}) \<inter> set (mount_blocks s) = {}" using io(3,4) by auto
  have freed: "yields (kfree_fs hp f s1) (\<lambda>s2. ?Q (rc, s2))" if m: "moves ok own ?Y N s s1 N1" for s1 N1 rc
  proof -
    obtain h where h: "kfree_fs hp f s1 = ret (s1\<lparr>fs_heap := h\<rparr>)"
      "in_order ok own (L \<union> (F - {f}) \<union> set (mount_blocks s)) (s1\<lparr>fs_heap := h\<rparr>) N1"
      using kfree_in_order [of ?Y s1 N1 f, unfolded Y] m f by (auto simp: moves_def)
    have k: "N \<subseteq> N1" "g_mounts s1 = g_mounts s" "\<forall>a \<in> set (mount_blocks s). fs_strings s1 a = fs_strings s a"
      "\<forall>g \<in> F - {f}. vf_node (fs_files s1 g) \<in> N1"
      using m io(2) by (auto simp: moves_def keeps_def same_at_def)
    have "switch_inv ok own L (F - {f}) (s1\<lparr>fs_heap := h\<rparr>) N1" "mount_table (s1\<lparr>fs_heap := h\<rparr>) = mount_table s"
      using switch_keep [OF inv h(2) k(1) _ _ disj] k(2-4) by simp_all
    then show ?thesis using h(1) k(1,2) by auto
  qed
  have "yields (case Option.bind (ops_of ops s ?node) op_close of None \<Rightarrow> ret (None, s) | Some close \<Rightarrow> close f s)
      (\<lambda>(rc, s1). yields (kfree_fs hp f s1) (\<lambda>s2. ?Q (rc, s2)))"
  proof (cases "Option.bind (ops_of ops s ?node) op_close")
    case None
    then show ?thesis using freed [OF moves_refl [OF io(1)]] by simp
  next
    case (Some close)
    show ?thesis
      unfolding Some option.case
    proof (rule yields_mono [OF close_law [OF io(1) io(2) [OF f] Some]], clarify, goal_cases)
      case (1 rc s1 N1)
      show ?case using freed [OF 1(2)] by simp
    qed
  qed
  then show ?thesis
    using file_nonzero [OF inv f] by (simp add: vfs_close_def Let_def case_prod_unfold)
qed

lemma advance_switch:
  assumes "switch_inv ok own L F s N"
  shows "switch_inv ok own L F (advance f n s) N" and "mount_table (advance f n s) = mount_table s" and "g_mounts (advance f n s) = g_mounts s"
proof -
  have "in_order ok own (L \<union> F \<union> set (mount_blocks s)) (advance f n s) N"
    by (rule in_order_frame [OF switch_order(1) [OF assms]]) (auto simp: advance_def)
  then show "switch_inv ok own L F (advance f n s) N" "mount_table (advance f n s) = mount_table s"
    using switch_keep [OF assms _ subset_refl _ _ switch_order(3,4) [OF assms], of "advance f n s"] switch_order(2) [OF assms]
    by (simp_all add: advance_def)
  show "g_mounts (advance f n s) = g_mounts s" by (simp add: advance_def)
qed

lemma read_switch:
  assumes inv: "switch_inv ok own L F s N" and f: "f \<in> F"
  shows "yields (vfs_read ops f len s) (\<lambda>(r, s'). \<exists>N'. N \<subseteq> N' \<and> g_mounts s' = g_mounts s \<and> mount_table s' = mount_table s \<and> switch_inv ok own L F s' N')"
proof (cases "Option.bind (ops_of ops s (vf_node (fs_files s f))) op_read")
  case None
  then show ?thesis using inv file_nonzero [OF inv f] by (auto simp: vfs_read_def)
next
  case (Some read)
  note law = read_law [OF switch_order(1) [OF inv] switch_order(2) [OF inv f] Some]
  have "yields (read f len s) (\<lambda>(r, s1). yields (ret (r, case r of Inl e \<Rightarrow> s1 | Inr bs \<Rightarrow>
      if 0 < length bs then advance f (word_of_nat (length bs)) s1 else s1))
      (\<lambda>(r, s'). \<exists>N'. N \<subseteq> N' \<and> g_mounts s' = g_mounts s \<and> mount_table s' = mount_table s \<and> switch_inv ok own L F s' N'))"
  proof (rule yields_mono [OF law], clarify, goal_cases)
    case (1 r s1 N1)
    note S = moves_switch [OF inv 1(2)]
    show ?case using S advance_switch [OF S(1)] by (auto split: sum.split)
  qed
  then show ?thesis using Some file_nonzero [OF inv f] by (simp add: vfs_read_def case_prod_unfold)
qed

lemma write_switch:
  assumes inv: "switch_inv ok own L F s N" and f: "f \<in> F"
  shows "yields (vfs_write ops f buf s) (\<lambda>(r, s'). \<exists>N'. N \<subseteq> N' \<and> g_mounts s' = g_mounts s \<and> mount_table s' = mount_table s \<and> switch_inv ok own L F s' N')"
proof (cases "Option.bind (ops_of ops s (vf_node (fs_files s f))) op_write")
  case None
  then show ?thesis using inv file_nonzero [OF inv f] by (auto simp: vfs_write_def)
next
  case (Some wr)
  note law = write_law [OF switch_order(1) [OF inv] switch_order(2) [OF inv f] Some]
  have "yields (wr f buf s) (\<lambda>(r, s1). yields (ret (r, case r of Inl e \<Rightarrow> s1 | Inr n \<Rightarrow> if 0 < n then advance f n s1 else s1))
      (\<lambda>(r, s'). \<exists>N'. N \<subseteq> N' \<and> g_mounts s' = g_mounts s \<and> mount_table s' = mount_table s \<and> switch_inv ok own L F s' N'))"
  proof (rule yields_mono [OF law], clarify, goal_cases)
    case (1 r s1 N1)
    note S = moves_switch [OF inv 1(2)]
    show ?case using S advance_switch [OF S(1)] by (auto split: sum.split)
  qed
  then show ?thesis using Some file_nonzero [OF inv f] by (simp add: vfs_write_def case_prod_unfold)
qed

lemma readdir_switch:
  assumes inv: "switch_inv ok own L F s N" and f: "f \<in> F"
  shows "yields (vfs_readdir ops f index s) (\<lambda>(r, s'). \<exists>N'. N \<subseteq> N' \<and> g_mounts s' = g_mounts s \<and> mount_table s' = mount_table s \<and> switch_inv ok own L F s' N')"
proof (cases "Option.bind (ops_of ops s (vf_node (fs_files s f))) op_readdir")
  case None
  then show ?thesis using inv file_nonzero [OF inv f] by (auto simp: vfs_readdir_def Let_def)
next
  case (Some readdir)
  have "yields (readdir (vf_node (fs_files s f)) index s)
      (\<lambda>(r, s'). \<exists>N'. N \<subseteq> N' \<and> g_mounts s' = g_mounts s \<and> mount_table s' = mount_table s \<and> switch_inv ok own L F s' N')"
    by (rule moves_yields [OF inv readdir_law [OF switch_order(1) [OF inv] switch_order(2) [OF inv f] Some]])
  then show ?thesis using Some inv file_nonzero [OF inv f] by (auto simp: vfs_readdir_def Let_def)
qed

lemma stat_node_switch:
  assumes inv: "switch_inv ok own L F s N" and node: "node \<in> N"
  shows "yields (vfs_stat_node ops node s) (\<lambda>(r, s'). \<exists>N'. N \<subseteq> N' \<and> g_mounts s' = g_mounts s \<and> mount_table s' = mount_table s \<and> switch_inv ok own L F s' N')"
proof (cases "Option.bind (ops_of ops s node) op_stat")
  case None
  then show ?thesis using inv by (auto simp: vfs_stat_node_def)
next
  case (Some stat)
  have "yields (stat node s) (\<lambda>(r, s'). \<exists>N'. N \<subseteq> N' \<and> g_mounts s' = g_mounts s \<and> mount_table s' = mount_table s \<and> switch_inv ok own L F s' N')"
    by (rule moves_yields [OF inv stat_law [OF switch_order(1) [OF inv] node Some]])
  then show ?thesis using Some inv by (auto simp: vfs_stat_node_def)
qed

lemma stat_switch:
  assumes inv: "switch_inv ok own L F s N"
  shows "yields (vfs_stat ops path s) (\<lambda>(r, s'). \<exists>N'. N \<subseteq> N' \<and> g_mounts s' = g_mounts s \<and> mount_table s' = mount_table s \<and> switch_inv ok own L F s' N')"
  unfolding vfs_stat_def yields_simps
proof (rule yields_mono [OF resolve_moves [OF inv]], clarify, goal_cases)
  case (1 r s0 N0)
  note S = moves_switch [OF inv 1(2)]
  show ?case
  proof (cases r)
    case (Inl e)
    then show ?thesis using S by auto
  next
    case (Inr node)
    then have "node \<in> N0" using 1(3) by simp
    show ?thesis
      unfolding Inr sum.case
    proof (rule yields_mono [OF stat_node_switch [OF S(1) \<open>node \<in> N0\<close>]], clarify, goal_cases)
      case (1 r' s' N')
      then show ?case using S(2,4,5) by (intro exI [of _ N']) auto
    qed
  qed
qed

end

lemma mounted_at_name: "mount_ok s m \<Longrightarrow> n \<le> length path \<Longrightarrow> mounted_at s path n m \<longleftrightarrow> mount_name s m = take n path"
  by (auto simp: mounted_at_def mount_ok_def)

lemma mounted_iff:
  assumes "mounts_ok s" and "n \<le> length path"
  shows "list_ex (mounted_at s path n) (g_mounts s) \<longleftrightarrow> take n path \<in> dom (mount_table s)"
  using assms(1) mounted_at_name [OF _ assms(2), of s]
  by (auto simp: mounts_ok_def list_all_iff list_ex_iff dom_mount_table) force

lemma distinct_mount_blocks: "distinct (mount_blocks s) \<Longrightarrow> mnt \<in> set (g_mounts s) \<Longrightarrow> mnt_addr mnt \<noteq> mnt_path mnt"
  by (auto simp: mount_blocks_def distinct_concat_iff)

lemma map_of_remove: "k \<notin> fst ` set xs \<Longrightarrow> k \<notin> fst ` set ys \<Longrightarrow> map_of (xs @ ys) = (map_of (xs @ (k, v) # ys))(k := None)"
  by (induction xs) (auto simp: fun_eq_iff map_of_eq_None_iff)

context fs_backend
begin

lemma check_moves:
  assumes "switch_inv ok own L F s N"
  shows "yields (check_mount_point ops path n s) (\<lambda>(rc, s'). \<exists>N'. moves ok own (L \<union> F \<union> set (mount_blocks s)) N s s' N')"
proof (cases "1 < n \<and> g_mounts s \<noteq> []")
  case False
  then show ?thesis using moves_refl [OF switch_order(1) [OF assms]] by (auto simp: check_mount_point_def)
next
  case True
  have "yields (vfs_resolve_path ops path s) (\<lambda>(r, s'). \<exists>N'. moves ok own (L \<union> F \<union> set (mount_blocks s)) N s s' N')"
    by (rule yields_mono [OF resolve_moves [OF assms]]) auto
  then show ?thesis using True by (simp add: check_mount_point_def case_prod_unfold)
qed

lemma keeps_trans: "keeps Y s s1 \<Longrightarrow> keeps Y s1 s2 \<Longrightarrow> keeps Y s s2"
  by (auto simp: keeps_def same_at_def)

lemma new_mount:
  assumes inv: "switch_inv ok own L F s N" and root: "root \<in> N" and p: "p \<noteq> []" "p ! 0 = slash" "length p < 65536" "p \<notin> dom (mount_table s)"
    and io: "in_order ok own (insert b (insert a (L \<union> F \<union> set (mount_blocks s)))) s1 N" "s1 = s\<lparr>fs_heap := h\<rparr>"
    and fresh: "a \<notin> L \<union> F \<union> set (mount_blocks s)" "b \<notin> insert a (L \<union> F \<union> set (mount_blocks s))" "b \<noteq> 0"
  defines "s' \<equiv> add_mount a b p root s1"
  shows "switch_inv ok own L F s' N" and "mount_table s' = (mount_table s)(p \<mapsto> root)"
proof -
  have mb: "mount_blocks s' = a # b # mount_blocks s" by (simp add: mount_blocks_def s'_def add_mount_def io(2))
  have names: "mount_name s' m = mount_name s m" if "m \<in> set (g_mounts s)" for m
    using that fresh(2) by (auto simp: s'_def add_mount_def io(2) mount_blocks_def)
  have Y: "L \<union> F \<union> set (mount_blocks s') = insert b (insert a (L \<union> F \<union> set (mount_blocks s)))" by (auto simp: mb)
  have "in_order ok own (L \<union> F \<union> set (mount_blocks s')) s' N"
    unfolding Y by (rule in_order_frame [OF io(1)]) (auto simp: s'_def add_mount_def)
  moreover have "mounts_ok s'"
  proof -
    have "unat (word_of_nat (length p) :: u16) = length p" using p(3) by (simp add: unat_of_nat)
    then have "mount_ok s' (hd (g_mounts s'))"
      using p fresh(3) root zero_not_node [OF switch_order(1) [OF inv]] by (auto simp: s'_def add_mount_def mount_ok_def io(2))
    moreover have "mount_ok s' m" if "m \<in> set (g_mounts s)" for m
      using inv that names [OF that] by (auto simp: switch_inv_def mounts_ok_def list_all_iff mount_ok_def)
    ultimately show ?thesis
      using inv p(4) names by (auto simp: mounts_ok_def list_all_iff s'_def add_mount_def io(2) switch_inv_def dom_mount_table cong: map_cong)
  qed
  ultimately show "switch_inv ok own L F s' N"
    using inv root fresh by (auto simp: switch_inv_def mb) (auto simp: s'_def add_mount_def io(2))
  have "mount_table s' = (map_of (map (\<lambda>m. (mount_name s' m, mnt_root m)) (g_mounts s)))(p \<mapsto> root)"
    by (simp add: mount_table_def s'_def add_mount_def io(2))
  then show "mount_table s' = (mount_table s)(p \<mapsto> root)" using names by (simp add: mount_table_def cong: map_cong)
qed

lemma heap_only:
  assumes "switch_inv ok own L F s N" and "in_order ok own (L \<union> F \<union> set (mount_blocks s)) (s\<lparr>fs_heap := h\<rparr>) N"
  shows "switch_inv ok own L F (s\<lparr>fs_heap := h\<rparr>) N" and "mount_table (s\<lparr>fs_heap := h\<rparr>) = mount_table s"
  using switch_keep [OF assms subset_refl _ _ switch_order(3,4) [OF assms(1)]] switch_order(2) [OF assms(1)] by simp_all

lemma link_mount_spec:
  assumes inv: "switch_inv ok own L F s N" and n: "n < 65536"
  shows "yields (link_mount hp root path n s) (\<lambda>(rc, s').
    case rc of
      Some e \<Rightarrow> (\<exists>h. s' = s\<lparr>fs_heap := h\<rparr>) \<and> switch_inv ok own L F s' N
    | None \<Rightarrow> \<exists>a b h. s' = add_mount a b (take n path) root (s\<lparr>fs_heap := h\<rparr>) \<and> b \<noteq> 0 \<and>
        a \<notin> L \<union> F \<union> set (mount_blocks s) \<and> b \<notin> insert a (L \<union> F \<union> set (mount_blocks s)) \<and>
        in_order ok own (insert b (insert a (L \<union> F \<union> set (mount_blocks s)))) (s\<lparr>fs_heap := h\<rparr>) N)" (is "yields _ ?Q")
  unfolding link_mount_def yields_simps
proof (rule yields_mono [OF kmalloc_in_order [OF switch_order(1) [OF inv]]], simp, clarify, goal_cases)
  case (1 a s1 h1)
  let ?Y = "L \<union> F \<union> set (mount_blocks s)"
  have sz: "unat (word_of_nat (n + 1) :: u64) \<le> 2 ^ 64 - 16" using n by (simp add: unat_of_nat del: of_nat_add of_nat_Suc)
  show ?case
  proof (cases "a = 0")
    case True
    then show ?thesis using 1(2) heap_only [OF inv, of h1] by auto
  next
    case False
    then have a: "a \<notin> ?Y" "in_order ok own (insert a ?Y) (s\<lparr>fs_heap := h1\<rparr>) N" using 1(2) by auto
    have "yields (kmalloc_fs hp (word_of_nat (n + 1)) (s\<lparr>fs_heap := h1\<rparr>)) (\<lambda>(b, s2).
        yields (if b = 0 then run_bind (kfree_fs hp a s2) (\<lambda>s3. ret (Some NOMEM, s3))
          else ret (None, add_mount a b (take n path) root s2)) ?Q)"
    proof (rule yields_mono [OF kmalloc_in_order [OF a(2) sz]], clarify, goal_cases)
      case (1 b s2 h2)
      have upd: "s\<lparr>fs_heap := h1, fs_heap := h2\<rparr> = s\<lparr>fs_heap := h2\<rparr>" by simp
      show ?case
      proof (cases "b = 0")
        case True
        have Y: "insert a ?Y - {a} = ?Y" using a(1) by auto
        obtain h3 where "kfree_fs hp a (s\<lparr>fs_heap := h2\<rparr>) = ret (s\<lparr>fs_heap := h3\<rparr>)" "in_order ok own ?Y (s\<lparr>fs_heap := h3\<rparr>) N"
          using kfree_in_order [of "insert a ?Y" "s\<lparr>fs_heap := h2\<rparr>" N a, unfolded Y] 1(2) True by auto
        then show ?thesis using True heap_only [OF inv, of h3] by (auto simp: upd)
      next
        case False
        then have "b \<notin> insert a ?Y" "in_order ok own (insert b (insert a ?Y)) (s\<lparr>fs_heap := h2\<rparr>) N" using 1(2) by auto
        then have "?Q (None, add_mount a b (take n path) root (s\<lparr>fs_heap := h2\<rparr>))"
          using False a(1) by (simp only: prod.case option.case) blast
        then show ?thesis using False by (simp add: upd)
      qed
    qed
    then show ?thesis using False by (simp add: case_prod_unfold)
  qed
qed

text \<open>
  A call of \<^verbatim>\<open>vfs_mount\<close>: it walks to the mount point, which may bring nodes into being, and then
  either links a new mount or changes nothing more.
\<close>

lemma mount_spec:
  assumes inv: "switch_inv ok own L F s N" and len: "length path < 65536"
  defines "Y \<equiv> L \<union> F \<union> set (mount_blocks s)"
  shows "yields (vfs_mount hp ops root path s) (\<lambda>(rc, s'). \<exists>s0 N0. moves ok own Y N s s0 N0 \<and>
    (case rc of
      Some e \<Rightarrow> (\<exists>h. s' = s0\<lparr>fs_heap := h\<rparr>) \<and> switch_inv ok own L F s' N0
    | None \<Rightarrow> root \<noteq> 0 \<and> trimmed path \<noteq> [] \<and> trimmed path ! 0 = slash \<and> trimmed path \<notin> dom (mount_table s) \<and>
        (\<exists>a b h. s' = add_mount a b (trimmed path) root (s0\<lparr>fs_heap := h\<rparr>) \<and> b \<noteq> 0 \<and> a \<notin> Y \<and> b \<notin> insert a Y \<and>
          in_order ok own (insert b (insert a Y)) (s0\<lparr>fs_heap := h\<rparr>) N0)))" (is "yields _ ?Q")
proof -
  have id: "moves ok own Y N s s N" unfolding Y_def by (rule moves_refl [OF switch_order(1) [OF inv]])
  have refused: "?Q (Some e, s)" for e using id inv by (auto intro!: exI [of _ s] exI [of _ N] exI [of _ "fs_heap s"])
  show ?thesis
  proof (cases "root \<noteq> 0 \<and> path \<noteq> [] \<and> path ! 0 = slash \<and> \<not> list_ex (mounted_at s path (vfs_trim_path_len path)) (g_mounts s)")
    case False
    then show ?thesis using refused trim_pos [of path] by (auto simp: vfs_mount_def Let_def simp del: split_paired_Ex)
  next
    case True
    let ?n = "vfs_trim_path_len path"
    have n: "0 < ?n" "?n \<le> length path" "path ! 0 = slash" using trim_pos [of path] True by auto
    then have t: "trimmed path \<noteq> []" "trimmed path ! 0 = slash" using True by auto
    have new: "trimmed path \<notin> dom (mount_table s)"
      using True mounted_iff [OF _ n(2), of s] inv unfolding switch_inv_def by blast
    have "yields (check_mount_point ops path ?n s) (\<lambda>(rc, s0).
        yields (case rc of Some e \<Rightarrow> ret (Some e, s0) | None \<Rightarrow> link_mount hp root path ?n s0) ?Q)"
    proof (rule yields_mono [OF check_moves [OF inv]], clarify, goal_cases)
      case (1 rc s0 N0)
      note S = moves_switch [OF inv 1(2)] and m = 1(2) [folded Y_def]
      show ?case
      proof (cases rc)
        case (Some e)
        then show ?thesis using S m by (auto intro!: exI [of _ s0] exI [of _ N0] exI [of _ "fs_heap s0"])
      next
        case None
        have "?n < 65536" using len n(2) by simp
        from link_mount_spec [OF S(1) this, unfolded S(3), folded Y_def] show ?thesis
          unfolding None option.case
        proof (rule yields_mono, clarify, goal_cases)
          case (1 rc' s')
          then show ?case using m t new True
            by (intro exI [of _ s0] exI [of _ N0]) (auto split: option.splits)
        qed
      qed
    qed
    then show ?thesis using True n by (simp add: vfs_mount_def Let_def case_prod_unfold)
  qed
qed

lemma unmount_switch:
  assumes inv: "switch_inv ok own L F s N"
  shows "\<exists>r s'. vfs_unmount_detach hp path s = ret (r, s') \<and> switch_inv ok own L F s' N \<and> s' = s\<lparr>g_mounts := g_mounts s', fs_heap := fs_heap s'\<rparr> \<and>
    (case r of Inl e \<Rightarrow> s' = s \<and> trimmed path \<notin> dom (mount_table s)
     | Inr root \<Rightarrow> mount_table s (trimmed path) = Some root \<and> mount_table s' = (mount_table s)(trimmed path := None) \<and>
         (\<exists>xs m ys. g_mounts s = xs @ m # ys \<and> g_mounts s' = xs @ ys \<and> mnt_root m = root))"
proof (cases "path \<noteq> [] \<and> path ! 0 = slash \<and> List.extract (mounted_at s path (vfs_trim_path_len path)) (g_mounts s) \<noteq> None")
  case False
  have ok: "mount_ok s m" if "m \<in> set (g_mounts s)" for m
    using inv that by (auto simp: switch_inv_def mounts_ok_def list_all_iff)
  have no: "mount_name s m \<noteq> trimmed path" if m: "m \<in> set (g_mounts s)" for m
  proof (cases "path \<noteq> [] \<and> path ! 0 = slash")
    case True
    then have "List.extract (mounted_at s path (vfs_trim_path_len path)) (g_mounts s) = None" using False by blast
    then have "\<not> mounted_at s path (vfs_trim_path_len path) m" using m by (auto simp: extract_None_iff)
    then show ?thesis using mounted_at_name [OF ok [OF m], of "vfs_trim_path_len path" path] trim_pos [of path] True by simp
  next
    case False
    then have "trimmed path = [] \<or> trimmed path ! 0 \<noteq> slash" by (cases "vfs_trim_path_len path") auto
    then show ?thesis using ok [OF m] by (auto simp: mount_ok_def)
  qed
  have "trimmed path \<notin> dom (mount_table s)" by (simp add: dom_mount_table image_iff no [symmetric])
  then show ?thesis using inv False
    by (cases "List.extract (mounted_at s path (vfs_trim_path_len path)) (g_mounts s)") (auto simp: vfs_unmount_detach_def Let_def)
next
  case True
  let ?n = "vfs_trim_path_len path" and ?Y = "L \<union> F \<union> set (mount_blocks s)"
  have n: "0 < ?n" "?n \<le> length path" "path ! 0 = slash" using trim_pos [of path] True by auto
  obtain xs m ys where ex: "List.extract (mounted_at s path ?n) (g_mounts s) = Some (xs, m, ys)" using True by auto
  then have ms: "g_mounts s = xs @ m # ys" and at: "mounted_at s path ?n m" by (auto simp: extract_Some_iff)
  have ok: "mounts_ok s" "distinct (mount_blocks s)" using inv by (auto simp: switch_inv_def)
  then have m: "mount_ok s m" "mount_name s m = trimmed path" "distinct (map (mount_name s) (xs @ m # ys))"
    using at mounted_at_name [OF _ n(2), of s m] by (auto simp: mounts_ok_def list_all_iff ms)
  define s0 where "s0 = s\<lparr>g_mounts := xs @ ys\<rparr>"
  let ?Z = "L \<union> F \<union> set (mount_blocks s0)"
  have mb: "distinct (mnt_path m # mnt_addr m # mount_blocks s0)" "set (mount_blocks s) = set (mnt_path m # mnt_addr m # mount_blocks s0)"
    using ok(2) by (auto simp: mount_blocks_def ms s0_def)
  have sep: "(L \<union> F) \<inter> set (mount_blocks s) = {}" using inv by (simp add: switch_inv_def)
  have d: "mnt_path m \<notin> ?Z" "mnt_addr m \<notin> ?Z" "mnt_path m \<noteq> mnt_addr m" using mb(1) sep [unfolded mb(2)] by auto
  have eq: "?Y = insert (mnt_path m) (insert (mnt_addr m) ?Z)" unfolding mb(2) by auto
  have Y: "?Y - {mnt_path m} - {mnt_addr m} = ?Z" "mnt_path m \<in> ?Y" "mnt_addr m \<in> ?Y - {mnt_path m}"
    unfolding eq using d by auto
  have "in_order ok own ?Y s0 N" by (rule in_order_frame [OF switch_order(1) [OF inv]]) (auto simp: s0_def)
  from kfree_in_order [OF this Y(2)] obtain h1 where h1: "kfree_fs hp (mnt_path m) s0 = ret (s0\<lparr>fs_heap := h1\<rparr>)"
    "in_order ok own (?Y - {mnt_path m}) (s0\<lparr>fs_heap := h1\<rparr>) N" by auto
  from kfree_in_order [OF h1(2) Y(3), unfolded Y(1)] obtain h2 where
    h2: "kfree_fs hp (mnt_addr m) (s0\<lparr>fs_heap := h1\<rparr>) = ret (s0\<lparr>fs_heap := h2\<rparr>)" "in_order ok own ?Z (s0\<lparr>fs_heap := h2\<rparr>) N"
    by auto
  let ?s' = "s0\<lparr>fs_heap := h2\<rparr>"
  have run: "vfs_unmount_detach hp path s = ret (Inr (mnt_root m), ?s')"
    using True ex h1(1) h2(1) by (simp add: vfs_unmount_detach_def Let_def s0_def)
  have mb': "mount_blocks ?s' = mount_blocks s0" by (simp add: mount_blocks_def)
  have "mounts_ok ?s'" using ok(1) m(3) by (simp add: mounts_ok_def list_all_iff mount_ok_def ms s0_def)
  moreover have "in_order ok own (L \<union> F \<union> set (mount_blocks ?s')) ?s' N" "(L \<union> F) \<inter> set (mount_blocks ?s') = {}"
    using h2(2) sep unfolding mb' mb(2) by auto
  moreover have "\<forall>mnt \<in> set (g_mounts ?s'). mnt_root mnt \<in> N" "\<forall>f \<in> F. vf_node (fs_files ?s' f) \<in> N" "L \<inter> F = {}"
    using inv by (auto simp: switch_inv_def s0_def ms)
  ultimately have inv': "switch_inv ok own L F ?s' N" using mb(1) unfolding switch_inv_def mb' by simp
  let ?row = "\<lambda>m. (mount_name s m, mnt_root m)"
  have "map_of (map ?row xs @ map ?row ys) = (map_of (map ?row xs @ ?row m # map ?row ys))(mount_name s m := None)"
    using m(3) by (intro map_of_remove) (auto simp: image_comp comp_def)
  then have "mount_table ?s' = (mount_table s)(trimmed path := None)" by (simp add: mount_table_def ms s0_def m(2))
  moreover have "mount_table s (trimmed path) = Some (mnt_root m)"
    using mount_table_Some [OF ok(1)] m(2) by (auto simp: ms)
  ultimately show ?thesis using run inv' ms by (intro exI [of _ "Inr (mnt_root m)"] exI [of _ ?s']) (auto simp: s0_def)
qed

end

section \<open>Creating and destroying nodes\<close>

abbreviation fresh_node :: "u64 \<Rightarrow> u16 \<Rightarrow> u32 \<Rightarrow> 'o option \<Rightarrow> u64 \<Rightarrow> 'o vfs_node" where
  "fresh_node nm n type tag data \<equiv> \<lparr>vn_name = nm, vn_name_len = n, vn_type = type, vn_flags = VFS_NODE_NAME_OWNED, vn_size = 0,
     vn_ops = tag, vn_data = data, vn_parent = 0, vn_first_child = 0, vn_next_sibling = 0\<rparr>"

context heap_source
begin

lemma kmalloc_fs_ok:
  "ok (fs_heap s) L \<Longrightarrow> unat sz \<le> 2 ^ 64 - 16 \<Longrightarrow> yields (kmalloc_fs hp sz s) (\<lambda>(p, s'). \<exists>h. s' = s\<lparr>fs_heap := h\<rparr> \<and>
     (if p = 0 then ok h L else p \<notin> L \<and> ok h (insert p L)))"
  unfolding kmalloc_fs_def yields_simps by (rule yields_mono [OF alloc_block]) (auto intro!: exI)

lemma kfree_fs_ok: "ok (fs_heap s) L \<Longrightarrow> p \<in> L \<Longrightarrow> \<exists>h. kfree_fs hp p s = ret (s\<lparr>fs_heap := h\<rparr>) \<and> ok h (L - {p})"
  using free_block [of "fs_heap s" L p] by (auto simp: kfree_fs_def)

lemma kfree_fs_null: "kfree_fs hp 0 s = ret s"
  by (simp add: kfree_fs_def free_null)

lemma node_create_ok:
  assumes ok: "ok (fs_heap s) L"
  shows "yields (vfs_node_create hp name type tag data s) (\<lambda>(n, s'). keeps L s s' \<and>
    (if n = 0 then ok (fs_heap s') L
     else \<exists>nm. n \<notin> L \<and> nm \<notin> insert n L \<and> nm \<noteq> 0 \<and> ok (fs_heap s') (insert nm (insert n L)) \<and>
       fs_strings s' nm = take (vfs_strlen name) name \<and> fs_nodes s' n = fresh_node nm (word_of_nat (vfs_strlen name)) type tag data \<and>
       vfs_strlen name \<le> VFS_NAME_MAX))" (is "yields _ ?Q")
  unfolding vfs_node_create_def yields_simps
proof (rule yields_mono [OF kmalloc_fs_ok [OF ok]], simp, clarify, goal_cases)
  case (1 n s1 h1)
  let ?node = "\<lparr>vn_name = 0, vn_name_len = 0, vn_type = type, vn_flags = 0, vn_size = 0, vn_ops = tag,
    vn_data = data, vn_parent = 0, vn_first_child = 0, vn_next_sibling = 0\<rparr>" and ?len = "vfs_strlen name"
  show ?case
  proof (cases "n = 0")
    case True
    then show ?thesis using 1(2) by (simp add: keeps_def same_at_def)
  next
    case False
    then have n: "n \<notin> L" "ok h1 (insert n L)" "insert n L - {n} = L" using 1(2) by auto
    define s2 where "s2 = upd_node n (\<lambda>_. ?node) (s\<lparr>fs_heap := h1\<rparr>)"
    have s2: "fs_heap s2 = h1" "fs_nodes s2 n = ?node" "keeps L s s2" "keeps L s (s2\<lparr>fs_heap := h\<rparr>)" for h
      using n(1) by (auto simp: s2_def upd_node_def keeps_def same_at_def)
    have freed: "yields (run_bind (kfree_fs hp n (s2\<lparr>fs_heap := h\<rparr>)) (\<lambda>s3. ret (0, s3))) ?Q" if "ok h (insert n L)" for h
      using kfree_fs_ok [of "s2\<lparr>fs_heap := h\<rparr>" "insert n L" n, unfolded n(3)] that s2(4) by auto
    show ?thesis
    proof (cases "VFS_NAME_MAX < ?len")
      case True
      have "s2\<lparr>fs_heap := h1\<rparr> = s2" by (simp add: s2_def upd_node_def)
      then show ?thesis using True False freed [OF n(2)] by (simp add: s2_def)
    next
      case short: False
      have sz: "unat (word_of_nat (?len + 1) :: u64) \<le> 2 ^ 64 - 16"
        using short by (simp add: unat_of_nat del: of_nat_add of_nat_Suc)
      have "yields (kmalloc_fs hp (word_of_nat (?len + 1)) s2) (\<lambda>(nm, s3).
          yields (if nm = 0 then run_bind (kfree_fs hp n s3) (\<lambda>s4. ret (0, s4))
            else let s4 = s3\<lparr>fs_strings := (fs_strings s3)(nm := take ?len name)\<rparr>
              in ret (n, upd_node n (\<lambda>n. n\<lparr>vn_name := nm, vn_name_len := word_of_nat ?len, vn_flags := vn_flags n OR VFS_NODE_NAME_OWNED\<rparr>) s4)) ?Q)"
      proof (rule yields_mono [OF kmalloc_fs_ok [of s2, unfolded s2(1), OF n(2) sz]], clarify, goal_cases)
        case (1 nm s3 h3)
        then show ?case
          using freed [of h3] s2(3) s2(2) n(1) False short
          by (auto simp: Let_def upd_node_def keeps_def same_at_def)
      qed
      then show ?thesis using False short unfolding s2_def by (simp add: case_prod_unfold Let_def)
    qed
  qed
qed

lemma node_destroy_ok:
  assumes "ok (fs_heap s) L" and "n \<in> L" and "vn_name (fs_nodes s n) \<in> L - {n}" and "vn_flags (fs_nodes s n) AND VFS_NODE_NAME_OWNED \<noteq> 0"
  shows "\<exists>h. vfs_node_destroy hp n s = ret (s\<lparr>fs_heap := h\<rparr>) \<and> ok h (L - {vn_name (fs_nodes s n), n})"
proof -
  let ?nm = "vn_name (fs_nodes s n)"
  have nz: "n \<noteq> 0" "?nm \<noteq> 0" using assms(2,3) null_free [OF assms(1)] by auto
  obtain h1 where h1: "kfree_fs hp ?nm s = ret (s\<lparr>fs_heap := h1\<rparr>)" "ok h1 (L - {?nm})"
    using kfree_fs_ok [OF assms(1)] assms(3) by blast
  obtain h2 where "kfree_fs hp n (s\<lparr>fs_heap := h1\<rparr>) = ret (s\<lparr>fs_heap := h2\<rparr>)" "ok h2 (L - {?nm} - {n})"
    using kfree_fs_ok [of "s\<lparr>fs_heap := h1\<rparr>" "L - {?nm}" n] h1(2) assms(2,3) by auto
  moreover have "L - {?nm} - {n} = L - {?nm, n}" by blast
  ultimately show ?thesis using nz h1(1) assms(4) by (auto simp: vfs_node_destroy_def)
qed

end

section \<open>Path resolution\<close>

text \<open>
  C10. Resolving a path is choosing the longest mount path that covers it, component by component, and walking
  from the root of that file system along the remaining components, empty ones left out: the names are looked up
  one after the other, each but the last has to be a directory and none may be longer than a name can be. A path
  no mount covers does not exist.
\<close>

theorem vfs_resolve_path_walks:
  assumes "mounts_ok s" and "path \<noteq> []" and "path ! 0 = slash"
  shows "(mount_table s mp = Some root \<and> covers mp (trimmed path) \<and>
      (\<forall>mp' \<in> dom (mount_table s). covers mp' (trimmed path) \<longrightarrow> length mp' \<le> length mp) \<longrightarrow>
      vfs_resolve_path ops path s = walk_nodes ops root (path_segments (drop (length mp) (trimmed path))) s) \<and>
    ((\<forall>mp \<in> dom (mount_table s). \<not> covers mp (trimmed path)) \<longrightarrow> vfs_resolve_path ops path s = ret (Inl NOENT, s))"
  using resolve_path_mount [OF assms] resolve_path_no_mount [OF assms] by blast

text \<open>Two file systems, at \<^verbatim>\<open>/\<close> and at \<^verbatim>\<open>/m\<close>, for the witness.\<close>

definition demo_switch :: "(unit, unit, unit) vfs" where
  "demo_switch = \<lparr>fs_nodes = (\<lambda>_. fresh_node 0 0 VFS_NODE_DIR None 0),
     fs_files = (\<lambda>_. \<lparr>vf_node = 0, vf_pos = 0, vf_flags = 0, vf_private_data = 0\<rparr>),
     fs_strings = (\<lambda>p. if p = 1 then [slash] else [slash, 0x6D]),
     g_mounts = [\<lparr>mnt_addr = 3, mnt_path = 1, mnt_path_len = 1, mnt_root = 16\<rparr>, \<lparr>mnt_addr = 4, mnt_path = 2, mnt_path_len = 2, mnt_root = 32\<rparr>],
     fs_private = (\<lambda>_. ()), fs_heap = ()\<rparr>"

lemma demo_switch_table: "mounts_ok demo_switch" "mount_table demo_switch = [[slash] \<mapsto> 16, [slash, 0x6D] \<mapsto> 32]"
  by (auto simp: demo_switch_def mounts_ok_def mount_ok_def mount_table_def fun_eq_iff)

definition demo_no_ops :: "unit \<Rightarrow> (unit, unit, unit) vfs_node_ops" where
  "demo_no_ops _ = \<lparr>op_open = None, op_close = None, op_read = None, op_write = None, op_readdir = None, op_lookup = None, op_stat = None\<rparr>"

theorem vfs_resolve_path_walks_witness:
  "vfs_resolve_path demo_no_ops [slash, 0x6D, slash, slash, 0x61, slash] demo_switch = walk_nodes demo_no_ops 32 [[0x61]] demo_switch"
proof -
  have trim: "trimmed [slash, 0x6D, slash, slash, 0x61, slash] = [slash, 0x6D, slash, slash, 0x61]" by code_simp
  have segs: "path_segments [slash, slash, 0x61] = [[0x61]]" by (simp add: path_segments.simps)
  show ?thesis
    using vfs_resolve_path_walks [of demo_switch "[slash, 0x6D, slash, slash, 0x61, slash]" "[slash, 0x6D]" 32 demo_no_ops]
    by (simp add: demo_switch_table trim segs covers_def)
qed

end
