(* ===== verification/Fat32_Vfs.thy ===== *)
theory Fat32_Vfs
  imports Vfs "HOL-Library.Multiset"
begin

text \<open>
  FAT32 as a file system of the switch, \<^verbatim>\<open>fs/vfs/fat32_vfs.c\<close>. The private data at an
  address is an inode or an array of cached directory entries. The volumes are an argument, \<open>vols\<close>,
  a volume for every address of a \<^verbatim>\<open>fat32_vol_t\<close>; \<open>rd\<close> reads the partitions.
\<close>

section \<open>State and names\<close>

datatype fat32_ops = fat32_dir_ops | fat32_file_ops

record fat32_vfs_inode =
  ino_vol :: u64
  ino_first_cluster :: u32
  ino_size :: u32
  ino_attributes :: u8
  ino_dir_cache :: u64
  ino_dir_cache_count :: u32
  ino_dir_cache_cap :: u32
  ino_dir_cache_loaded :: bool

record fat32_object =
  obj_inode :: fat32_vfs_inode
  obj_entries :: "fat32_dirent list"

type_synonym 'h fat32_fs = "(fat32_ops, fat32_object, 'h) vfs"

definition inode_at :: "'h fat32_fs \<Rightarrow> u64 \<Rightarrow> fat32_vfs_inode" where
  "inode_at s a = obj_inode (fs_private s a)"

definition upd_inode :: "u64 \<Rightarrow> (fat32_vfs_inode \<Rightarrow> fat32_vfs_inode) \<Rightarrow> 'h fat32_fs \<Rightarrow> 'h fat32_fs" where
  "upd_inode a f s = s\<lparr>fs_private := (fs_private s)(a := (fs_private s a)\<lparr>obj_inode := f (inode_at s a)\<rparr>)\<rparr>"

definition store_entries :: "u64 \<Rightarrow> fat32_dirent list \<Rightarrow> 'h fat32_fs \<Rightarrow> 'h fat32_fs" where
  "store_entries a es s = s\<lparr>fs_private := (fs_private s)(a := (fs_private s a)\<lparr>obj_entries := es\<rparr>)\<rparr>"

definition fat32_ci_tolower :: "u8 \<Rightarrow> u8" where
  "fat32_ci_tolower c = (if 0x41 \<le> c \<and> c \<le> 0x5A then c + 32 else c)"

text \<open>The two names are strings without their terminators.\<close>

fun name_equal_ci :: "bytes \<Rightarrow> bytes \<Rightarrow> bool" where
  "name_equal_ci [] [] = True"
| "name_equal_ci [] (b # bs) = (b = 0)"
| "name_equal_ci (a # as) [] = (a = 0)"
| "name_equal_ci (a # as) (b # bs) =
     (if a \<noteq> 0 \<and> b \<noteq> 0
      then if fat32_ci_tolower a \<noteq> fat32_ci_tolower b then False else name_equal_ci as bs
      else a = 0 \<and> b = 0)"

definition fat32_find_child_ci :: "u64 \<Rightarrow> bytes \<Rightarrow> 'h fat32_fs \<Rightarrow> u64 run" where
  "fat32_find_child_ci parent name s =
     (if parent = 0 then ret 0
      else map_option Inr (find_sibling s (\<lambda>n. name_equal_ci n name) (vn_first_child (fs_nodes s parent))))"

section \<open>Calls into FAT32\<close>

text \<open>
  The routines of \<^verbatim>\<open>fat32.c\<close> take one cluster buffer from the heap, unless an early check of
  their arguments returns first, and give it back on every way out.
\<close>

definition with_cluster_buffer :: "'h heap_ops \<Rightarrow> bool \<Rightarrow> u32 \<Rightarrow> ((u32 \<Rightarrow> bool) \<Rightarrow> 'r run) \<Rightarrow> 'h fat32_fs \<Rightarrow> ('r \<times> 'h fat32_fs) run" where
  "with_cluster_buffer hp early n f s =
     (if early then run_bind (f (\<lambda>_. False)) (\<lambda>r. ret (r, s))
      else run_bind (kmalloc_fs hp (ucast n) s) (\<lambda>(cluster_buf, s1).
           run_bind (f (\<lambda>_. cluster_buf \<noteq> 0)) (\<lambda>r.
           run_bind (kfree_fs hp cluster_buf s1) (\<lambda>s2. ret (r, s2)))))"

definition call_read_file_at :: "'h heap_ops \<Rightarrow> part_read \<Rightarrow> (u64 \<Rightarrow> fat32_vol) \<Rightarrow> u64 \<Rightarrow> u32 \<Rightarrow> u32 \<Rightarrow> u64 \<Rightarrow> u64 \<Rightarrow> 'h fat32_fs \<Rightarrow>
    ((fs_error + bytes) \<times> 'h fat32_fs) run" where
  "call_read_file_at hp rd vols vol first_cluster file_size offset len s =
     (if vol = 0 then ret (Inl INVAL, s)
      else with_cluster_buffer hp (ucast file_size \<le> offset \<or> len = 0 \<or> file_size = 0 \<or> first_cluster < 2) (bytes_per_cluster (vols vol))
             (\<lambda>mem. fat32_read_file_at mem rd (vols vol) first_cluster file_size offset len) s)"

definition call_lookup :: "'h heap_ops \<Rightarrow> part_read \<Rightarrow> (u64 \<Rightarrow> fat32_vol) \<Rightarrow> u64 \<Rightarrow> u32 \<Rightarrow> bytes \<Rightarrow> 'h fat32_fs \<Rightarrow>
    ((fs_error + fat32_dirent) \<times> 'h fat32_fs) run" where
  "call_lookup hp rd vols vol dir_cluster name s =
     (if vol = 0 then ret (Inl INVAL, s)
      else with_cluster_buffer hp (dir_cluster < 2) (bytes_per_cluster (vols vol))
             (\<lambda>mem. fat32_lookup mem rd (vols vol) dir_cluster name) s)"

definition call_readdir_index :: "'h heap_ops \<Rightarrow> part_read \<Rightarrow> (u64 \<Rightarrow> fat32_vol) \<Rightarrow> u64 \<Rightarrow> u32 \<Rightarrow> nat \<Rightarrow> 'h fat32_fs \<Rightarrow>
    ((fs_error + fat32_dirent option) \<times> 'h fat32_fs) run" where
  "call_readdir_index hp rd vols vol dir_cluster index s =
     (if vol = 0 then ret (Inl INVAL, s)
      else with_cluster_buffer hp (dir_cluster < 2) (bytes_per_cluster (vols vol))
             (\<lambda>mem. fat32_readdir_index mem rd (vols vol) dir_cluster index) s)"

definition call_read_dir :: "'h heap_ops \<Rightarrow> part_read \<Rightarrow> (u64 \<Rightarrow> fat32_vol) \<Rightarrow> u64 \<Rightarrow> u32 \<Rightarrow> u32 \<Rightarrow> 'h fat32_fs \<Rightarrow>
    ((bool \<times> fat32_dirent list) \<times> 'h fat32_fs) run" where
  "call_read_dir hp rd vols vol dir_cluster max_entries s =
     with_cluster_buffer hp False (bytes_per_cluster (vols vol))
       (\<lambda>mem. fat32_read_dir mem rd (vols vol) dir_cluster (unat max_entries)) s"

section \<open>The operations\<close>

definition fat32_vfs_open :: "u64 \<Rightarrow> u32 \<Rightarrow> 'h fat32_fs \<Rightarrow> (fs_error option \<times> 'h fat32_fs) run" where
  "fat32_vfs_open file flags s = ret (None, s)"

definition fat32_vfs_read :: "'h heap_ops \<Rightarrow> part_read \<Rightarrow> (u64 \<Rightarrow> fat32_vol) \<Rightarrow> u64 \<Rightarrow> u64 \<Rightarrow> 'h fat32_fs \<Rightarrow>
    ((fs_error + bytes) \<times> 'h fat32_fs) run" where
  "fat32_vfs_read hp rd vols file len s =
     (if file = 0 \<or> vf_node (fs_files s file) = 0 then ret (Inl INVAL, s)
      else
        let ino = vn_data (fs_nodes s (vf_node (fs_files s file))); inode = inode_at s ino
        in if ino = 0 then ret (Inl IO, s)
           else call_read_file_at hp rd vols (ino_vol inode) (ino_first_cluster inode) (ino_size inode) (vf_pos (fs_files s file)) len s)"

definition fat32_vfs_write :: "u64 \<Rightarrow> bytes \<Rightarrow> 'h fat32_fs \<Rightarrow> ((fs_error + u64) \<times> 'h fat32_fs) run" where
  "fat32_vfs_write file buf s = ret (Inl NOTSUP, s)"

abbreviation DIRENT_SIZE :: u64 where "DIRENT_SIZE \<equiv> 280"
abbreviation INODE_SIZE :: u64 where "INODE_SIZE \<equiv> 48"

partial_function (option) load_cache_loop :: "'h heap_ops \<Rightarrow> part_read \<Rightarrow> (u64 \<Rightarrow> fat32_vol) \<Rightarrow> u64 \<Rightarrow> u32 \<Rightarrow> 'h fat32_fs \<Rightarrow>
    (fs_error option \<times> 'h fat32_fs) run" where
  "load_cache_loop hp rd vols ino cap s =
     (if cap = 0 then ret (Some NOMEM, s)
      else run_bind (kmalloc_fs hp (DIRENT_SIZE * ucast cap) s) (\<lambda>x.
        let entries = fst x; s1 = snd x
        in if entries = 0 then ret (Some NOMEM, s1)
           else run_bind (call_read_dir hp rd vols (ino_vol (inode_at s1 ino)) (ino_first_cluster (inode_at s1 ino)) cap s1) (\<lambda>y.
             let success = fst (fst y); es = snd (fst y); s2 = store_entries entries es (snd y)
             in if \<not> success then run_bind (kfree_fs hp entries s2) (\<lambda>s3. ret (Some IO, s3))
                else if length es < unat cap
                then ret (None, upd_inode ino (\<lambda>i. i\<lparr>ino_dir_cache := entries, ino_dir_cache_count := word_of_nat (length es),
                                                    ino_dir_cache_cap := cap, ino_dir_cache_loaded := True\<rparr>) s2)
                else run_bind (kfree_fs hp entries s2) (\<lambda>s3. load_cache_loop hp rd vols ino (cap * 2) s3))))"

declare load_cache_loop.simps [code]

definition fat32_vfs_load_dir_cache :: "'h heap_ops \<Rightarrow> part_read \<Rightarrow> (u64 \<Rightarrow> fat32_vol) \<Rightarrow> u64 \<Rightarrow> 'h fat32_fs \<Rightarrow>
    (fs_error option \<times> 'h fat32_fs) run" where
  "fat32_vfs_load_dir_cache hp rd vols ino s =
     (if ino = 0 then ret (Some INVAL, s)
      else if ino_dir_cache_loaded (inode_at s ino) then ret (None, s)
      else load_cache_loop hp rd vols ino 64 s)"

definition entry_type :: "fat32_dirent \<Rightarrow> u32" where
  "entry_type ent = (if de_attributes ent AND FAT_ATTR_DIRECTORY \<noteq> 0 then VFS_NODE_DIR else VFS_NODE_FILE)"

definition fill_dirent :: "fat32_dirent \<Rightarrow> fs_error + vfs_dirent option" where
  "fill_dirent ent =
     (let name_len = length (takeWhile (\<lambda>c. c \<noteq> 0) (take VFS_NAME_MAX (de_name ent)))
      in if name_len < length (de_name ent) \<and> de_name ent ! name_len \<noteq> 0 then Inl NAMETOOLONG
         else Inr (Some \<lparr>vd_name = take name_len (de_name ent), vd_type = entry_type ent\<rparr>))"

definition nth_entry :: "'h heap_ops \<Rightarrow> part_read \<Rightarrow> (u64 \<Rightarrow> fat32_vol) \<Rightarrow> u64 \<Rightarrow> nat \<Rightarrow> 'h fat32_fs \<Rightarrow>
    ((fs_error + vfs_dirent option) \<times> 'h fat32_fs) run" where
  "nth_entry hp rd vols ino index s =
     (let inode = inode_at s ino
      in if ino_dir_cache_loaded inode
         then ret (if unat (ino_dir_cache_count inode) \<le> index then Inr None
                   else fill_dirent (obj_entries (fs_private s (ino_dir_cache inode)) ! index), s)
         else run_bind (call_readdir_index hp rd vols (ino_vol inode) (ino_first_cluster inode) index s) (\<lambda>(r, s').
                ret (case r of Inl e \<Rightarrow> Inl e | Inr None \<Rightarrow> Inr None | Inr (Some ent) \<Rightarrow> fill_dirent ent, s')))"

definition fat32_vfs_readdir :: "'h heap_ops \<Rightarrow> part_read \<Rightarrow> (u64 \<Rightarrow> fat32_vol) \<Rightarrow> u64 \<Rightarrow> nat \<Rightarrow> 'h fat32_fs \<Rightarrow>
    ((fs_error + vfs_dirent option) \<times> 'h fat32_fs) run" where
  "fat32_vfs_readdir hp rd vols dir index s =
     (if dir = 0 then ret (Inl INVAL, s)
      else
        let ino = vn_data (fs_nodes s dir)
        in if ino = 0 then ret (Inl IO, s)
           else run_bind
             (if \<not> ino_dir_cache_loaded (inode_at s ino) then fat32_vfs_load_dir_cache hp rd vols ino s else ret (None, s))
             (\<lambda>(cache_rc, s1).
                if cache_rc = None \<or> cache_rc = Some NOMEM then nth_entry hp rd vols ino index s1
                else ret (Inl (the cache_rc), s1)))"

definition new_inode :: "u64 \<Rightarrow> u32 \<Rightarrow> u32 \<Rightarrow> u8 \<Rightarrow> fat32_vfs_inode" where
  "new_inode vol first_cluster sz attributes =
     \<lparr>ino_vol = vol, ino_first_cluster = first_cluster, ino_size = sz, ino_attributes = attributes, ino_dir_cache = 0,
       ino_dir_cache_count = 0, ino_dir_cache_cap = 0, ino_dir_cache_loaded = False\<rparr>"

definition attach_inode :: "'h heap_ops \<Rightarrow> u64 \<Rightarrow> fat32_vfs_inode \<Rightarrow> 'h fat32_fs \<Rightarrow> (u64 \<times> 'h fat32_fs) run" where
  "attach_inode hp node inode s =
     run_bind (kmalloc_fs hp INODE_SIZE s) (\<lambda>(ino, s1).
       if ino = 0 then run_bind (vfs_node_destroy hp node s1) (\<lambda>s2. ret (0, s2))
       else ret (ino, upd_node node (\<lambda>n. n\<lparr>vn_data := ino\<rparr>) (upd_inode ino (\<lambda>_. inode) s1)))"

definition fat32_vfs_make_node :: "'h heap_ops \<Rightarrow> u64 \<Rightarrow> fat32_dirent \<Rightarrow> 'h fat32_fs \<Rightarrow> (u64 \<times> 'h fat32_fs) run" where
  "fat32_vfs_make_node hp vol ent s =
     (if vol = 0 then ret (0, s)
      else
        let type = entry_type ent; ops = (if type AND VFS_NODE_DIR \<noteq> 0 then fat32_dir_ops else fat32_file_ops)
        in run_bind (vfs_node_create hp (de_name ent) type (Some ops) 0 s) (\<lambda>(node, s1).
             if node = 0 then ret (0, s1)
             else run_bind (attach_inode hp node (new_inode vol (de_first_cluster ent) (de_file_size ent) (de_attributes ent)) s1)
               (\<lambda>(ino, s2).
                  if ino = 0 then ret (0, s2)
                  else ret (node, upd_node node (\<lambda>n. n\<lparr>vn_size := ucast (de_file_size ent)\<rparr>) s2))))"

definition find_entry :: "'h heap_ops \<Rightarrow> part_read \<Rightarrow> (u64 \<Rightarrow> fat32_vol) \<Rightarrow> u64 \<Rightarrow> bytes \<Rightarrow> 'h fat32_fs \<Rightarrow>
    (fat32_dirent option \<times> 'h fat32_fs) run" where
  "find_entry hp rd vols ino name s =
     (let inode = inode_at s ino
      in if ino_dir_cache_loaded inode \<and> ino_dir_cache inode \<noteq> 0
         then ret (find (\<lambda>ent. name_equal_ci (de_name ent) name)
                     (take (unat (ino_dir_cache_count inode)) (obj_entries (fs_private s (ino_dir_cache inode)))), s)
         else run_bind (call_lookup hp rd vols (ino_vol inode) (ino_first_cluster inode) name s) (\<lambda>(r, s').
                ret (case r of Inl e \<Rightarrow> None | Inr ent \<Rightarrow> Some ent, s')))"

definition fat32_vfs_lookup :: "'h heap_ops \<Rightarrow> part_read \<Rightarrow> (u64 \<Rightarrow> fat32_vol) \<Rightarrow> u64 \<Rightarrow> bytes \<Rightarrow> 'h fat32_fs \<Rightarrow>
    (u64 \<times> 'h fat32_fs) run" where
  "fat32_vfs_lookup hp rd vols dir name s =
     (if dir = 0 then ret (0, s)
      else run_bind (fat32_find_child_ci dir name s) (\<lambda>cached.
        if cached \<noteq> 0 then ret (cached, s)
        else
          let ino = vn_data (fs_nodes s dir)
          in if ino = 0 then ret (0, s)
             else run_bind (find_entry hp rd vols ino name s) (\<lambda>(found, s1).
               case found of
                 None \<Rightarrow> ret (0, s1)
               | Some ent \<Rightarrow>
                   run_bind (fat32_vfs_make_node hp (ino_vol (inode_at s1 ino)) ent s1) (\<lambda>(node, s2).
                     if node = 0 then ret (0, s2)
                     else case vfs_add_child dir node s2 of
                       (Some e, s3) \<Rightarrow> run_bind (vfs_node_destroy hp node s3) (\<lambda>s4. ret (0, s4))
                     | (None, s3) \<Rightarrow> ret (node, s3)))))"

definition fat32_vfs_stat :: "'h heap_ops \<Rightarrow> part_read \<Rightarrow> (u64 \<Rightarrow> fat32_vol) \<Rightarrow> u64 \<Rightarrow> 'h fat32_fs \<Rightarrow>
    ((fs_error + vfs_stat_t) \<times> 'h fat32_fs) run" where
  "fat32_vfs_stat hp rd vols node s =
     (if node = 0 then ret (Inl INVAL, s)
      else
        let ino = vn_data (fs_nodes s node); parent = vn_parent (fs_nodes s node); pino = vn_data (fs_nodes s parent)
        in if ino = 0 then ret (Inl IO, s)
           else run_bind
             (if parent \<noteq> 0 \<and> pino \<noteq> 0 \<and> vn_name (fs_nodes s node) \<noteq> 0
              then run_bind (call_lookup hp rd vols (ino_vol (inode_at s pino)) (ino_first_cluster (inode_at s pino))
                               (fs_strings s (vn_name (fs_nodes s node))) s) (\<lambda>(r, s1).
                     ret (case r of
                            Inl e \<Rightarrow> s1
                          | Inr ent \<Rightarrow> upd_inode ino (\<lambda>i. i\<lparr>ino_attributes := de_attributes ent\<rparr>)
                              (upd_node node (\<lambda>n. n\<lparr>vn_size := ucast (de_file_size ent)\<rparr>)
                                (upd_inode ino (\<lambda>i. i\<lparr>ino_size := de_file_size ent\<rparr>) s1))))
              else ret s)
             (\<lambda>s2. ret (Inr \<lparr>vs_type = vn_type (fs_nodes s2 node), vs_size = vn_size (fs_nodes s2 node)\<rparr>, s2)))"

definition fat32_node_ops :: "'h heap_ops \<Rightarrow> part_read \<Rightarrow> (u64 \<Rightarrow> fat32_vol) \<Rightarrow> fat32_ops \<Rightarrow> (fat32_ops, fat32_object, 'h) vfs_node_ops" where
  "fat32_node_ops hp rd vols tag =
     (case tag of
        fat32_dir_ops \<Rightarrow> \<lparr>op_open = Some fat32_vfs_open, op_close = None, op_read = None, op_write = None,
          op_readdir = Some (fat32_vfs_readdir hp rd vols), op_lookup = Some (fat32_vfs_lookup hp rd vols),
          op_stat = Some (fat32_vfs_stat hp rd vols)\<rparr>
      | fat32_file_ops \<Rightarrow> \<lparr>op_open = Some fat32_vfs_open, op_close = None, op_read = Some (fat32_vfs_read hp rd vols),
          op_write = Some fat32_vfs_write, op_readdir = None, op_lookup = None, op_stat = Some (fat32_vfs_stat hp rd vols)\<rparr>)"

section \<open>Mounting and unmounting\<close>

definition fat32_vfs_mount :: "'h heap_ops \<Rightarrow> part_read \<Rightarrow> (u64 \<Rightarrow> fat32_vol) \<Rightarrow> u64 \<Rightarrow> bytes \<Rightarrow> 'h fat32_fs \<Rightarrow>
    (fs_error option \<times> 'h fat32_fs) run" where
  "fat32_vfs_mount hp rd vols vol path s =
     (if vol = 0 then ret (Some INVAL, s)
      else run_bind (vfs_node_create hp [] VFS_NODE_DIR (Some fat32_dir_ops) 0 s) (\<lambda>(root, s1).
        if root = 0 then ret (Some NOMEM, s1)
        else run_bind (attach_inode hp root (new_inode vol (root_cluster (vols vol)) 0 FAT_ATTR_DIRECTORY) s1) (\<lambda>(ino, s2).
          if ino = 0 then ret (Some NOMEM, s2)
          else run_bind (vfs_mount hp (fat32_node_ops hp rd vols) root path s2) (\<lambda>(rc, s3).
            case rc of
              Some e \<Rightarrow> run_bind (kfree_fs hp ino s3) (\<lambda>s4. run_bind (vfs_node_destroy hp root s4) (\<lambda>s5. ret (Some e, s5)))
            | None \<Rightarrow> ret (None, s3)))))"

text \<open>
  \<open>free_walk hp True node\<close> is \<^verbatim>\<open>fat32_vfs_free_tree\<close>; \<open>free_walk hp False node\<close> is its loop, which
  frees the tree at \<open>node\<close> and those at the following siblings.
\<close>

definition free_node :: "'h heap_ops \<Rightarrow> u64 \<Rightarrow> 'h fat32_fs \<Rightarrow> 'h fat32_fs run" where
  "free_node hp node s =
     (let ino = vn_data (fs_nodes s node)
      in run_bind
           (if ino = 0 then ret s
            else run_bind (if ino_dir_cache (inode_at s ino) \<noteq> 0 then kfree_fs hp (ino_dir_cache (inode_at s ino)) s else ret s)
                   (\<lambda>s1. kfree_fs hp ino s1))
           (\<lambda>s2. vfs_node_destroy hp node s2))"

partial_function (option) free_walk :: "'h heap_ops \<Rightarrow> bool \<Rightarrow> u64 \<Rightarrow> 'h fat32_fs \<Rightarrow> 'h fat32_fs run" where
  "free_walk hp tree node s =
     (if node = 0 then ret s
      else if tree then run_bind (free_walk hp False (vn_first_child (fs_nodes s node)) s) (\<lambda>s1. free_node hp node s1)
      else run_bind (free_walk hp True node s) (\<lambda>s1. free_walk hp False (vn_next_sibling (fs_nodes s node)) s1))"

declare free_walk.simps [code]

definition fat32_vfs_free_tree :: "'h heap_ops \<Rightarrow> u64 \<Rightarrow> 'h fat32_fs \<Rightarrow> 'h fat32_fs run" where
  "fat32_vfs_free_tree hp node s = free_walk hp True node s"

definition fat32_vfs_unmount :: "'h heap_ops \<Rightarrow> bytes \<Rightarrow> 'h fat32_fs \<Rightarrow> (fs_error option \<times> 'h fat32_fs) run" where
  "fat32_vfs_unmount hp path s =
     run_bind (vfs_unmount_detach hp path s) (\<lambda>(r, s1).
       case r of
         Inl e \<Rightarrow> ret (Some e, s1)
       | Inr root \<Rightarrow> run_bind (fat32_vfs_free_tree hp root s1) (\<lambda>s2. ret (None, s2)))"

section \<open>The tree of nodes\<close>

text \<open>
  A node and the nodes below it, children in the order of their list. \<open>ntree_ok\<close> reads the tree off
  the links of the nodes; \<open>blocks\<close> are the heap blocks it occupies: nodes, names, inodes and caches.
\<close>

datatype ntree = NT (nt_addr: u64) (nt_kids: "ntree list")

definition node_ok :: "'h fat32_fs \<Rightarrow> u64 \<Rightarrow> bool" where
  "node_ok s a \<longleftrightarrow> (let n = fs_nodes s a; i = inode_at s (vn_data n)
     in a \<noteq> 0 \<and> vn_name n \<noteq> 0 \<and> vn_data n \<noteq> 0 \<and> vn_flags n AND VFS_NODE_NAME_OWNED \<noteq> 0 \<and>
        (vn_ops n = Some fat32_dir_ops \<longrightarrow> vn_type n AND VFS_NODE_DIR \<noteq> 0) \<and> (ino_dir_cache_loaded i \<or> ino_dir_cache i = 0))"

fun ntree_ok :: "'h fat32_fs \<Rightarrow> ntree \<Rightarrow> bool" and kids_ok :: "'h fat32_fs \<Rightarrow> u64 \<Rightarrow> ntree list \<Rightarrow> bool" where
  "ntree_ok s (NT a ks) = (node_ok s a \<and> kids_ok s (vn_first_child (fs_nodes s a)) ks)"
| "kids_ok s c [] = (c = 0)"
| "kids_ok s c (t # ts) = (c = nt_addr t \<and> ntree_ok s t \<and> kids_ok s (vn_next_sibling (fs_nodes s (nt_addr t))) ts)"

definition node_blocks :: "'h fat32_fs \<Rightarrow> u64 \<Rightarrow> u64 list" where
  "node_blocks s a = (let n = fs_nodes s a; cache = ino_dir_cache (inode_at s (vn_data n))
     in [a, vn_name n, vn_data n] @ (if cache = 0 then [] else [cache]))"

primrec blocks :: "'h fat32_fs \<Rightarrow> ntree \<Rightarrow> u64 list" where
  "blocks s (NT a ks) = node_blocks s a @ concat (map (blocks s) ks)"

primrec addrs :: "ntree \<Rightarrow> u64 list" where
  "addrs (NT a ks) = a # concat (map addrs ks)"

definition node_view where
  "node_view s a = (let n = fs_nodes s a; i = inode_at s (vn_data n)
     in (vn_name n, vn_flags n, vn_type n, vn_ops n, vn_data n, vn_next_sibling n, ino_dir_cache i, ino_dir_cache_loaded i))"

lemma ntree_kids_induct [case_names Tree Nil Cons]:
  assumes "\<And>a ks. Q ks \<Longrightarrow> P (NT a ks)" and "Q []" and "\<And>t ts. P t \<Longrightarrow> Q ts \<Longrightarrow> Q (t # ts)"
  shows "P t" and "Q ts"
proof -
  have P: "P t" for t
  proof (induction t)
    case (NT a ks)
    then have "Q ks" by (induction ks) (auto intro: assms)
    then show ?case by (rule assms(1))
  qed
  show "P t" by (rule P)
  show "Q ts" by (induction ts) (auto intro: assms P)
qed

lemma nt_addr_in: "nt_addr t \<in> set (addrs t)"
  by (cases t) simp

lemma addrs_blocks: "set (addrs t) \<subseteq> set (blocks s t)"
  by (induction t) (auto simp: node_blocks_def Let_def)

lemma distinct_addrs: "distinct (blocks s t) \<Longrightarrow> distinct (addrs t)"
  and distinct_kids_addrs: "distinct (concat (map (blocks s) ts)) \<Longrightarrow> distinct (concat (map addrs ts))"
proof (induction t and ts rule: ntree_kids_induct)
  case (Tree a ks)
  have "a \<notin> set (addrs t)" if "t \<in> set ks" for t
    using Tree.prems addrs_blocks [of t s] that by (auto simp: node_blocks_def Let_def)
  then show ?case using Tree by auto
next
  case (Cons t ts)
  have "set (addrs t) \<inter> set (addrs u) = {}" if "u \<in> set ts" for u
    using Cons.prems addrs_blocks [of t s] addrs_blocks [of u s] that by auto
  then show ?case using Cons by auto
qed simp

text \<open>What a change of the state away from a tree, or of sizes only, leaves as it is.\<close>

lemma view_blocks: "node_view s' a = node_view s a \<Longrightarrow> node_ok s' a = node_ok s a \<and> node_blocks s' a = node_blocks s a"
  by (auto simp: node_view_def node_ok_def node_blocks_def Let_def)

lemma tree_cong:
  "(\<forall>a \<in> set (addrs t). node_view s' a = node_view s a \<and> vn_first_child (fs_nodes s' a) = vn_first_child (fs_nodes s a)) \<Longrightarrow>
     ntree_ok s' t = ntree_ok s t \<and> blocks s' t = blocks s t"
  and kids_cong:
  "(\<forall>a \<in> set (concat (map addrs ts)). node_view s' a = node_view s a \<and> vn_first_child (fs_nodes s' a) = vn_first_child (fs_nodes s a)) \<Longrightarrow>
     kids_ok s' c ts = kids_ok s c ts \<and> concat (map (blocks s') ts) = concat (map (blocks s) ts)"
proof (induction t and ts arbitrary: and c rule: ntree_kids_induct)
  case (Tree a ks)
  then show ?case using view_blocks [of s' a s] by simp
next
  case (Cons t ts)
  have "vn_next_sibling (fs_nodes s' (nt_addr t)) = vn_next_sibling (fs_nodes s (nt_addr t))"
    using Cons(3) nt_addr_in [of t] by (simp add: node_view_def Let_def)
  then show ?case using Cons by simp
qed simp

lemma same_at_view: "same_at A s s' \<Longrightarrow> a \<in> A \<Longrightarrow> vn_data (fs_nodes s a) \<in> A \<Longrightarrow> node_view s' a = node_view s a \<and> fs_nodes s' a = fs_nodes s a"
  by (simp add: same_at_def node_view_def Let_def inode_at_def)

lemma tree_data: "a \<in> set (addrs t) \<Longrightarrow> vn_data (fs_nodes s a) \<in> set (blocks s t)"
  by (induction t) (auto simp: node_blocks_def Let_def)

lemma tree_frame: "same_at (set (blocks s t)) s s' \<Longrightarrow> ntree_ok s' t = ntree_ok s t \<and> blocks s' t = blocks s t"
  using addrs_blocks [of t s] tree_data [of _ t s] same_at_view [of "set (blocks s t)" s s'] by (intro tree_cong) fastforce

text \<open>A new child \<open>n\<close> of the node \<open>a\<close>.\<close>

primrec graft :: "u64 \<Rightarrow> u64 \<Rightarrow> ntree \<Rightarrow> ntree" where
  "graft a n (NT b ks) = NT b ((if b = a then [NT n []] else []) @ map (graft a n) ks)"

lemma graft_addr [simp]: "nt_addr (graft a n t) = nt_addr t"
  by (cases t) simp

lemma graft_other: "a \<notin> set (addrs t) \<Longrightarrow> graft a n t = t"
  by (induction t) (auto intro: map_idI)

abbreviation unless_first :: "u64 \<Rightarrow> 'h fat32_fs \<Rightarrow> 'h fat32_fs \<Rightarrow> u64 \<Rightarrow> bool" where
  "unless_first a s s' b \<equiv> node_view s' b = node_view s b \<and> (b \<noteq> a \<longrightarrow> vn_first_child (fs_nodes s' b) = vn_first_child (fs_nodes s b))"

lemma graft_tree:
  assumes n: "node_ok s' n" "vn_first_child (fs_nodes s' n) = 0" "vn_next_sibling (fs_nodes s' n) = vn_first_child (fs_nodes s a)"
    and a: "vn_first_child (fs_nodes s' a) = n"
  shows "ntree_ok s t \<Longrightarrow> distinct (addrs t) \<Longrightarrow> \<forall>b \<in> set (addrs t). unless_first a s s' b \<Longrightarrow>
      ntree_ok s' (graft a n t) \<and>
      mset (blocks s' (graft a n t)) = mset (if a \<in> set (addrs t) then node_blocks s' n else []) + mset (blocks s t) \<and>
      set (addrs (graft a n t)) = set (addrs t) \<union> (if a \<in> set (addrs t) then {n} else {})"
    and "kids_ok s c ts \<Longrightarrow> distinct (concat (map addrs ts)) \<Longrightarrow> \<forall>b \<in> set (concat (map addrs ts)). unless_first a s s' b \<Longrightarrow>
      kids_ok s' c (map (graft a n) ts) \<and>
      mset (concat (map (blocks s') (map (graft a n) ts))) =
        mset (if a \<in> set (concat (map addrs ts)) then node_blocks s' n else []) + mset (concat (map (blocks s) ts)) \<and>
      set (concat (map addrs (map (graft a n) ts))) =
        set (concat (map addrs ts)) \<union> (if a \<in> set (concat (map addrs ts)) then {n} else {})"
proof (induction t and ts arbitrary: and c rule: ntree_kids_induct)
  case (Tree b ks)
  have kids: "kids_ok s (vn_first_child (fs_nodes s b)) ks" "distinct (concat (map addrs ks))" "b \<notin> set (concat (map addrs ks))"
      "\<forall>b \<in> set (concat (map addrs ks)). unless_first a s s' b"
    and b: "node_ok s' b" "node_blocks s' b = node_blocks s b"
    using Tree.prems view_blocks [of s' b s] by auto
  note IH = Tree.IH [OF kids(1,2,4)]
  show ?case
  proof (cases "b = a")
    case True
    have "map (graft a n) ks = ks" using kids(3) True by (auto intro!: map_idI graft_other)
    then show ?thesis using IH kids(3) True b a n by (auto simp: ac_simps)
  next
    case False
    have "vn_first_child (fs_nodes s' b) = vn_first_child (fs_nodes s b)" using Tree.prems(3) False by simp
    then show ?thesis using IH False b by (auto simp: ac_simps)
  qed
next
  case (Cons t ts)
  have "vn_next_sibling (fs_nodes s' (nt_addr t)) = vn_next_sibling (fs_nodes s (nt_addr t))"
    using Cons.prems(3) nt_addr_in [of t] by (simp add: node_view_def Let_def)
  moreover have "distinct (addrs t)" "distinct (concat (map addrs ts))" "set (addrs t) \<inter> set (concat (map addrs ts)) = {}"
    using Cons.prems(2) by simp_all
  moreover have "\<forall>b \<in> set (addrs t). unless_first a s s' b" "\<forall>b \<in> set (concat (map addrs ts)). unless_first a s s' b"
    using Cons.prems(3) by simp_all
  ultimately show ?case using Cons.prems(1) Cons.IH(1) Cons.IH(2) [of "vn_next_sibling (fs_nodes s (nt_addr t))"]
    by (auto simp: ac_simps)
qed simp

text \<open>A directory cache \<open>p\<close> that appears at the node \<open>a\<close>.\<close>

lemma cache_node:
  assumes "node_ok s a" and "ino_dir_cache (inode_at s (vn_data (fs_nodes s a))) = 0" and "p \<noteq> 0" and "fs_nodes s' = fs_nodes s"
    and "ino_dir_cache (inode_at s' (vn_data (fs_nodes s a))) = p" and "ino_dir_cache_loaded (inode_at s' (vn_data (fs_nodes s a)))"
  shows "node_ok s' a" and "node_blocks s' a = node_blocks s a @ [p]"
  using assms by (auto simp: node_ok_def node_blocks_def Let_def)

lemma cache_tree:
  assumes nodes: "fs_nodes s' = fs_nodes s" and a: "node_ok s' a" "node_blocks s' a = node_blocks s a @ [p]"
  shows "ntree_ok s t \<Longrightarrow> distinct (addrs t) \<Longrightarrow> \<forall>b \<in> set (addrs t) - {a}. node_view s' b = node_view s b \<Longrightarrow>
      ntree_ok s' t \<and> mset (blocks s' t) = mset (if a \<in> set (addrs t) then [p] else []) + mset (blocks s t)"
    and "kids_ok s c ts \<Longrightarrow> distinct (concat (map addrs ts)) \<Longrightarrow> \<forall>b \<in> set (concat (map addrs ts)) - {a}. node_view s' b = node_view s b \<Longrightarrow>
      kids_ok s' c ts \<and> mset (concat (map (blocks s') ts)) =
        mset (if a \<in> set (concat (map addrs ts)) then [p] else []) + mset (concat (map (blocks s) ts))"
proof (induction t and ts arbitrary: and c rule: ntree_kids_induct)
  case (Tree b ks)
  have kids: "kids_ok s (vn_first_child (fs_nodes s b)) ks" "distinct (concat (map addrs ks))" "b \<notin> set (concat (map addrs ks))"
      "\<forall>b \<in> set (concat (map addrs ks)) - {a}. node_view s' b = node_view s b"
    using Tree.prems by auto
  have "node_ok s' b" "node_blocks s' b = node_blocks s b @ (if b = a then [p] else [])"
    using Tree.prems view_blocks [of s' b s] a by auto
  then show ?case using Tree.IH [OF kids(1,2,4)] kids(3) by (auto simp: nodes ac_simps)
next
  case (Cons t ts)
  have "distinct (addrs t)" "distinct (concat (map addrs ts))" "set (addrs t) \<inter> set (concat (map addrs ts)) = {}"
    using Cons.prems(2) by simp_all
  moreover have "\<forall>b \<in> set (addrs t) - {a}. node_view s' b = node_view s b" "\<forall>b \<in> set (concat (map addrs ts)) - {a}. node_view s' b = node_view s b"
    using Cons.prems(3) by simp_all
  ultimately show ?case using Cons.prems(1) Cons.IH(1) Cons.IH(2) [of "vn_next_sibling (fs_nodes s (nt_addr t))"]
    by (auto simp: nodes ac_simps)
qed simp

section \<open>Freeing a tree\<close>

lemma node_blocks_heap [simp]: "node_blocks (s\<lparr>fs_heap := h\<rparr>) a = node_blocks s a" "node_ok (s\<lparr>fs_heap := h\<rparr>) a = node_ok s a"
  by (simp_all add: node_blocks_def node_ok_def inode_at_def Let_def)

lemma tree_heap [simp]: "ntree_ok (s\<lparr>fs_heap := h\<rparr>) t = ntree_ok s t" "blocks (s\<lparr>fs_heap := h\<rparr>) t = blocks s t"
    "kids_ok (s\<lparr>fs_heap := h\<rparr>) c ts = kids_ok s c ts"
  using tree_cong [of t "s\<lparr>fs_heap := h\<rparr>" s] kids_cong [of ts "s\<lparr>fs_heap := h\<rparr>" s c]
  by (simp_all add: node_view_def inode_at_def Let_def)

context heap_source
begin

lemma free_node_ok:
  assumes "ok (fs_heap s) L" and "node_ok s a" and "distinct (node_blocks s a)" and "set (node_blocks s a) \<subseteq> L"
  shows "\<exists>h. free_node hp a s = ret (s\<lparr>fs_heap := h\<rparr>) \<and> ok h (L - set (node_blocks s a))"
proof -
  let ?n = "fs_nodes s a" let ?ino = "vn_data (fs_nodes s a)" let ?c = "ino_dir_cache (inode_at s ?ino)"
  have ok: "?ino \<noteq> 0" "vn_flags ?n AND VFS_NODE_NAME_OWNED \<noteq> 0" using assms(2) by (auto simp: node_ok_def Let_def)
  obtain h1 where h1: "(if ?c \<noteq> 0 then kfree_fs hp ?c s else ret s) = ret (s\<lparr>fs_heap := h1\<rparr>)" "ok h1 (L - (if ?c = 0 then {} else {?c}))"
    using that [of "fs_heap s"] that kfree_fs_ok [OF assms(1), of ?c] assms(1,4)
    by (cases "?c = 0") (auto simp: node_blocks_def Let_def)
  have "?ino \<in> L - (if ?c = 0 then {} else {?c})" using assms(3,4) by (auto simp: node_blocks_def Let_def)
  then obtain h2 where h2: "kfree_fs hp ?ino (s\<lparr>fs_heap := h1\<rparr>) = ret (s\<lparr>fs_heap := h2\<rparr>)" "ok h2 (L - (if ?c = 0 then {} else {?c}) - {?ino})"
    using kfree_fs_ok [of "s\<lparr>fs_heap := h1\<rparr>"] h1(2) by auto
  obtain h3 where h3: "vfs_node_destroy hp a (s\<lparr>fs_heap := h2\<rparr>) = ret (s\<lparr>fs_heap := h3\<rparr>)"
    "ok h3 (L - (if ?c = 0 then {} else {?c}) - {?ino} - {vn_name ?n, a})"
    using node_destroy_ok [of "s\<lparr>fs_heap := h2\<rparr>" "L - (if ?c = 0 then {} else {?c}) - {?ino}" a] h2(2) ok(2) assms(3,4)
    by (auto simp: node_blocks_def Let_def split: if_splits)
  have "free_node hp a s = ret (s\<lparr>fs_heap := h3\<rparr>)"
    using ok(1) h1(1) h2(1) h3(1) by (simp add: free_node_def Let_def)
  moreover have "L - (if ?c = 0 then {} else {?c}) - {?ino} - {vn_name ?n, a} = L - set (node_blocks s a)"
    by (auto simp: node_blocks_def Let_def)
  ultimately show ?thesis using h3(2) by auto
qed

lemma free_walk_ok:
  shows "ok (fs_heap s) L \<Longrightarrow> ntree_ok s t \<Longrightarrow> distinct (blocks s t) \<Longrightarrow> set (blocks s t) \<subseteq> L \<Longrightarrow>
      \<exists>h. free_walk hp True (nt_addr t) s = ret (s\<lparr>fs_heap := h\<rparr>) \<and> ok h (L - set (blocks s t))"
    and "ok (fs_heap s) L \<Longrightarrow> kids_ok s c ts \<Longrightarrow> distinct (concat (map (blocks s) ts)) \<Longrightarrow> set (concat (map (blocks s) ts)) \<subseteq> L \<Longrightarrow>
      \<exists>h. free_walk hp False c s = ret (s\<lparr>fs_heap := h\<rparr>) \<and> ok h (L - set (concat (map (blocks s) ts)))"
proof (induction t and ts arbitrary: s L and s c L rule: ntree_kids_induct)
  case (Tree a ks)
  have a: "a \<noteq> 0" "node_ok s a" "distinct (node_blocks s a)" "set (node_blocks s a) \<subseteq> L - set (concat (map (blocks s) ks))"
    using Tree.prems(2-4) by (auto simp: node_ok_def Let_def)
  obtain h1 where h1: "free_walk hp False (vn_first_child (fs_nodes s a)) s = ret (s\<lparr>fs_heap := h1\<rparr>)"
    "ok h1 (L - set (concat (map (blocks s) ks)))"
    using Tree.IH [of s L "vn_first_child (fs_nodes s a)"] Tree.prems by auto
  obtain h2 where h2: "free_node hp a (s\<lparr>fs_heap := h1\<rparr>) = ret (s\<lparr>fs_heap := h2\<rparr>)"
    "ok h2 (L - set (concat (map (blocks s) ks)) - set (node_blocks s a))"
    using free_node_ok [of "s\<lparr>fs_heap := h1\<rparr>" "L - set (concat (map (blocks s) ks))" a] h1(2) a by auto
  have "L - set (concat (map (blocks s) ks)) - set (node_blocks s a) = L - set (blocks s (NT a ks))" by auto
  then show ?case using h1(1) h2 a(1) by (intro exI [of _ h2]) (subst free_walk.simps, simp)
next
  case Nil
  then show ?case by (subst free_walk.simps) (auto intro!: exI [of _ "fs_heap s"])
next
  case (Cons t ts)
  let ?a = "nt_addr t"
  have c: "c = ?a" "c \<noteq> 0" "ntree_ok s t" "kids_ok s (vn_next_sibling (fs_nodes s ?a)) ts"
    using Cons.prems(2) by (cases t; auto simp: node_ok_def Let_def)+
  obtain h1 where h1: "free_walk hp True c s = ret (s\<lparr>fs_heap := h1\<rparr>)" "ok h1 (L - set (blocks s t))"
    using Cons.IH(1) [OF Cons.prems(1) c(3)] Cons.prems(3,4) c(1) by auto
  have rest: "distinct (concat (map (blocks s) ts))" "set (concat (map (blocks s) ts)) \<subseteq> L - set (blocks s t)"
    using Cons.prems(3,4) by auto
  obtain h2 where h2: "free_walk hp False (vn_next_sibling (fs_nodes s ?a)) (s\<lparr>fs_heap := h1\<rparr>) = ret (s\<lparr>fs_heap := h2\<rparr>)"
    "ok h2 (L - set (blocks s t) - set (concat (map (blocks s) ts)))"
    using Cons.IH(2) [of "s\<lparr>fs_heap := h1\<rparr>" "L - set (blocks s t)" "vn_next_sibling (fs_nodes s ?a)"] h1(2) c(4) rest
    by (simp del: set_concat) blast
  have "L - set (blocks s t) - set (concat (map (blocks s) ts)) = L - set (concat (map (blocks s) (t # ts)))" by auto
  then show ?case using h1(1) h2 c(1,2) by (intro exI [of _ h2]) (subst free_walk.simps, simp)
qed

end

section \<open>The trees of the mounted volumes\<close>

abbreviation root_ok :: "'h fat32_fs \<Rightarrow> ntree \<Rightarrow> bool" where
  "root_ok s t \<equiv> ntree_ok s t \<and> vn_next_sibling (fs_nodes s (nt_addr t)) = 0"

abbreviation all_blocks :: "'h fat32_fs \<Rightarrow> ntree list \<Rightarrow> u64 list" where
  "all_blocks s ts \<equiv> concat (map (blocks s) ts)"

abbreviation all_addrs :: "ntree list \<Rightarrow> u64 list" where
  "all_addrs ts \<equiv> concat (map addrs ts)"

definition forest :: "'h fat32_fs \<Rightarrow> ntree list \<Rightarrow> bool" where
  "forest s ts \<longleftrightarrow> (\<forall>t \<in> set ts. root_ok s t) \<and> distinct (all_blocks s ts)"

definition fat_own :: "u64 list \<Rightarrow> 'h fat32_fs \<Rightarrow> u64 set \<Rightarrow> u64 set \<Rightarrow> bool" where
  "fat_own R s X N \<longleftrightarrow> (\<exists>ts. map nt_addr ts = R \<and> forest s ts \<and> X = set (all_blocks s ts) \<and> N = set (all_addrs ts))"

lemma forest_cong:
  assumes "forest s ts" and "\<forall>a \<in> set (all_addrs ts). node_view s' a = node_view s a \<and> vn_first_child (fs_nodes s' a) = vn_first_child (fs_nodes s a)"
  shows "forest s' ts" and "all_blocks s' ts = all_blocks s ts"
proof -
  have "ntree_ok s' t = ntree_ok s t \<and> blocks s' t = blocks s t" if "t \<in> set ts" for t
    using assms(2) that by (intro tree_cong) auto
  moreover have "vn_next_sibling (fs_nodes s' (nt_addr t)) = vn_next_sibling (fs_nodes s (nt_addr t))" if "t \<in> set ts" for t
    using assms(2) that nt_addr_in [of t] by (auto simp: node_view_def Let_def)
  moreover show "all_blocks s' ts = all_blocks s ts" using calculation(1) by (simp cong: map_cong)
  ultimately show "forest s' ts" using assms(1) by (simp add: forest_def)
qed

lemma forest_data: "a \<in> set (all_addrs ts) \<Longrightarrow> {a, vn_data (fs_nodes s a)} \<subseteq> set (all_blocks s ts)"
  using addrs_blocks [of _ s] tree_data [of a _ s] by fastforce

lemma fat_own_frame: "fat_own R s X N \<Longrightarrow> same_at X s s' \<Longrightarrow> fat_own R s' X N"
proof -
  assume "fat_own R s X N" and same: "same_at X s s'"
  then obtain ts where ts: "map nt_addr ts = R" "forest s ts" "X = set (all_blocks s ts)" "N = set (all_addrs ts)"
    by (auto simp: fat_own_def)
  have "node_view s' a = node_view s a \<and> vn_first_child (fs_nodes s' a) = vn_first_child (fs_nodes s a)" if "a \<in> set (all_addrs ts)" for a
    using same_at_view [OF same, of a] forest_data [OF that, of s] ts(3) by auto
  then show ?thesis unfolding fat_own_def using forest_cong [OF ts(2), of s'] ts by metis
qed

lemma tree_links:
  "ntree_ok s t \<Longrightarrow> n \<in> set (addrs t) \<Longrightarrow> vn_first_child (fs_nodes s n) \<in> insert 0 (set (addrs t)) \<and>
     (n = nt_addr t \<or> vn_next_sibling (fs_nodes s n) \<in> insert 0 (set (addrs t)))"
  and kids_links:
  "kids_ok s c ts \<Longrightarrow> c \<in> insert 0 (set (all_addrs ts)) \<and> (n \<in> set (all_addrs ts) \<longrightarrow>
     {vn_first_child (fs_nodes s n), vn_next_sibling (fs_nodes s n)} \<subseteq> insert 0 (set (all_addrs ts)))"
proof (induction t and ts arbitrary: and c rule: ntree_kids_induct)
  case (Tree a ks)
  then show ?case by auto
next
  case (Cons t ts)
  then show ?case using nt_addr_in [of t] by fastforce
qed simp

lemma fat_own_links:
  assumes "fat_own R s X N" and "n \<in> N"
  shows "{vn_first_child (fs_nodes s n), vn_next_sibling (fs_nodes s n)} \<subseteq> insert 0 N"
  using assms tree_links [of s _ n] by (fastforce simp: fat_own_def forest_def)

lemma fat_own_node: "fat_own R s X N \<Longrightarrow> n \<in> N \<Longrightarrow> node_ok s n"
proof -
  have "ntree_ok s t \<Longrightarrow> n \<in> set (addrs t) \<Longrightarrow> node_ok s n"
    and "kids_ok s c ts \<Longrightarrow> n \<in> set (all_addrs ts) \<Longrightarrow> node_ok s n" for t c ts
    by (induction t and ts arbitrary: and c rule: ntree_kids_induct) auto
  then show "fat_own R s X N \<Longrightarrow> n \<in> N \<Longrightarrow> node_ok s n" by (auto simp: fat_own_def forest_def)
qed

text \<open>The two ways a forest grows.\<close>

lemma forest_graft:
  assumes f: "forest s ts" and a: "a \<in> set (all_addrs ts)"
    and n: "node_ok s' n" "vn_first_child (fs_nodes s' n) = 0" "vn_next_sibling (fs_nodes s' n) = vn_first_child (fs_nodes s a)"
      "vn_first_child (fs_nodes s' a) = n"
    and same: "\<forall>b \<in> set (all_addrs ts). unless_first a s s' b"
    and fresh: "distinct (node_blocks s' n)" "set (node_blocks s' n) \<inter> set (all_blocks s ts) = {}"
  shows "fat_own (map nt_addr ts) s' (set (all_blocks s ts) \<union> set (node_blocks s' n)) (insert n (set (all_addrs ts)))"
proof -
  have d: "distinct (all_addrs ts)" using f distinct_kids_addrs [of s ts] by (simp add: forest_def)
  have "(\<forall>t \<in> set us. ntree_ok s' (graft a n t)) \<and> mset (all_blocks s' (map (graft a n) us)) =
      mset (if a \<in> set (all_addrs us) then node_blocks s' n else []) + mset (all_blocks s us) \<and>
      set (all_addrs (map (graft a n) us)) = set (all_addrs us) \<union> (if a \<in> set (all_addrs us) then {n} else {})"
    if "\<forall>t \<in> set us. ntree_ok s t" "distinct (all_addrs us)" "set (all_addrs us) \<subseteq> set (all_addrs ts)" for us
    using that
  proof (induction us)
    case (Cons t us)
    have T: "ntree_ok s t" "distinct (addrs t)" "\<forall>b \<in> set (addrs t). unless_first a s s' b" "set (addrs t) \<inter> set (all_addrs us) = {}"
      using Cons.prems same by auto
    show ?case using graft_tree(1) [OF n T(1-3)] T(4) Cons by (auto simp: ac_simps)
  qed simp
  from this [of ts] have g: "\<forall>t \<in> set ts. ntree_ok s' (graft a n t)" "mset (all_blocks s' (map (graft a n) ts)) = mset (node_blocks s' n @ all_blocks s ts)"
    "set (all_addrs (map (graft a n) ts)) = insert n (set (all_addrs ts))"
    using f a d by (auto simp: forest_def)
  have "vn_next_sibling (fs_nodes s' (nt_addr t)) = 0" if "t \<in> set ts" for t
    using f same that nt_addr_in [of t] by (auto simp: forest_def node_view_def Let_def)
  moreover have "distinct (all_blocks s' (map (graft a n) ts))"
    using mset_eq_imp_distinct_iff [OF g(2)] fresh f by (auto simp: forest_def)
  ultimately have "forest s' (map (graft a n) ts)" using g(1) by (simp add: forest_def)
  then show ?thesis
    unfolding fat_own_def using g(3) mset_eq_setD [OF g(2)]
    by (intro exI [of _ "map (graft a n) ts"]) (auto simp: comp_def)
qed

lemma forest_cache:
  assumes f: "forest s ts" and a: "a \<in> set (all_addrs ts)" and nodes: "fs_nodes s' = fs_nodes s"
    and n: "node_ok s' a" "node_blocks s' a = node_blocks s a @ [p]"
    and same: "\<forall>b \<in> set (all_addrs ts) - {a}. node_view s' b = node_view s b" and fresh: "p \<notin> set (all_blocks s ts)"
  shows "fat_own (map nt_addr ts) s' (insert p (set (all_blocks s ts))) (set (all_addrs ts))"
proof -
  have d: "distinct (all_addrs ts)" using f distinct_kids_addrs [of s ts] by (simp add: forest_def)
  have "(\<forall>t \<in> set us. ntree_ok s' t) \<and> mset (all_blocks s' us) = mset (if a \<in> set (all_addrs us) then [p] else []) + mset (all_blocks s us)"
    if "\<forall>t \<in> set us. ntree_ok s t" "distinct (all_addrs us)" "set (all_addrs us) \<subseteq> set (all_addrs ts)" for us
    using that
  proof (induction us)
    case (Cons t us)
    have T: "ntree_ok s t" "distinct (addrs t)" "\<forall>b \<in> set (addrs t) - {a}. node_view s' b = node_view s b" "set (addrs t) \<inter> set (all_addrs us) = {}"
      using Cons.prems same by auto
    show ?case using cache_tree(1) [OF nodes n T(1-3)] T(4) Cons by (auto simp: ac_simps)
  qed simp
  from this [of ts] have g: "\<forall>t \<in> set ts. ntree_ok s' t" "mset (all_blocks s' ts) = mset (p # all_blocks s ts)"
    using f a d by (auto simp: forest_def)
  have "distinct (all_blocks s' ts)" using mset_eq_imp_distinct_iff [OF g(2)] fresh f by (auto simp: forest_def)
  then have "forest s' ts" using g(1) f nodes by (simp add: forest_def)
  then show ?thesis unfolding fat_own_def using mset_eq_setD [OF g(2)] by (intro exI [of _ ts]) auto
qed

section \<open>What the operations do to the heap\<close>

context heap_source
begin

lemma buffer_ok:
  assumes "ok (fs_heap s) L"
  shows "yields (with_cluster_buffer hp early n f s) (\<lambda>(r, s'). \<exists>h. s' = s\<lparr>fs_heap := h\<rparr> \<and> ok h L)"
proof (cases early)
  case True
  then show ?thesis using assms by (auto simp: with_cluster_buffer_def yields_def run_bind_ret_iff intro!: exI [of _ "fs_heap s"])
next
  case False
  have sz: "unat (ucast n :: u64) \<le> 2 ^ 64 - 16" using unsigned_less [of n, where 'a = nat] by simp
  have "yields (kmalloc_fs hp (ucast n) s) (\<lambda>(buf, s1). yields (f (\<lambda>_. buf \<noteq> 0)) (\<lambda>r.
      yields (kfree_fs hp buf s1) (\<lambda>s2. \<exists>h. s2 = s\<lparr>fs_heap := h\<rparr> \<and> ok h L)))"
  proof (rule yields_mono [OF kmalloc_fs_ok [OF assms sz]], clarify, goal_cases)
    case (1 buf s1 h)
    have "yields (kfree_fs hp buf (s\<lparr>fs_heap := h\<rparr>)) (\<lambda>s2. \<exists>h. s2 = s\<lparr>fs_heap := h\<rparr> \<and> ok h L)"
    proof (cases "buf = 0")
      case True
      then show ?thesis using 1(2) by (auto simp: kfree_fs_null)
    next
      case False
      then have "buf \<notin> L" "ok h (insert buf L)" "insert buf L - {buf} = L" using 1(2) by auto
      then show ?thesis using kfree_fs_ok [of "s\<lparr>fs_heap := h\<rparr>" "insert buf L" buf] by auto
    qed
    then show ?case by (simp add: yields_def)
  qed
  then show ?thesis using False by (simp add: with_cluster_buffer_def case_prod_unfold)
qed

lemma calls_ok:
  assumes "ok (fs_heap s) L"
  shows "yields (call_read_file_at hp rd vols vol c sz off len s) (\<lambda>(r, s'). \<exists>h. s' = s\<lparr>fs_heap := h\<rparr> \<and> ok h L)"
    and "yields (call_lookup hp rd vols vol c name s) (\<lambda>(r, s'). \<exists>h. s' = s\<lparr>fs_heap := h\<rparr> \<and> ok h L)"
    and "yields (call_readdir_index hp rd vols vol c i s) (\<lambda>(r, s'). \<exists>h. s' = s\<lparr>fs_heap := h\<rparr> \<and> ok h L)"
    and "yields (call_read_dir hp rd vols vol c m s) (\<lambda>(r, s'). \<exists>h. s' = s\<lparr>fs_heap := h\<rparr> \<and> ok h L)"
  using buffer_ok [OF assms] assms
  by (auto simp: call_read_file_at_def call_lookup_def call_readdir_index_def call_read_dir_def intro!: exI [of _ "fs_heap s"])

lemma find_entry_ok:
  assumes "ok (fs_heap s) L"
  shows "yields (find_entry hp rd vols ino name s) (\<lambda>(r, s'). \<exists>h. s' = s\<lparr>fs_heap := h\<rparr> \<and> ok h L)"
proof (cases "ino_dir_cache_loaded (inode_at s ino) \<and> ino_dir_cache (inode_at s ino) \<noteq> 0")
  case True
  then show ?thesis using assms by (auto simp: find_entry_def Let_def intro!: exI [of _ "fs_heap s"])
next
  case False
  then show ?thesis using calls_ok(2) [OF assms]
    by (simp add: find_entry_def Let_def) (auto simp: yields_def case_prod_unfold)
qed

lemma nth_entry_ok:
  assumes "ok (fs_heap s) L"
  shows "yields (nth_entry hp rd vols ino i s) (\<lambda>(r, s'). \<exists>h. s' = s\<lparr>fs_heap := h\<rparr> \<and> ok h L)"
proof (cases "ino_dir_cache_loaded (inode_at s ino)")
  case True
  then show ?thesis using assms by (auto simp: nth_entry_def Let_def intro!: exI [of _ "fs_heap s"])
next
  case False
  then show ?thesis using calls_ok(3) [OF assms]
    by (simp add: nth_entry_def Let_def) (auto simp: yields_def case_prod_unfold)
qed

lemma attach_inode_ok:
  assumes L: "ok (fs_heap s) (insert nm (insert n L))" "n \<notin> L" "nm \<notin> insert n L" "n \<noteq> 0" "nm \<noteq> 0"
    and node: "fs_nodes s n = fresh_node nm len type (Some tag) 0" "tag = fat32_dir_ops \<longrightarrow> type AND VFS_NODE_DIR \<noteq> 0"
    and inode: "ino_dir_cache inode = 0"
  shows "yields (attach_inode hp n inode s) (\<lambda>(ino, s'). keeps L s s' \<and>
    (if ino = 0 then ok (fs_heap s') L
     else vn_data (fs_nodes s' n) = ino \<and> node_ok s' n \<and> distinct (node_blocks s' n) \<and> set (node_blocks s' n) \<inter> L = {} \<and>
       ok (fs_heap s') (set (node_blocks s' n) \<union> L) \<and> fs_nodes s' n = (fs_nodes s n)\<lparr>vn_data := ino\<rparr> \<and>
       node_blocks s' n = [n, nm, ino]))" (is "yields _ ?Q")
  unfolding attach_inode_def yields_simps
proof (rule yields_mono [OF kmalloc_fs_ok [OF L(1)]], simp, clarify, goal_cases)
  case (1 ino s1 h)
  show ?case
  proof (cases "ino = 0")
    case True
    have "insert nm (insert n L) - {nm, n} = L" using L(2,3) by auto
    then obtain h3 where "vfs_node_destroy hp n (s\<lparr>fs_heap := h\<rparr>) = ret (s\<lparr>fs_heap := h3\<rparr>)" "ok h3 L"
      using node_destroy_ok [of "s\<lparr>fs_heap := h\<rparr>" "insert nm (insert n L)" n] 1(2) True L(3) node(1) by auto
    then show ?thesis using True by (simp add: keeps_def same_at_def)
  next
    case False
    then have ino: "ino \<notin> insert nm (insert n L)" "ok h (insert ino (insert nm (insert n L)))" using 1(2) by auto
    let ?s' = "upd_node n (\<lambda>n. n\<lparr>vn_data := ino\<rparr>) (upd_inode ino (\<lambda>_. inode) (s\<lparr>fs_heap := h\<rparr>))"
    have n: "fs_nodes ?s' n = (fs_nodes s n)\<lparr>vn_data := ino\<rparr>" "fs_heap ?s' = h" and i: "inode_at ?s' ino = inode"
      by (simp_all add: upd_node_def upd_inode_def inode_at_def)
    have ic: "ino_dir_cache (inode_at ?s' ino) = 0" unfolding i by (rule inode)
    have bl: "node_blocks ?s' n = [n, nm, ino]" unfolding node_blocks_def Let_def n node(1) by (simp add: ic)
    have "node_ok ?s' n" unfolding node_ok_def Let_def n node(1) using L(4,5) False node(2) by (simp add: ic)
    moreover have "keeps L s ?s'" using L(2) ino(1) by (auto simp: keeps_def same_at_def upd_node_def upd_inode_def)
    moreover have "ok (fs_heap ?s') (set (node_blocks ?s' n) \<union> L)" unfolding bl n(2) using ino(2) by (simp add: insert_commute)
    moreover have "distinct (node_blocks ?s' n)" "set (node_blocks ?s' n) \<inter> L = {}" unfolding bl using L(2,3) ino(1) by auto
    moreover have "vn_data (fs_nodes ?s' n) = ino" unfolding n by simp
    ultimately have "?Q (ino, ?s')" using n(1) bl False by simp
    then show ?thesis using False by (simp only: if_False yields_simps)
  qed
qed

lemma make_node_ok:
  assumes ok: "ok (fs_heap s) L"
  shows "yields (fat32_vfs_make_node hp vol ent s) (\<lambda>(n, s'). keeps L s s' \<and>
    (if n = 0 then ok (fs_heap s') L
     else n \<notin> L \<and> node_ok s' n \<and> distinct (node_blocks s' n) \<and> set (node_blocks s' n) \<inter> L = {} \<and>
       ok (fs_heap s') (set (node_blocks s' n) \<union> L) \<and> vn_first_child (fs_nodes s' n) = 0))" (is "yields _ ?Q")
proof (cases "vol = 0")
  case True
  then show ?thesis using ok by (simp add: fat32_vfs_make_node_def keeps_def same_at_def)
next
  case False
  let ?type = "entry_type ent" let ?ops = "if entry_type ent AND VFS_NODE_DIR \<noteq> 0 then fat32_dir_ops else fat32_file_ops"
  let ?i = "new_inode vol (de_first_cluster ent) (de_file_size ent) (de_attributes ent)"
  have "yields (vfs_node_create hp (de_name ent) ?type (Some ?ops) 0 s) (\<lambda>(node, s1).
      yields (if node = 0 then ret (0, s1)
        else run_bind (attach_inode hp node ?i s1) (\<lambda>(ino, s2).
          if ino = 0 then ret (0, s2) else ret (node, upd_node node (\<lambda>n. n\<lparr>vn_size := ucast (de_file_size ent)\<rparr>) s2))) ?Q)"
  proof (rule yields_mono [OF node_create_ok [OF ok]], clarify, goal_cases)
    case (1 n s1)
    show ?case
    proof (cases "n = 0")
      case True
      then show ?thesis using 1 by simp
    next
      case False
      then obtain nm where nm: "n \<notin> L" "nm \<notin> insert n L" "nm \<noteq> 0" "ok (fs_heap s1) (insert nm (insert n L))"
        "fs_nodes s1 n = fresh_node nm (word_of_nat (vfs_strlen (de_name ent))) ?type (Some ?ops) 0"
        using 1(3) by auto
      have "yields (attach_inode hp n ?i s1) (\<lambda>(ino, s2).
          yields (if ino = 0 then ret (0, s2) else ret (n, upd_node n (\<lambda>n. n\<lparr>vn_size := ucast (de_file_size ent)\<rparr>) s2)) ?Q)"
      proof (rule yields_mono [OF attach_inode_ok [OF nm(4,1,2) False nm(3,5)]], simp, simp add: new_inode_def, clarify, goal_cases)
        case (1 ino s2)
        let ?s' = "upd_node n (\<lambda>n. n\<lparr>vn_size := ucast (de_file_size ent)\<rparr>) s2"
        have "node_ok ?s' n = node_ok s2 n" "node_blocks ?s' n = node_blocks s2 n"
          by (simp_all add: node_ok_def node_blocks_def upd_node_def inode_at_def Let_def)
        moreover have "fs_heap ?s' = fs_heap s2" "vn_first_child (fs_nodes ?s' n) = vn_first_child (fs_nodes s2 n)" "keeps L s2 ?s'"
          using nm(1) by (auto simp: upd_node_def keeps_def same_at_def)
        ultimately show ?case
          using 1 \<open>keeps L s s1\<close> False nm(1,5) by (auto simp: keeps_def same_at_def)
      qed
      then show ?thesis using False by (simp add: case_prod_unfold)
    qed
  qed
  then show ?thesis using False by (simp add: fat32_vfs_make_node_def Let_def case_prod_unfold)
qed

end

text \<open>After loading a directory cache: with a result, one new block, recorded in the inode.\<close>

definition cache_post :: "('h \<Rightarrow> u64 set \<Rightarrow> bool) \<Rightarrow> u64 set \<Rightarrow> u64 \<Rightarrow> 'h fat32_fs \<Rightarrow> fs_error option \<times> 'h fat32_fs \<Rightarrow> bool" where
  "cache_post ok L ino s = (\<lambda>(rc, s'). fs_nodes s' = fs_nodes s \<and>
     (case rc of
        Some e \<Rightarrow> keeps L s s' \<and> ok (fs_heap s') L
      | None \<Rightarrow> \<exists>p. p \<notin> L \<and> p \<noteq> 0 \<and> keeps (L - {ino}) s s' \<and> ok (fs_heap s') (insert p L) \<and>
          ino_dir_cache (inode_at s' ino) = p \<and> ino_dir_cache_loaded (inode_at s' ino)))"

lemma cache_post_trans: "fs_nodes s1 = fs_nodes s \<Longrightarrow> keeps L s s1 \<Longrightarrow> cache_post ok L ino s1 x \<Longrightarrow> cache_post ok L ino s x"
  by (cases x) (auto simp: cache_post_def keeps_def same_at_def split: option.splits)

context heap_source
begin

lemma load_cache_step:
  assumes ok: "ok (fs_heap s) L" and ino: "ino \<in> L"
    and again: "\<And>s'. ok (fs_heap s') L \<Longrightarrow> yields (f s') (cache_post ok L ino s')"
  shows "yields (if cap = 0 then ret (Some NOMEM, s)
      else run_bind (kmalloc_fs hp (DIRENT_SIZE * ucast cap) s) (\<lambda>x.
        let entries = fst x; s1 = snd x
        in if entries = 0 then ret (Some NOMEM, s1)
           else run_bind (call_read_dir hp rd vols (ino_vol (inode_at s1 ino)) (ino_first_cluster (inode_at s1 ino)) cap s1) (\<lambda>y.
             let success = fst (fst y); es = snd (fst y); s2 = store_entries entries es (snd y)
             in if \<not> success then run_bind (kfree_fs hp entries s2) (\<lambda>s3. ret (Some IO, s3))
                else if length es < unat cap
                then ret (None, upd_inode ino (\<lambda>i. i\<lparr>ino_dir_cache := entries, ino_dir_cache_count := word_of_nat (length es),
                                                    ino_dir_cache_cap := cap, ino_dir_cache_loaded := True\<rparr>) s2)
                else run_bind (kfree_fs hp entries s2) (\<lambda>s3. f s3)))) (cache_post ok L ino s)"
proof (cases "cap = 0")
  case True
  then show ?thesis using ok by (simp add: cache_post_def keeps_def same_at_def)
next
  case False
  have "unat (DIRENT_SIZE * ucast cap) \<le> 280 * unat cap" by (simp add: unat_word_ariths)
  then have sz: "unat (DIRENT_SIZE * ucast cap) \<le> 2 ^ 64 - 16" using unsigned_less [of cap, where 'a = nat] by simp
  show ?thesis
    using False
  proof (simp only: if_False yields_simps, intro yields_mono [OF kmalloc_fs_ok [OF ok sz]], clarify, goal_cases)
    case (1 p s1 h)
    let ?s1 = "s\<lparr>fs_heap := h\<rparr>"
    show ?case
    proof (cases "p = 0")
      case True
      then show ?thesis using 1 by (simp add: cache_post_def keeps_def same_at_def)
    next
      case False
      then have p: "p \<notin> L" "ok h (insert p L)" "insert p L - {p} = L" "p \<noteq> ino" using 1 ino by auto
      have "ok (fs_heap ?s1) (insert p L)" using p(2) by simp
      note call = calls_ok(4) [OF this, of rd vols "ino_vol (inode_at ?s1 ino)" "ino_first_cluster (inode_at ?s1 ino)" cap]
      have freed: "yields (run_bind (kfree_fs hp p (store_entries p es (s\<lparr>fs_heap := h'\<rparr>))) k) (cache_post ok L ino s)"
        if "ok h' (insert p L)" and k: "\<And>s3. ok (fs_heap s3) L \<Longrightarrow> yields (k s3) (cache_post ok L ino s3)" for es h' k
      proof -
        let ?s2 = "store_entries p es (s\<lparr>fs_heap := h'\<rparr>)"
        have "ok (fs_heap ?s2) (insert p L)" using that(1) by (simp add: store_entries_def)
        from kfree_fs_ok [OF this, of p, unfolded p(3)]
        obtain h3 where h3: "kfree_fs hp p ?s2 = ret (?s2\<lparr>fs_heap := h3\<rparr>)" "ok h3 L" by blast
        have "fs_nodes (?s2\<lparr>fs_heap := h3\<rparr>) = fs_nodes s" "keeps L s (?s2\<lparr>fs_heap := h3\<rparr>)"
          using p(1) by (auto simp: store_entries_def keeps_def same_at_def)
        then show ?thesis
          using h3 k [of "?s2\<lparr>fs_heap := h3\<rparr>"] cache_post_trans [of "?s2\<lparr>fs_heap := h3\<rparr>" s] by (auto elim!: yields_mono)
      qed
      have loaded: "cache_post ok L ino s (None, upd_inode ino (\<lambda>i. i\<lparr>ino_dir_cache := p, ino_dir_cache_count := word_of_nat (length es),
          ino_dir_cache_cap := cap, ino_dir_cache_loaded := True\<rparr>) (store_entries p es (s\<lparr>fs_heap := h'\<rparr>)))"
        if "ok h' (insert p L)" for es h'
        using that p(1,4) False by (auto simp: cache_post_def upd_inode_def store_entries_def keeps_def same_at_def inode_at_def)
      show ?thesis
        using False
      proof (simp only: Let_def fst_conv snd_conv if_False yields_simps, intro yields_mono [OF call], clarify, goal_cases)
        case (1 success es s2 h')
        have "ok h' (insert p L)" by (rule 1)
        then show ?case
          using freed [of h' "\<lambda>s3. ret (Some IO, s3)" es] freed [of h' f es] loaded [of h' es] again
          by (auto simp: cache_post_def keeps_def same_at_def)
      qed
    qed
  qed
qed

lemma load_cache_ok:
  assumes "ok (fs_heap s) L" and "ino \<in> L"
  shows "yields (load_cache_loop hp rd vols ino cap s) (cache_post ok L ino s)"
proof (cases "load_cache_loop hp rd vols ino cap s")
  case None
  then show ?thesis by simp
next
  case (Some y)
  then have "hp = hp \<longrightarrow> ino = ino \<longrightarrow> (\<forall>L. ok (fs_heap s) L \<longrightarrow> ino \<in> L \<longrightarrow> yields (Some y) (cache_post ok L ino s))"
  proof (rule load_cache_loop.raw_induct [rotated, where P = "\<lambda>hp' rd vols ino' cap s y. hp' = hp \<longrightarrow> ino' = ino \<longrightarrow>
      (\<forall>L. ok (fs_heap s) L \<longrightarrow> ino \<in> L \<longrightarrow> yields (Some y) (cache_post ok L ino s))"])
    fix f hp' rd vols ino' cap s y
    assume IH: "\<And>hp' rd vols ino' cap s y. f hp' rd vols ino' cap s = Some y \<Longrightarrow> hp' = hp \<longrightarrow> ino' = ino \<longrightarrow>
        (\<forall>L. ok (fs_heap s) L \<longrightarrow> ino \<in> L \<longrightarrow> yields (Some y) (cache_post ok L ino s))"
      and step: "(if cap = 0 then ret (Some NOMEM, s)
        else run_bind (kmalloc_fs hp' (DIRENT_SIZE * ucast cap) s) (\<lambda>x.
          let entries = fst x; s1 = snd x
          in if entries = 0 then ret (Some NOMEM, s1)
             else run_bind (call_read_dir hp' rd vols (ino_vol (inode_at s1 ino')) (ino_first_cluster (inode_at s1 ino')) cap s1) (\<lambda>y.
               let success = fst (fst y); es = snd (fst y); s2 = store_entries entries es (snd y)
               in if \<not> success then run_bind (kfree_fs hp' entries s2) (\<lambda>s3. ret (Some IO, s3))
                  else if length es < unat cap
                  then ret (None, upd_inode ino' (\<lambda>i. i\<lparr>ino_dir_cache := entries, ino_dir_cache_count := word_of_nat (length es),
                                                      ino_dir_cache_cap := cap, ino_dir_cache_loaded := True\<rparr>) s2)
                  else run_bind (kfree_fs hp' entries s2) (\<lambda>s3. f hp' rd vols ino' (cap * 2) s3)))) = Some y"
    have again: "yields (f hp rd vols ino (cap * 2) s') (cache_post ok L ino s')" if "ok (fs_heap s') L" "ino \<in> L" for s' L
      using IH [of hp rd vols ino "cap * 2" s'] that by (cases "f hp rd vols ino (cap * 2) s'") auto
    show "hp' = hp \<longrightarrow> ino' = ino \<longrightarrow> (\<forall>L. ok (fs_heap s) L \<longrightarrow> ino \<in> L \<longrightarrow> yields (Some y) (cache_post ok L ino s))"
    proof (intro impI allI)
      fix L assume eq: "hp' = hp" "ino' = ino" and L: "ok (fs_heap s) L" "ino \<in> L"
      show "yields (Some y) (cache_post ok L ino s)"
        unfolding step [unfolded eq, symmetric] by (rule load_cache_step [OF L]) (rule again, assumption, rule L(2))
    qed
  qed
  then show ?thesis using assms Some by auto
qed

end

lemma data_inj:
  assumes "forest s ts" and "a \<in> set (all_addrs ts)" and "b \<in> set (all_addrs ts)" and "a \<noteq> b"
  shows "vn_data (fs_nodes s a) \<noteq> vn_data (fs_nodes s b)"
proof -
  have "distinct (blocks s t) \<Longrightarrow> a \<in> set (addrs t) \<Longrightarrow> b \<in> set (addrs t) \<Longrightarrow> vn_data (fs_nodes s a) \<noteq> vn_data (fs_nodes s b)"
    and main: "distinct (all_blocks s us) \<Longrightarrow> a \<in> set (all_addrs us) \<Longrightarrow> b \<in> set (all_addrs us) \<Longrightarrow> vn_data (fs_nodes s a) \<noteq> vn_data (fs_nodes s b)"
    for t us
  proof (induction t and us rule: ntree_kids_induct)
    case (Tree c ks)
    have "vn_data (fs_nodes s c) \<notin> set (all_blocks s ks)" using Tree.prems(1) by (auto simp: node_blocks_def Let_def)
    moreover have "vn_data (fs_nodes s x) \<in> set (all_blocks s ks)" if "x \<in> set (all_addrs ks)" for x
      using forest_data [OF that] by blast
    moreover have "distinct (all_blocks s ks)" using Tree.prems(1) by simp
    ultimately show ?case using Tree.IH Tree.prems(2,3) assms(4) unfolding addrs.simps set_simps insert_iff by metis
  next
    case (Cons t us)
    have d: "set (blocks s t) \<inter> set (all_blocks s us) = {}" "distinct (blocks s t)" "distinct (all_blocks s us)"
      using Cons.prems(1) by simp_all
    have u: "vn_data (fs_nodes s x) \<in> set (all_blocks s us)" if "x \<in> set (all_addrs us)" for x
      using forest_data [OF that] by blast
    have "a \<in> set (addrs t) \<or> a \<in> set (all_addrs us)" "b \<in> set (addrs t) \<or> b \<in> set (all_addrs us)" using Cons.prems(2,3) by simp_all
    then show ?case using Cons.IH(1) [OF d(2)] Cons.IH(2) [OF d(3)] tree_data [of _ t s] u d(1) by (metis disjoint_iff)
  qed simp
  show ?thesis using main [OF _ assms(2,3)] assms(1) unfolding forest_def by blast
qed

lemma node_fields: "node_ok s' n = node_ok s n \<and> node_blocks s' n = node_blocks s n"
  if "fs_nodes s' n = (fs_nodes s n)\<lparr>vn_parent := a, vn_next_sibling := b\<rparr>" and "fs_private s' = fs_private s"
  using that by (simp add: node_ok_def node_blocks_def inode_at_def Let_def)

lemma movesI: "own s' X' N' \<Longrightarrow> ok (fs_heap s') (X' \<union> Y) \<Longrightarrow> X' \<inter> Y = {} \<Longrightarrow> N \<subseteq> N' \<Longrightarrow> keeps Y s s' \<Longrightarrow> moves ok own Y N s s' N'"
  by (auto simp: moves_def in_order_def)

lemma keepsD: "keeps A s s' \<Longrightarrow> B \<subseteq> A \<Longrightarrow> keeps B s s' \<and> same_at B s s'"
  by (auto simp: keeps_def same_at_def)

lemma fat_ops:
  "Option.bind (ops_of (fat32_node_ops hp rd vols) s n) op_open = Some f \<longleftrightarrow> vn_ops (fs_nodes s n) \<noteq> None \<and> f = fat32_vfs_open"
  "Option.bind (ops_of (fat32_node_ops hp rd vols) s n) op_close = None"
  "Option.bind (ops_of (fat32_node_ops hp rd vols) s n) op_read = Some g \<longleftrightarrow>
     vn_ops (fs_nodes s n) = Some fat32_file_ops \<and> g = fat32_vfs_read hp rd vols"
  "Option.bind (ops_of (fat32_node_ops hp rd vols) s n) op_write = Some w \<longleftrightarrow>
     vn_ops (fs_nodes s n) = Some fat32_file_ops \<and> w = fat32_vfs_write"
  "Option.bind (ops_of (fat32_node_ops hp rd vols) s n) op_readdir = Some d \<longleftrightarrow>
     vn_ops (fs_nodes s n) = Some fat32_dir_ops \<and> d = fat32_vfs_readdir hp rd vols"
  "Option.bind (ops_of (fat32_node_ops hp rd vols) s n) op_lookup = Some l \<longleftrightarrow>
     vn_ops (fs_nodes s n) = Some fat32_dir_ops \<and> l = fat32_vfs_lookup hp rd vols"
  "Option.bind (ops_of (fat32_node_ops hp rd vols) s n) op_stat = Some t \<longleftrightarrow>
     vn_ops (fs_nodes s n) \<noteq> None \<and> t = fat32_vfs_stat hp rd vols"
  by (cases "vn_ops (fs_nodes s n)"; cases "the (vn_ops (fs_nodes s n))"; auto simp: ops_of_def fat32_node_ops_def)+

context heap_source
begin

lemma fat_order:
  assumes "in_order ok (fat_own R) Y s N"
  obtains ts where "map nt_addr ts = R" "forest s ts" "N = set (all_addrs ts)" "ok (fs_heap s) (set (all_blocks s ts) \<union> Y)"
    "set (all_blocks s ts) \<inter> Y = {}"
  using assms by (auto simp: in_order_def fat_own_def)

lemma fat_heap_moves:
  assumes "in_order ok (fat_own R) Y s N" and "\<And>L. ok (fs_heap s) L \<Longrightarrow> yields m (\<lambda>(r, s'). \<exists>h. s' = s\<lparr>fs_heap := h\<rparr> \<and> ok h L)"
  shows "yields m (\<lambda>(r, s'). \<exists>N'. moves ok (fat_own R) Y N s s' N')"
proof -
  obtain X where X: "fat_own R s X N" "ok (fs_heap s) (X \<union> Y)" "X \<inter> Y = {}" using assms(1) by (auto simp: in_order_def)
  have "fat_own R (s\<lparr>fs_heap := h\<rparr>) X N" for h by (rule fat_own_frame [OF X(1)]) (simp add: same_at_def)
  then show ?thesis
    using X(3) by (intro yields_mono [OF assms(2) [OF X(2)]]) (fastforce simp: moves_def in_order_def keeps_def same_at_def)
qed

lemma lookup_adds:
  assumes io: "in_order ok (fat_own R) Y s N" and dir: "dir \<in> N" "vn_type (fs_nodes s dir) AND VFS_NODE_DIR \<noteq> 0"
    and s2: "keeps (X \<union> Y) s s2" "X = set (all_blocks s ts)" "N = set (all_addrs ts)" "forest s ts" "map nt_addr ts = R" "X \<inter> Y = {}"
    and n: "n \<notin> X \<union> Y" "n \<noteq> 0" "node_ok s2 n" "distinct (node_blocks s2 n)" "set (node_blocks s2 n) \<inter> (X \<union> Y) = {}"
      "ok (fs_heap s2) (set (node_blocks s2 n) \<union> (X \<union> Y))" "vn_first_child (fs_nodes s2 n) = 0"
  shows "\<exists>s3. vfs_add_child dir n s2 = (None, s3) \<and> moves ok (fat_own R) Y N s s3 (insert n N)"
proof -
  have dX: "dir \<in> X" "vn_data (fs_nodes s dir) \<in> X" using forest_data [of dir ts s] dir(1) s2(2,3) by auto
  have nd: "n \<noteq> dir" "dir \<noteq> 0" using dX n(1) fat_own_node [of R s X N dir] s2(2-5) dir(1)
    by (auto simp: fat_own_def node_ok_def Let_def)
  have same: "fs_nodes s2 b = fs_nodes s b" "fs_private s2 b = fs_private s b" if "b \<in> X \<union> Y" for b
    using s2(1) that by (auto simp: keeps_def same_at_def)
  define s3 where "s3 = upd_node dir (\<lambda>m. m\<lparr>vn_first_child := n\<rparr>) (upd_node n (\<lambda>m. m\<lparr>vn_parent := dir, vn_next_sibling := vn_first_child (fs_nodes s dir)\<rparr>) s2)"
  have run: "vfs_add_child dir n s2 = (None, s3)"
    using nd n(2) dir(2) same(1) [of dir] dX(1) by (simp add: vfs_add_child_def Let_def s3_def upd_node_def)
  have nodes: "fs_nodes s3 n = (fs_nodes s2 n)\<lparr>vn_parent := dir, vn_next_sibling := vn_first_child (fs_nodes s dir)\<rparr>"
    "fs_nodes s3 dir = (fs_nodes s dir)\<lparr>vn_first_child := n\<rparr>" "fs_private s3 = fs_private s2" "fs_heap s3 = fs_heap s2"
    and other: "b \<noteq> n \<Longrightarrow> b \<noteq> dir \<Longrightarrow> fs_nodes s3 b = fs_nodes s2 b" for b
    using nd(1) same(1) [of dir] dX(1) by (auto simp: s3_def upd_node_def)
  have bl: "node_ok s3 n" "node_blocks s3 n = node_blocks s2 n" using node_fields [OF nodes(1,3)] n(3) by auto
  have "unless_first dir s s3 b" if "b \<in> N" for b
  proof -
    have bX: "b \<in> X" "vn_data (fs_nodes s b) \<in> X" "b \<noteq> n" using forest_data [of b ts s] that s2(2,3) n(1) by auto
    have "fs_nodes s3 b = (if b = dir then (fs_nodes s b)\<lparr>vn_first_child := n\<rparr> else fs_nodes s b)"
      using nodes(2) other [of b] bX same(1) [of b] by auto
    then show ?thesis using bX(2) same(2) nodes(3) by (auto simp: node_view_def inode_at_def Let_def)
  qed
  then have own: "fat_own R s3 (X \<union> set (node_blocks s3 n)) (insert n N)"
    using forest_graft [OF s2(4), of dir s3 n] dir(1) bl nodes n(4,5,7) unfolding s2(2,3,5) [symmetric] by auto
  moreover have "ok (fs_heap s3) (X \<union> set (node_blocks s3 n) \<union> Y)" using n(6) by (simp add: nodes bl ac_simps)
  moreover have "(X \<union> set (node_blocks s3 n)) \<inter> Y = {}" using n(5) s2(6) by (auto simp: bl)
  moreover have "keeps Y s s3"
    using s2(1,6) n(1) dX(1) by (auto simp: keeps_def same_at_def s3_def upd_node_def)
  ultimately show ?thesis using run by (auto simp: moves_def in_order_def)
qed

lemma lookup_moves:
  assumes io: "in_order ok (fat_own R) Y s N" and dir: "dir \<in> N" "vn_type (fs_nodes s dir) AND VFS_NODE_DIR \<noteq> 0"
  shows "yields (fat32_vfs_lookup hp rd vols dir name s) (\<lambda>(n, s'). \<exists>N'. moves ok (fat_own R) Y N s s' N' \<and> n \<in> insert 0 N')"
    (is "yields _ ?Q")
proof -
  obtain ts where ts: "map nt_addr ts = R" "forest s ts" "N = set (all_addrs ts)" "ok (fs_heap s) (set (all_blocks s ts) \<union> Y)"
    "set (all_blocks s ts) \<inter> Y = {}" using fat_order [OF io] .
  define X where "X = set (all_blocks s ts)"
  have own: "fat_own R s X N" using ts by (auto simp: fat_own_def X_def)
  then have dok: "dir \<noteq> 0" "vn_data (fs_nodes s dir) \<noteq> 0" using fat_own_node [OF _ dir(1)] by (auto simp: node_ok_def Let_def)
  have idN: "moves ok (fat_own R) Y N s s N" using io by (simp add: moves_def keeps_def same_at_def)
  have heap: "moves ok (fat_own R) Y N s s' N" if "keeps (X \<union> Y) s s'" "ok (fs_heap s') (X \<union> Y)" for s'
    using that(2) keepsD [OF that(1)] fat_own_frame [OF own] ts(5) by (intro movesI [of _ _ X]) (auto simp: X_def)
  let ?ino = "vn_data (fs_nodes s dir)"
  have made: "yields (fat32_vfs_make_node hp vol ent (s\<lparr>fs_heap := h\<rparr>)) (\<lambda>(node, s2).
      yields (if node = 0 then ret (0, s2)
        else case vfs_add_child dir node s2 of
          (Some e, s3) \<Rightarrow> run_bind (vfs_node_destroy hp node s3) (\<lambda>s4. ret (0, s4))
        | (None, s3) \<Rightarrow> ret (node, s3)) ?Q)" if h: "ok h (X \<union> Y)" for vol ent h
  proof (rule yields_mono [OF make_node_ok [of "s\<lparr>fs_heap := h\<rparr>" "X \<union> Y"]], simp add: h, clarify, goal_cases)
    case (1 n s2)
    have k: "keeps (X \<union> Y) s s2" using 1(2) by (simp add: keeps_def same_at_def)
    show ?case
    proof (cases "n = 0")
      case True
      then show ?thesis using heap [OF k] 1(3) by auto
    next
      case False
      then obtain s3 where "vfs_add_child dir n s2 = (None, s3)" "moves ok (fat_own R) Y N s s3 (insert n N)"
        using lookup_adds [OF io dir k X_def ts(3,2,1) ts(5) [folded X_def], of n] 1(3) by auto
      then show ?thesis using False by auto
    qed
  qed
  have "yields (find_entry hp rd vols ?ino name s) (\<lambda>(found, s1).
      yields (case found of None \<Rightarrow> ret (0, s1)
        | Some ent \<Rightarrow> run_bind (fat32_vfs_make_node hp (ino_vol (inode_at s1 ?ino)) ent s1) (\<lambda>(node, s2).
            if node = 0 then ret (0, s2)
            else case vfs_add_child dir node s2 of
              (Some e, s3) \<Rightarrow> run_bind (vfs_node_destroy hp node s3) (\<lambda>s4. ret (0, s4))
            | (None, s3) \<Rightarrow> ret (node, s3))) ?Q)"
  proof (rule yields_mono [OF find_entry_ok [OF ts(4) [folded X_def]]], clarify, goal_cases)
    case (1 found s1 h)
    then show ?case using made [of h] heap [of "s\<lparr>fs_heap := h\<rparr>"]
      by (cases found) (auto simp: keeps_def same_at_def case_prod_unfold)
  qed
  moreover have "yields (fat32_find_child_ci dir name s) (\<lambda>c. c \<in> insert 0 N)"
    using find_sibling_in [of s _ "vn_first_child (fs_nodes s dir)" _ N] fat_own_links [OF own] dir(1)
    by (auto simp: fat32_find_child_ci_def yields_def)
  ultimately show ?thesis
    unfolding fat32_vfs_lookup_def using dok idN
    by (auto simp: Let_def case_prod_unfold elim!: yields_mono)
qed

lemma readdir_moves:
  assumes io: "in_order ok (fat_own R) Y s N" and dir: "dir \<in> N"
  shows "yields (fat32_vfs_readdir hp rd vols dir i s) (\<lambda>(r, s'). \<exists>N'. moves ok (fat_own R) Y N s s' N')"
proof -
  obtain ts where ts: "map nt_addr ts = R" "forest s ts" "N = set (all_addrs ts)" "ok (fs_heap s) (set (all_blocks s ts) \<union> Y)"
    "set (all_blocks s ts) \<inter> Y = {}" using fat_order [OF io] .
  define X where "X = set (all_blocks s ts)"
  let ?ino = "vn_data (fs_nodes s dir)"
  have own: "fat_own R s X N" using ts by (auto simp: fat_own_def X_def)
  then have dok: "dir \<noteq> 0" "?ino \<noteq> 0" "node_ok s dir" using fat_own_node [OF _ dir(1)] by (auto simp: node_ok_def Let_def)
  have inoX: "?ino \<in> X" using forest_data [of dir ts s] dir ts(3) by (auto simp: X_def)
  have after: "yields (nth_entry hp rd vols ?ino i s1) (\<lambda>(r, s'). \<exists>N'. moves ok (fat_own R) Y N s s' N')"
    if m: "moves ok (fat_own R) Y N s s1 N" for s1
  proof -
    have "in_order ok (fat_own R) Y s1 N" using m by (simp add: moves_def)
    from fat_heap_moves [OF this nth_entry_ok] show ?thesis
      using m by (auto simp: moves_def keeps_def same_at_def elim!: yields_mono)
  qed
  have loaded: "moves ok (fat_own R) Y N s s1 N"
    if post: "cache_post ok (X \<union> Y) ?ino s (rc, s1)" and fresh: "\<not> ino_dir_cache_loaded (inode_at s ?ino)" for rc s1
  proof (cases rc)
    case (Some e)
    then have "keeps (X \<union> Y) s s1" "ok (fs_heap s1) (X \<union> Y)" using post by (auto simp: cache_post_def)
    then show ?thesis
      using keepsD [of "X \<union> Y" s s1] fat_own_frame [OF own] ts(5) by (intro movesI [of _ _ X]) (auto simp: X_def)
  next
    case None
    then obtain p where p: "p \<notin> X \<union> Y" "p \<noteq> 0" "keeps (X \<union> Y - {?ino}) s s1" "ok (fs_heap s1) (insert p (X \<union> Y))"
      "ino_dir_cache (inode_at s1 ?ino) = p" "ino_dir_cache_loaded (inode_at s1 ?ino)" and nodes: "fs_nodes s1 = fs_nodes s"
      using post by (auto simp: cache_post_def)
    have "ino_dir_cache (inode_at s ?ino) = 0" using dok(3) fresh by (auto simp: node_ok_def Let_def)
    note cn = cache_node [OF dok(3) this p(2) nodes p(5,6)]
    have "node_view s1 b = node_view s b" if "b \<in> set (all_addrs ts) - {dir}" for b
    proof -
      have "vn_data (fs_nodes s b) \<in> X - {?ino}" using forest_data [of b ts s] data_inj [OF ts(2), of b dir] that dir ts(3) by (auto simp: X_def)
      then show ?thesis using p(3) nodes by (auto simp: node_view_def inode_at_def Let_def keeps_def same_at_def)
    qed
    then have "fat_own R s1 (insert p X) N"
      using forest_cache [OF ts(2) _ nodes cn] dir p(1) ts(1,3) by (auto simp: X_def)
    moreover have "Y \<subseteq> X \<union> Y - {?ino}" using inoX ts(5) by (auto simp: X_def)
    ultimately show ?thesis using p(1,4) keepsD [OF p(3)] ts(5) by (intro movesI [of _ _ "insert p X"]) (auto simp: X_def)
  qed
  show ?thesis
  proof (cases "ino_dir_cache_loaded (inode_at s ?ino)")
    case True
    then show ?thesis using dok after [of s] io by (simp add: fat32_vfs_readdir_def Let_def moves_def keeps_def same_at_def)
  next
    case False
    have "yields (load_cache_loop hp rd vols ?ino 64 s) (\<lambda>(rc, s1). yields (if rc = None \<or> rc = Some NOMEM then nth_entry hp rd vols ?ino i s1
        else ret (Inl (the rc), s1)) (\<lambda>(r, s'). \<exists>N'. moves ok (fat_own R) Y N s s' N'))"
    proof (rule yields_mono [OF load_cache_ok [OF ts(4) [folded X_def], of ?ino]], goal_cases)
      case 1
      then show ?case using inoX by simp
    next
      case (2 x)
      obtain rc s1 where x: "x = (rc, s1)" by (cases x)
      have "moves ok (fat_own R) Y N s s1 N" using loaded [OF _ False] 2(2) x by simp
      then show ?case using after [of s1] x by auto
    qed
    then show ?thesis using dok False by (simp add: fat32_vfs_readdir_def fat32_vfs_load_dir_cache_def Let_def case_prod_unfold)
  qed
qed

lemma stat_moves:
  assumes io: "in_order ok (fat_own R) Y s N" and node: "node \<in> N"
  shows "yields (fat32_vfs_stat hp rd vols node s) (\<lambda>(r, s'). \<exists>N'. moves ok (fat_own R) Y N s s' N')"
proof -
  obtain ts where ts: "map nt_addr ts = R" "forest s ts" "N = set (all_addrs ts)" "ok (fs_heap s) (set (all_blocks s ts) \<union> Y)"
    "set (all_blocks s ts) \<inter> Y = {}" using fat_order [OF io] .
  define X where "X = set (all_blocks s ts)"
  let ?ino = "vn_data (fs_nodes s node)"
  have own: "fat_own R s X N" using ts by (auto simp: fat_own_def X_def)
  have nX: "node \<in> X" "?ino \<in> X" "node \<notin> Y" "?ino \<notin> Y" using forest_data [of node ts s] node ts(3,5) by (auto simp: X_def)
  define s' where "s' = (\<lambda>h (ent :: fat32_dirent). upd_inode ?ino (\<lambda>i. i\<lparr>ino_attributes := de_attributes ent\<rparr>)
    (upd_node node (\<lambda>n. n\<lparr>vn_size := ucast (de_file_size ent)\<rparr>) (upd_inode ?ino (\<lambda>i. i\<lparr>ino_size := de_file_size ent\<rparr>) (s\<lparr>fs_heap := h\<rparr>))))"
  have upd: "moves ok (fat_own R) Y N s (s' h ent) N" if "ok h (X \<union> Y)" for h ent
  proof -
    have "node_view (s' h ent) a = node_view s a \<and> vn_first_child (fs_nodes (s' h ent) a) = vn_first_child (fs_nodes s a)" for a
      by (auto simp: s'_def node_view_def upd_inode_def upd_node_def inode_at_def Let_def)
    then have "fat_own R (s' h ent) X N"
      using forest_cong [OF ts(2), of "s' h ent"] ts(1,3) unfolding fat_own_def X_def by metis
    moreover have "keeps Y s (s' h ent)" "fs_heap (s' h ent) = h"
      using nX(3,4) by (auto simp: s'_def keeps_def same_at_def upd_inode_def upd_node_def)
    ultimately show ?thesis using that ts(5) by (intro movesI [of _ _ X]) (auto simp: X_def)
  qed
  have heap: "moves ok (fat_own R) Y N s (s\<lparr>fs_heap := h\<rparr>) N" if "ok h (X \<union> Y)" for h
    using that fat_own_frame [OF own, of "s\<lparr>fs_heap := h\<rparr>"] ts(5) by (intro movesI [of _ _ X]) (auto simp: keeps_def same_at_def X_def)
  have idN: "moves ok (fat_own R) Y N s s N" using io by (simp add: moves_def keeps_def same_at_def)
  have called: "yields (call_lookup hp rd vols v c nm s) (\<lambda>(r, s1). yields (ret (case r of Inl e \<Rightarrow> s1
      | Inr ent \<Rightarrow> upd_inode ?ino (\<lambda>i. i\<lparr>ino_attributes := de_attributes ent\<rparr>) (upd_node node (\<lambda>n. n\<lparr>vn_size := ucast (de_file_size ent)\<rparr>)
          (upd_inode ?ino (\<lambda>i. i\<lparr>ino_size := de_file_size ent\<rparr>) s1)))) (\<lambda>s2. \<exists>N'. moves ok (fat_own R) Y N s s2 N'))" for v c nm
  proof (rule yields_mono [OF calls_ok(2) [OF ts(4) [folded X_def]]], clarify, goal_cases)
    case (1 r s1 h)
    show ?case using upd [OF 1(2), unfolded s'_def] heap [OF 1(2)] by (cases r) (simp_all, blast+)
  qed
  show ?thesis
    unfolding fat32_vfs_stat_def Let_def using called idN by (auto simp: case_prod_unfold)
qed

lemma file_read_moves:
  assumes "in_order ok (fat_own R) Y s N"
  shows "yields (fat32_vfs_read hp rd vols file len s) (\<lambda>(r, s'). \<exists>N'. moves ok (fat_own R) Y N s s' N')"
proof (rule fat_heap_moves [OF assms])
  fix L assume L: "ok (fs_heap s) L"
  then show "yields (fat32_vfs_read hp rd vols file len s) (\<lambda>(r, s'). \<exists>h. s' = s\<lparr>fs_heap := h\<rparr> \<and> ok h L)"
    using calls_ok(1) [OF L] by (auto simp: fat32_vfs_read_def Let_def intro!: exI [of _ "fs_heap s"])
qed

lemma fat_backend: "fs_backend hp ok (fat32_node_ops hp rd vols) (fat_own R)"
proof (unfold_locales, goal_cases)
  case (1 s X N s')
  then show ?case by (rule fat_own_frame)
next
  case (2 s X N)
  then show ?case using forest_data by (fastforce simp: fat_own_def)
next
  case (3 s X N n)
  then show ?case by (rule fat_own_links)
next
  case (4 Y s N dir lookup name)
  then have "lookup = fat32_vfs_lookup hp rd vols" "vn_ops (fs_nodes s dir) = Some fat32_dir_ops"
    by (simp_all add: fat_ops)
  moreover have "node_ok s dir" using 4(1,2) fat_own_node by (auto simp: in_order_def)
  ultimately show ?case using lookup_moves [OF 4(1,2)] by (simp add: node_ok_def Let_def)
next
  case (5 Y s N fl open' flags)
  then have "open' = fat32_vfs_open" by (simp_all add: fat_ops)
  then show ?case using 5(1) by (auto simp: fat32_vfs_open_def moves_def keeps_def same_at_def)
next
  case (6 Y s N fl close)
  then show ?case by (simp add: fat_ops)
next
  case (7 Y s N fl read len)
  then have "read = fat32_vfs_read hp rd vols" by (simp_all add: fat_ops)
  then show ?case using file_read_moves [OF 7(1)] by simp
next
  case (8 Y s N fl wr buf)
  then have "wr = fat32_vfs_write" by (simp_all add: fat_ops)
  then show ?case using 8(1) by (auto simp: fat32_vfs_write_def moves_def keeps_def same_at_def)
next
  case (9 Y s N dir readdir index)
  then have "readdir = fat32_vfs_readdir hp rd vols" by (simp_all add: fat_ops)
  then show ?case using readdir_moves [OF 9(1,2)] by simp
next
  case (10 Y s N node stat)
  then have "stat = fat32_vfs_stat hp rd vols" by (simp_all add: fat_ops)
  then show ?case using stat_moves [OF 10(1,2)] by simp
qed

end

interpretation fat: fs_backend "kheap kend" kmalloc_live "fat32_node_ops (kheap kend) rd vols" "fat_own R" for kend rd vols R
  by (rule kh.fat_backend)

section \<open>The mounted volumes and the heap\<close>

text \<open>
  Every block of the heap that is live belongs to the rest of the kernel, \<open>L\<close>, to an open file of \<open>F\<close>, to a
  mount, or to the tree of nodes of a mounted volume; there is one tree for every mount, at its root.
\<close>

definition fat_inv :: "u64 set \<Rightarrow> u64 set \<Rightarrow> kmalloc_state fat32_fs \<Rightarrow> bool" where
  "fat_inv L F s \<longleftrightarrow> (\<exists>N. switch_inv kmalloc_live (fat_own (map mnt_root (g_mounts s))) L F s N)"

text \<open>The nodes that can be reached from a root.\<close>

inductive below :: "'h fat32_fs \<Rightarrow> u64 \<Rightarrow> u64 \<Rightarrow> bool" for s root where
  below_root: "below s root root"
| below_child: "below s root n \<Longrightarrow> c = vn_first_child (fs_nodes s n) \<Longrightarrow> c \<noteq> 0 \<Longrightarrow> below s root c"
| below_sibling: "below s root n \<Longrightarrow> n \<noteq> root \<Longrightarrow> c = vn_next_sibling (fs_nodes s n) \<Longrightarrow> c \<noteq> 0 \<Longrightarrow> below s root c"

lemma tree_below:
  "ntree_ok s t \<Longrightarrow> below s r (nt_addr t) \<Longrightarrow> r \<notin> set (all_addrs (nt_kids t)) \<Longrightarrow> a \<in> set (addrs t) \<Longrightarrow> below s r a"
  and kids_below:
  "kids_ok s c ts \<Longrightarrow> (c \<noteq> 0 \<longrightarrow> below s r c) \<Longrightarrow> r \<notin> set (all_addrs ts) \<Longrightarrow> a \<in> set (all_addrs ts) \<Longrightarrow> below s r a"
proof (induction t and ts arbitrary: and c rule: ntree_kids_induct)
  case (Tree b ks)
  have "vn_first_child (fs_nodes s b) \<noteq> 0 \<longrightarrow> below s r (vn_first_child (fs_nodes s b))"
    using below_child [of s r b] Tree.prems(2) by auto
  then show ?case using Tree by auto
next
  case (Cons t ts)
  have t: "c = nt_addr t" "c \<noteq> 0" "ntree_ok s t" "kids_ok s (vn_next_sibling (fs_nodes s (nt_addr t))) ts"
    using Cons.prems(1) by (cases t; auto simp: node_ok_def Let_def)+
  have "nt_addr t \<noteq> r" "set (all_addrs (nt_kids t)) \<subseteq> set (addrs t)" using Cons.prems(3) nt_addr_in [of t] by (cases t; auto)+
  then have "vn_next_sibling (fs_nodes s (nt_addr t)) \<noteq> 0 \<longrightarrow> below s r (vn_next_sibling (fs_nodes s (nt_addr t)))"
    using below_sibling [of s r "nt_addr t"] Cons.prems(2) t(1,2) by auto
  then show ?case
    using Cons.IH(1) [OF t(3)] Cons.IH(2) [OF t(4)] Cons.prems(2-4) t(1,2) \<open>set (all_addrs (nt_kids t)) \<subseteq> set (addrs t)\<close> by auto
qed simp

lemma blocks_heap [simp]: "blocks (s\<lparr>fs_heap := h\<rparr>) = blocks s"
  by (rule ext) simp

lemma forest_heap [simp]: "forest (s\<lparr>fs_heap := h\<rparr>) ts = forest s ts"
  by (simp add: forest_def)

lemma mount_heap [simp]: "mount_blocks (s\<lparr>fs_heap := h\<rparr>) = mount_blocks s" "mounts_ok (s\<lparr>fs_heap := h\<rparr>) = mounts_ok s"
    "mount_table (s\<lparr>fs_heap := h\<rparr>) = mount_table s"
  by (simp_all add: mount_blocks_def mounts_ok_def mount_ok_def list_all_iff mount_table_def)

lemma fat_unmount:
  assumes inv: "fat_inv L F s" and idle: "\<And>root f. mount_table s (trimmed path) = Some root \<Longrightarrow> f \<in> F \<Longrightarrow> \<not> below s root (vf_node (fs_files s f))"
  shows "\<exists>rc s'. fat32_vfs_unmount (kheap kend) path s = ret (rc, s') \<and> fat_inv L F s' \<and> (rc = None \<longleftrightarrow> trimmed path \<in> dom (mount_table s)) \<and>
    mount_table s' = (if rc = None then (mount_table s)(trimmed path := None) else mount_table s)"
proof -
  let ?R = "map mnt_root (g_mounts s)"
  obtain N where N: "switch_inv kmalloc_live (fat_own ?R) L F s N" using inv by (auto simp: fat_inv_def)
  obtain r s1 where r: "vfs_unmount_detach (kheap kend) path s = ret (r, s1)" "switch_inv kmalloc_live (fat_own ?R) L F s1 N"
    "s1 = s\<lparr>g_mounts := g_mounts s1, fs_heap := fs_heap s1\<rparr>"
    "case r of Inl e \<Rightarrow> s1 = s \<and> trimmed path \<notin> dom (mount_table s)
     | Inr root \<Rightarrow> mount_table s (trimmed path) = Some root \<and> mount_table s1 = (mount_table s)(trimmed path := None) \<and>
         (\<exists>xs m ys. g_mounts s = xs @ m # ys \<and> g_mounts s1 = xs @ ys \<and> mnt_root m = root)"
    using fat.unmount_switch [OF N, where path = path and kend = kend] by blast
  show ?thesis
  proof (cases r)
    case (Inl e)
    then show ?thesis using r(1,4) inv by (auto simp: fat32_vfs_unmount_def)
  next
    case (Inr root)
    obtain xs m ys where ms: "g_mounts s = xs @ m # ys" "g_mounts s1 = xs @ ys" "mnt_root m = root"
      and tab: "mount_table s (trimmed path) = Some root" "mount_table s1 = (mount_table s)(trimmed path := None)"
      using r(4) Inr by auto
    let ?Y = "L \<union> F \<union> set (mount_blocks s1)"
    obtain ts where ts: "map nt_addr ts = ?R" "forest s1 ts" "N = set (all_addrs ts)" "kmalloc_live (fs_heap s1) (set (all_blocks s1 ts) \<union> ?Y)"
      "set (all_blocks s1 ts) \<inter> ?Y = {}"
      using kh.fat_order r(2) unfolding switch_inv_def by metis
    from ts(1) ms obtain us t vs where t: "ts = us @ t # vs" "map nt_addr us = map mnt_root xs" "nt_addr t = root" "map nt_addr vs = map mnt_root ys"
      by (auto simp: map_eq_append_conv map_eq_Cons_conv)
    have same: "fs_nodes s1 = fs_nodes s" "fs_private s1 = fs_private s" "fs_files s1 = fs_files s"
      using arg_cong [OF r(3), of fs_nodes] arg_cong [OF r(3), of fs_private] arg_cong [OF r(3), of fs_files] by simp_all
    have d: "distinct (blocks s1 t)" "ntree_ok s1 t" "set (blocks s1 t) \<inter> set (all_blocks s1 (us @ vs)) = {}" "forest s1 (us @ vs)"
      using ts(2) by (auto simp: forest_def t(1))
    obtain h where h: "free_walk (kheap kend) True root s1 = ret (s1\<lparr>fs_heap := h\<rparr>)" "kmalloc_live h (set (all_blocks s1 ts) \<union> ?Y - set (blocks s1 t))"
      using kh.free_walk_ok(1) [OF ts(4) d(2,1), of kend] t(1,3) by auto
    let ?s' = "s1\<lparr>fs_heap := h\<rparr>"
    have live: "set (all_blocks s1 ts) \<union> ?Y - set (blocks s1 t) = set (all_blocks s1 (us @ vs)) \<union> ?Y"
      using d(3) ts(5) by (auto simp: t(1))
    have "fat_own (map mnt_root (g_mounts ?s')) ?s' (set (all_blocks s1 (us @ vs))) (set (all_addrs (us @ vs)))"
      unfolding fat_own_def using d(4) t(2,4) ms(2) by (intro exI [of _ "us @ vs"]) auto
    moreover have "set (all_blocks s1 (us @ vs)) \<inter> ?Y = {}" using ts(5) by (auto simp: t(1))
    ultimately have io: "in_order kmalloc_live (fat_own (map mnt_root (g_mounts ?s'))) ?Y ?s' (set (all_addrs (us @ vs)))"
      unfolding in_order_def using h(2) [unfolded live] by auto
    have "mnt_root mnt \<in> set (all_addrs (us @ vs))" if "mnt \<in> set (g_mounts s1)" for mnt
    proof -
      have "mnt_root mnt \<in> set (map nt_addr (us @ vs))" using that ms(2) t(2,4) by auto
      then show ?thesis using nt_addr_in by fastforce
    qed
    moreover have "vf_node (fs_files s1 f) \<in> set (all_addrs (us @ vs))" if "f \<in> F" for f
    proof -
      have "below s root a" if "a \<in> set (addrs t)" for a
      proof (rule tree_below [OF _ _ _ that])
        show "ntree_ok s t" using d(2) tree_cong [of t s1 s] same by (simp add: node_view_def inode_at_def)
        show "below s root (nt_addr t)" unfolding t(3) by (rule below_root)
        show "root \<notin> set (all_addrs (nt_kids t))" using distinct_addrs [OF d(1)] t(3) by (cases t) auto
      qed
      then have "vf_node (fs_files s f) \<notin> set (addrs t)" using idle [OF tab(1) that] by blast
      moreover have "vf_node (fs_files s f) \<in> N" using N that by (simp add: switch_inv_def)
      ultimately show ?thesis unfolding same(3) ts(3) by (auto simp: t(1))
    qed
    ultimately have "switch_inv kmalloc_live (fat_own (map mnt_root (g_mounts ?s'))) L F ?s' (set (all_addrs (us @ vs)))"
      using io r(2) unfolding switch_inv_def by simp
    then have "fat_inv L F ?s'" unfolding fat_inv_def by blast
    moreover have "fat32_vfs_unmount (kheap kend) path s = ret (None, ?s')"
      using r(1) Inr h(1) by (simp add: fat32_vfs_unmount_def fat32_vfs_free_tree_def)
    moreover have "mount_table ?s' = (mount_table s)(trimmed path := None)" "trimmed path \<in> dom (mount_table s)" using tab by auto
    ultimately show ?thesis by auto
  qed
qed

lemma adopt_root:
  assumes io: "in_order ok (fat_own R) (Y \<union> set (node_blocks s root)) s N" and root: "node_ok s root" "vn_first_child (fs_nodes s root) = 0"
      "vn_next_sibling (fs_nodes s root) = 0" "distinct (node_blocks s root)" "set (node_blocks s root) \<inter> Y = {}"
  shows "in_order ok (fat_own (root # R)) Y s (insert root N)"
proof -
  obtain ts where ts: "map nt_addr ts = R" "forest s ts" "N = set (all_addrs ts)"
    "ok (fs_heap s) (set (all_blocks s ts) \<union> (Y \<union> set (node_blocks s root)))" "set (all_blocks s ts) \<inter> (Y \<union> set (node_blocks s root)) = {}"
    using io by (auto simp: in_order_def fat_own_def)
  have "forest s (NT root [] # ts)" using ts(2,5) root by (auto simp: forest_def)
  then have "fat_own (root # R) s (set (node_blocks s root) \<union> set (all_blocks s ts)) (insert root N)"
    unfolding fat_own_def using ts(1,3) by (intro exI [of _ "NT root [] # ts"]) auto
  moreover have "ok (fs_heap s) (set (node_blocks s root) \<union> set (all_blocks s ts) \<union> Y)" using ts(4) by (simp add: ac_simps)
  ultimately show ?thesis unfolding in_order_def using ts(5) root(5) by (intro exI conjI) (assumption, assumption, auto)
qed

lemma switch_more:
  assumes "switch_inv kmalloc_live own L F s N" and "in_order kmalloc_live own (L \<union> B \<union> F \<union> set (mount_blocks s)) s' N"
    and "keeps (L \<union> F \<union> set (mount_blocks s)) s s'" and "B \<inter> (L \<union> F \<union> set (mount_blocks s)) = {}"
  shows "switch_inv kmalloc_live own (L \<union> B) F s' N"
proof -
  have k: "g_mounts s' = g_mounts s" "fs_files s' = fs_files s" "mount_blocks s' = mount_blocks s"
    using assms(3) by (auto simp: keeps_def mount_blocks_def)
  have "mount_name s' m = mount_name s m" if "m \<in> set (g_mounts s)" for m
    using assms(3) that by (auto simp: keeps_def same_at_def mount_blocks_def)
  then have "mounts_ok s'"
    using assms(1) by (auto simp: switch_inv_def mounts_ok_def k list_all_iff mount_ok_def cong: map_cong)
  then show ?thesis using assms(1,2,4) unfolding switch_inv_def k by auto
qed

lemma switch_less:
  assumes "switch_inv kmalloc_live own (L \<union> B) F s N" and "in_order kmalloc_live own (L \<union> F \<union> set (mount_blocks s)) (s\<lparr>fs_heap := h\<rparr>) N"
  shows "switch_inv kmalloc_live own L F (s\<lparr>fs_heap := h\<rparr>) N"
  using assms unfolding switch_inv_def by auto

lemma mount_fails:
  assumes inv: "switch_inv kmalloc_live (fat_own R) (L \<union> set (node_blocks s root)) F s N" and root: "node_ok s root"
      "distinct (node_blocks s root)" "set (node_blocks s root) \<inter> (L \<union> F \<union> set (mount_blocks s)) = {}"
      "ino_dir_cache (inode_at s (vn_data (fs_nodes s root))) = 0"
  shows "\<exists>h. run_bind (kfree_fs (kheap kend) (vn_data (fs_nodes s root)) s) (\<lambda>s4. vfs_node_destroy (kheap kend) root s4) = ret (s\<lparr>fs_heap := h\<rparr>) \<and>
    switch_inv kmalloc_live (fat_own R) L F (s\<lparr>fs_heap := h\<rparr>) N"
proof -
  let ?ino = "vn_data (fs_nodes s root)" and ?Y = "L \<union> F \<union> set (mount_blocks s)"
  obtain X where X: "fat_own R s X N" "kmalloc_live (fs_heap s) (X \<union> (L \<union> set (node_blocks s root) \<union> F \<union> set (mount_blocks s)))"
    "X \<inter> (L \<union> set (node_blocks s root) \<union> F \<union> set (mount_blocks s)) = {}"
    using inv by (auto simp: switch_inv_def in_order_def)
  have nz: "?ino \<noteq> 0" using root(1) by (auto simp: node_ok_def Let_def)
  obtain h where h: "free_node (kheap kend) root s = ret (s\<lparr>fs_heap := h\<rparr>)"
    "kmalloc_live h (X \<union> (L \<union> set (node_blocks s root) \<union> F \<union> set (mount_blocks s)) - set (node_blocks s root))"
    using kh.free_node_ok [OF X(2) root(1,2), of kend] by auto
  have "X \<union> (L \<union> set (node_blocks s root) \<union> F \<union> set (mount_blocks s)) - set (node_blocks s root) = X \<union> ?Y"
    using X(3) root(3) by auto
  moreover have "fat_own R (s\<lparr>fs_heap := h\<rparr>) X N" by (rule fat_own_frame [OF X(1)]) (simp add: same_at_def)
  ultimately have "in_order kmalloc_live (fat_own R) ?Y (s\<lparr>fs_heap := h\<rparr>) N"
    unfolding in_order_def using h(2) X(3) by (intro exI [of _ X]) auto
  moreover have "run_bind (kfree_fs (kheap kend) ?ino s) (\<lambda>s4. vfs_node_destroy (kheap kend) root s4) = free_node (kheap kend) root s"
    using nz root(4) by (simp add: free_node_def Let_def)
  ultimately show ?thesis using h(1) switch_less [OF inv] by auto
qed

lemma fat_mounted:
  assumes inv: "switch_inv kmalloc_live (fat_own R) L F s N" and R: "R = map mnt_root (g_mounts s)" and len: "length path < 65536"
    and s2: "keeps (X \<union> (L \<union> F \<union> set (mount_blocks s))) s s2" "fat_own R s X N" "X \<inter> (L \<union> F \<union> set (mount_blocks s)) = {}"
    and B: "B = set (node_blocks s2 root)" "kmalloc_live (fs_heap s2) (B \<union> (X \<union> (L \<union> F \<union> set (mount_blocks s))))"
      "B \<inter> (X \<union> (L \<union> F \<union> set (mount_blocks s))) = {}"
    and root: "node_ok s2 root" "distinct (node_blocks s2 root)" "vn_first_child (fs_nodes s2 root) = 0" "vn_next_sibling (fs_nodes s2 root) = 0"
      "ino_dir_cache (inode_at s2 (vn_data (fs_nodes s2 root))) = 0"
  shows "yields (vfs_mount (kheap kend) (fat32_node_ops (kheap kend) rd vols) root path s2) (\<lambda>(rc, s3). yields (case rc of
      Some e \<Rightarrow> run_bind (kfree_fs (kheap kend) (vn_data (fs_nodes s2 root)) s3) (\<lambda>s4. run_bind (vfs_node_destroy (kheap kend) root s4) (\<lambda>s5. ret (Some e, s5)))
    | None \<Rightarrow> ret (None, s3)) (\<lambda>(rc, s'). fat_inv L F s' \<and>
      (case rc of Some e \<Rightarrow> mount_table s' = mount_table s
       | None \<Rightarrow> trimmed path \<notin> dom (mount_table s) \<and> (\<exists>r. mount_table s' = (mount_table s)(trimmed path \<mapsto> r)))))"
proof -
  let ?Y = "L \<union> F \<union> set (mount_blocks s)"
  have Yk: "keeps ?Y s s2" using keepsD [OF s2(1)] by blast
  have k2: "g_mounts s2 = g_mounts s" "fs_files s2 = fs_files s" "mount_blocks s2 = mount_blocks s"
    using Yk by (auto simp: keeps_def mount_blocks_def)
  have "same_at X s s2" using keepsD [OF s2(1)] by blast
  then have own2: "fat_own R s2 X N" by (rule fat_own_frame [OF s2(2)])
  have "in_order kmalloc_live (fat_own R) (L \<union> B \<union> F \<union> set (mount_blocks s)) s2 N"
    unfolding in_order_def using own2 B(2,3) s2(3) by (intro exI [of _ X]) (auto simp: ac_simps)
  then have inv2: "switch_inv kmalloc_live (fat_own R) (L \<union> B) F s2 N" using switch_more [OF inv _ Yk] B(3) by blast
  have tab2: "mount_table s2 = mount_table s"
  proof -
    have "mount_name s2 m = mount_name s m" if "m \<in> set (g_mounts s)" for m
      using Yk that by (auto simp: keeps_def same_at_def mount_blocks_def)
    then show ?thesis by (simp add: mount_table_def k2 cong: map_cong)
  qed
  show ?thesis
  proof (rule yields_mono [OF fat.mount_spec [OF inv2 len, where kend = kend and rd = rd and vols = vols and root = root]], clarify, goal_cases)
    case (1 rc s3 s0 N0)
    let ?Z = "L \<union> B \<union> F \<union> set (mount_blocks s2)"
    note m = 1(2)
    note S = fat.moves_switch [OF inv2 m]
    have at: "fs_nodes s0 a = fs_nodes s2 a" "fs_private s0 a = fs_private s2 a" if "a \<in> B" for a
      using m that by (auto simp: moves_def keeps_def same_at_def)
    have rB: "root \<in> B" "vn_data (fs_nodes s2 root) \<in> B" by (auto simp: B(1) node_blocks_def Let_def)
    have view: "node_view s0 root = node_view s2 root" using at rB by (simp add: node_view_def inode_at_def Let_def)
    have r0: "node_ok s0 root" "node_blocks s0 root = node_blocks s2 root" "fs_nodes s0 root = fs_nodes s2 root"
      "ino_dir_cache (inode_at s0 (vn_data (fs_nodes s0 root))) = 0"
      using view_blocks [OF view] root(1,5) at rB by (auto simp: inode_at_def)
    have sep: "B \<inter> (L \<union> F \<union> set (mount_blocks s2)) = {}" using B(3) k2(3) by auto
    show ?case
    proof (cases rc)
      case (Some e)
      then obtain h where h: "s3 = s0\<lparr>fs_heap := h\<rparr>" "switch_inv kmalloc_live (fat_own R) (L \<union> B) F s3 N0" using 1(3) by auto
      have r3: "node_ok s3 root" "node_blocks s3 root = node_blocks s2 root" "fs_nodes s3 root = fs_nodes s2 root" "mount_blocks s3 = mount_blocks s2"
        "ino_dir_cache (inode_at s3 (vn_data (fs_nodes s3 root))) = 0"
        using r0 S(3) by (simp_all add: h(1) inode_at_def)
      have "switch_inv kmalloc_live (fat_own R) (L \<union> set (node_blocks s3 root)) F s3 N0" using h(2) by (simp add: r3(2) B(1))
      from mount_fails [OF this r3(1), of kend] obtain h' where
        "run_bind (kfree_fs (kheap kend) (vn_data (fs_nodes s2 root)) s3) (\<lambda>s4. vfs_node_destroy (kheap kend) root s4) = ret (s3\<lparr>fs_heap := h'\<rparr>)"
        "switch_inv kmalloc_live (fat_own R) L F (s3\<lparr>fs_heap := h'\<rparr>) N0"
        using root(2) sep r3 by (auto simp: B(1))
      moreover have "g_mounts (s3\<lparr>fs_heap := h'\<rparr>) = g_mounts s" "mount_table (s3\<lparr>fs_heap := h'\<rparr>) = mount_table s" for h'
        using S(2,5) k2(1) tab2 by (simp_all add: h(1))
      ultimately show ?thesis
        using R unfolding Some by (auto simp: fat_inv_def run_bind_ret_iff)
    next
      case None
      define p where "p = trimmed path"
      obtain a b h where s3: "s3 = add_mount a b p root (s0\<lparr>fs_heap := h\<rparr>)" "b \<noteq> 0" "a \<notin> ?Z" "b \<notin> insert a ?Z"
        "in_order kmalloc_live (fat_own R) (insert b (insert a ?Z)) (s0\<lparr>fs_heap := h\<rparr>) N0" and p: "p \<noteq> []" "p ! 0 = slash" "p \<notin> dom (mount_table s)"
        using 1(3) unfolding None option.case p_def tab2 by blast
      let ?W = "L \<union> F \<union> set (mount_blocks s0)"
      have W: "insert b (insert a ?W) \<union> set (node_blocks (s0\<lparr>fs_heap := h\<rparr>) root) = insert b (insert a ?Z)" "?W \<union> set (node_blocks s0 root) = ?Z"
        "insert b (insert a ?W) \<inter> B = {}" "?W \<inter> B = {}"
        using s3(3,4) sep by (auto simp: S(3) r0(2) B(1))
      have io: "in_order kmalloc_live (fat_own (root # R)) (insert b (insert a ?W)) (s0\<lparr>fs_heap := h\<rparr>) (insert root N0)"
      proof (rule adopt_root)
        show "in_order kmalloc_live (fat_own R) (insert b (insert a ?W) \<union> set (node_blocks (s0\<lparr>fs_heap := h\<rparr>) root)) (s0\<lparr>fs_heap := h\<rparr>) N0"
          unfolding W(1) by (rule s3(5))
        show "set (node_blocks (s0\<lparr>fs_heap := h\<rparr>) root) \<inter> insert b (insert a ?W) = {}" using W(3) by (simp add: r0(2) B(1) Int_commute)
      qed (use r0 root in simp_all)
      have "in_order kmalloc_live (fat_own R) ?Z s0 N0" using m by (simp add: moves_def)
      then have "in_order kmalloc_live (fat_own R) (?W \<union> set (node_blocks s0 root)) s0 N0" unfolding W(2) .
      moreover have "set (node_blocks s0 root) \<inter> ?W = {}" using W(4) by (simp add: r0(2) B(1) Int_commute)
      ultimately have "in_order kmalloc_live (fat_own (root # R)) ?W s0 (insert root N0)"
        using r0 root by (intro adopt_root) simp_all
      then have inv0: "switch_inv kmalloc_live (fat_own (root # R)) L F s0 (insert root N0)"
        using S(1) unfolding switch_inv_def by auto
      have len': "length p < 65536" "p \<notin> dom (mount_table s0)" using len p(3) S(2) tab2 by (auto simp: p_def)
      have fresh: "a \<notin> ?W" "b \<notin> insert a ?W" using s3(3,4) by (auto simp: S(3))
      note new = fat.new_mount [OF inv0 insertI1 p(1,2) len' io refl fresh s3(2), folded s3(1)]
      have "map mnt_root (g_mounts s3) = root # R" using S(5) k2(1) R by (simp add: s3(1) add_mount_def)
      then have "fat_inv L F s3" unfolding fat_inv_def using new(1) by auto
      moreover have "mount_table s3 = (mount_table s)(p \<mapsto> root)" using new(2) S(2) tab2 by simp
      ultimately show ?thesis using p(3) unfolding None p_def by auto
    qed
  qed
qed

lemma fat_keep:
  assumes inv: "switch_inv kmalloc_live (fat_own (map mnt_root (g_mounts s))) L F s N"
    and X: "fat_own (map mnt_root (g_mounts s)) s X N" "X \<inter> (L \<union> F \<union> set (mount_blocks s)) = {}"
    and k: "keeps (X \<union> (L \<union> F \<union> set (mount_blocks s))) s s'" "kmalloc_live (fs_heap s') (X \<union> (L \<union> F \<union> set (mount_blocks s)))"
  shows "fat_inv L F s'" and "mount_table s' = mount_table s"
proof -
  have "moves kmalloc_live (fat_own (map mnt_root (g_mounts s))) (L \<union> F \<union> set (mount_blocks s)) N s s' N"
    using k(2) X(2) keepsD [OF k(1)] fat_own_frame [OF X(1), of s'] by (intro movesI [of _ _ X]) auto
  note S = fat.moves_switch [OF inv this]
  show "fat_inv L F s'" "mount_table s' = mount_table s" using S(1,2,5) by (auto simp: fat_inv_def)
qed

lemma fat_mount:
  assumes "fat_inv L F s" and len: "length path < 65536"
  shows "yields (fat32_vfs_mount (kheap kend) rd vols vol path s) (\<lambda>(rc, s'). fat_inv L F s' \<and>
    (case rc of Some e \<Rightarrow> mount_table s' = mount_table s
     | None \<Rightarrow> trimmed path \<notin> dom (mount_table s) \<and> (\<exists>root. mount_table s' = (mount_table s)(trimmed path \<mapsto> root))))" (is "yields _ ?Q")
proof (cases "vol = 0")
  case True
  then show ?thesis using assms(1) by (simp add: fat32_vfs_mount_def)
next
  case False
  define R where "R = map mnt_root (g_mounts s)"
  let ?Y = "L \<union> F \<union> set (mount_blocks s)"
  obtain N where inv: "switch_inv kmalloc_live (fat_own R) L F s N" using assms(1) by (auto simp: fat_inv_def R_def)
  then obtain X where X: "fat_own R s X N" "X \<inter> ?Y = {}" "kmalloc_live (fs_heap s) (X \<union> ?Y)" by (auto simp: switch_inv_def in_order_def)
  note keep = fat_keep [OF inv [unfolded R_def] X(1) [unfolded R_def] X(2)]
  let ?i = "new_inode vol (root_cluster (vols vol)) 0 FAT_ATTR_DIRECTORY"
  have "yields (vfs_node_create (kheap kend) [] VFS_NODE_DIR (Some fat32_dir_ops) 0 s) (\<lambda>(root, s1).
      yields (if root = 0 then ret (Some NOMEM, s1)
        else run_bind (attach_inode (kheap kend) root ?i s1) (\<lambda>(ino, s2).
          if ino = 0 then ret (Some NOMEM, s2)
          else run_bind (vfs_mount (kheap kend) (fat32_node_ops (kheap kend) rd vols) root path s2) (\<lambda>(rc, s3).
            case rc of
              Some e \<Rightarrow> run_bind (kfree_fs (kheap kend) ino s3) (\<lambda>s4. run_bind (vfs_node_destroy (kheap kend) root s4) (\<lambda>s5. ret (Some e, s5)))
            | None \<Rightarrow> ret (None, s3)))) ?Q)"
  proof (rule yields_mono [OF kh.node_create_ok [OF X(3)]], clarify, goal_cases)
    case (1 root s1)
    show ?case
    proof (cases "root = 0")
      case True
      then show ?thesis using keep [OF 1(2)] 1(3) by simp
    next
      case rnz: False
      then obtain nm where nm: "root \<notin> X \<union> ?Y" "nm \<notin> insert root (X \<union> ?Y)" "nm \<noteq> 0" "kmalloc_live (fs_heap s1) (insert nm (insert root (X \<union> ?Y)))"
        "fs_nodes s1 root = fresh_node nm (word_of_nat (vfs_strlen [])) VFS_NODE_DIR (Some fat32_dir_ops) 0"
        using 1(3) by auto
      have "yields (attach_inode (kheap kend) root ?i s1) (\<lambda>(ino, s2).
        yields (if ino = 0 then ret (Some NOMEM, s2)
          else run_bind (vfs_mount (kheap kend) (fat32_node_ops (kheap kend) rd vols) root path s2) (\<lambda>(rc, s3).
            case rc of
              Some e \<Rightarrow> run_bind (kfree_fs (kheap kend) ino s3) (\<lambda>s4. run_bind (vfs_node_destroy (kheap kend) root s4) (\<lambda>s5. ret (Some e, s5)))
            | None \<Rightarrow> ret (None, s3))) ?Q)"
      proof (rule yields_mono [OF kh.attach_inode_ok [OF nm(4,1,2) rnz nm(3,5)]], simp, simp add: new_inode_def, clarify, goal_cases)
        case (1 ino s2)
        have k: "keeps (X \<union> ?Y) s s2" using \<open>keeps (X \<union> ?Y) s s1\<close> 1(2) by (auto simp: keeps_def same_at_def)
        show ?case
        proof (cases "ino = 0")
          case True
          then show ?thesis using keep [OF k] 1(3) by simp
        next
          case False
          then have n: "vn_data (fs_nodes s2 root) = ino" "node_ok s2 root" "distinct (node_blocks s2 root)" "set (node_blocks s2 root) \<inter> (X \<union> ?Y) = {}"
            "kmalloc_live (fs_heap s2) (set (node_blocks s2 root) \<union> (X \<union> ?Y))" "fs_nodes s2 root = (fs_nodes s1 root)\<lparr>vn_data := ino\<rparr>"
            "node_blocks s2 root = [root, nm, ino]" using 1(3) by auto
          have "ino_dir_cache (inode_at s2 ino) = 0" using n(1,7) by (auto simp: node_blocks_def Let_def split: if_splits)
          then have M: "yields (vfs_mount (kheap kend) (fat32_node_ops (kheap kend) rd vols) root path s2) (\<lambda>(rc, s3). yields (case rc of
              Some e \<Rightarrow> run_bind (kfree_fs (kheap kend) ino s3) (\<lambda>s4. run_bind (vfs_node_destroy (kheap kend) root s4) (\<lambda>s5. ret (Some e, s5)))
            | None \<Rightarrow> ret (None, s3)) (\<lambda>(rc, s'). fat_inv L F s' \<and>
              (case rc of Some e \<Rightarrow> mount_table s' = mount_table s
               | None \<Rightarrow> trimmed path \<notin> dom (mount_table s) \<and> (\<exists>r. mount_table s' = (mount_table s)(trimmed path \<mapsto> r)))))"
            using fat_mounted [OF inv R_def len k X(1,2) refl n(5,4,2,3), unfolded n(1)] n(6) nm(5) by simp
          show ?thesis using False M by (simp add: case_prod_unfold)
        qed
      qed
      then show ?thesis using rnz by (simp add: case_prod_unfold)
    qed
  qed
  then show ?thesis using False by (simp add: fat32_vfs_mount_def case_prod_unfold)
qed


lemma fat_inv_moves:
  assumes inv: "switch_inv kmalloc_live (fat_own (map mnt_root (g_mounts s))) L F s N"
    and "\<exists>N'. N \<subseteq> N' \<and> mount_table s' = mount_table s \<and> switch_inv kmalloc_live (fat_own (map mnt_root (g_mounts s))) L F' s' N'"
    and "g_mounts s' = g_mounts s"
  shows "fat_inv L F' s'"
  using assms by (auto simp: fat_inv_def)


section \<open>Properties\<close>

lemma fat_inv_init:
  assumes "g_mounts s = []" and "kmalloc_live (fs_heap s) L"
  shows "fat_inv L {} s"
proof -
  have "fat_own [] s {} {}" by (simp add: fat_own_def forest_def)
  then show ?thesis
    using assms by (auto simp: fat_inv_def switch_inv_def in_order_def mount_blocks_def mounts_ok_def intro!: exI [of _ "{}"])
qed


lemma demo_km_live: "kmalloc_live demo_km {}"
  using demo_km_inv demo_km_dead by (force simp: kmalloc_live_def)

text \<open>A state with nothing mounted, for the witnesses.\<close>

definition demo_fs :: "kmalloc_state fat32_fs" where
  "demo_fs = \<lparr>fs_nodes = (\<lambda>_. fresh_node 0 0 0 None 0), fs_files = (\<lambda>_. \<lparr>vf_node = 0, vf_pos = 0, vf_flags = 0, vf_private_data = 0\<rparr>),
     fs_strings = (\<lambda>_. []), g_mounts = [], fs_private = (\<lambda>_. \<lparr>obj_inode = new_inode 0 0 0 0, obj_entries = []\<rparr>), fs_heap = demo_km\<rparr>"

lemma demo_mount_unmount:
  "case fat32_vfs_mount (kheap 0) (\<lambda>_ _ _. None) (\<lambda>_. zero_vol) 1 [0x2F] demo_fs of
     Some (Inr (None, s1)) \<Rightarrow>
       (case fat32_vfs_unmount (kheap 0) [0x2F] s1 of Some (Inr (None, s2)) \<Rightarrow> g_mounts s2 = [] | _ \<Rightarrow> False)
   | _ \<Rightarrow> False"
  by code_simp

lemma ret_None_case: "(case m of Some (Inr (None, s)) \<Rightarrow> P s | _ \<Rightarrow> False) \<Longrightarrow> \<exists>s. m = ret (None, s) \<and> P s"
  by (cases m; cases "the m"; cases "projr (the m)") (auto split: option.splits)


text \<open>
  The open file \<open>f\<close> stands for a file of a mounted volume whose clusters hold \<open>data\<close>.
\<close>

definition file_holds :: "part_read \<Rightarrow> (u64 \<Rightarrow> fat32_vol) \<Rightarrow> 'h fat32_fs \<Rightarrow> u64 \<Rightarrow> bytes \<Rightarrow> bool" where
  "file_holds rd vols s f data \<longleftrightarrow>
     (let node = vf_node (fs_files s f); ino = vn_data (fs_nodes s node); inode = inode_at s ino; vol = vols (ino_vol inode)
      in f \<noteq> 0 \<and> node \<noteq> 0 \<and> ino \<noteq> 0 \<and> ino_vol inode \<noteq> 0 \<and> vn_ops (fs_nodes s node) = Some fat32_file_ops \<and>
         (\<exists>cs. fat_chain rd vol (ino_first_cluster inode) cs \<and> clusters_ok rd vol cs \<and>
            unat (ino_size inode) \<le> length (chain_data rd vol cs) \<and> data = take (unat (ino_size inode)) (chain_data rd vol cs)))"

fun vfs_reads :: "('o \<Rightarrow> ('o, 'x, 'h) vfs_node_ops) \<Rightarrow> u64 \<Rightarrow> u64 list \<Rightarrow> ('o, 'x, 'h) vfs \<Rightarrow> ((fs_error + bytes) \<times> ('o, 'x, 'h) vfs) run" where
  "vfs_reads ops f [] s = ret (Inr [], s)"
| "vfs_reads ops f (len # lens) s =
     run_bind (vfs_read ops f len s) (\<lambda>(r, s1).
       case r of
         Inl e \<Rightarrow> ret (Inl e, s1)
       | Inr bs \<Rightarrow> run_bind (vfs_reads ops f lens s1) (\<lambda>(r', s2). ret (case r' of Inl e \<Rightarrow> Inl e | Inr bs' \<Rightarrow> Inr (bs @ bs'), s2)))"

lemma fat_file_read:
  assumes op: "file_holds rd vols s f data" and L: "kmalloc_live (fs_heap s) L"
  shows "\<exists>out. fat32_vfs_read (kheap kend) rd vols f len s = Some out \<and> (\<forall>r s'. out = Inr (r, s') \<longrightarrow>
    (\<exists>h. s' = s\<lparr>fs_heap := h\<rparr> \<and> kmalloc_live h L) \<and> (r = Inl NOMEM \<or> r = Inr (slice (unat (vf_pos (fs_files s f))) (unat len) data)))"
proof -
  define inode where "inode = inode_at s (vn_data (fs_nodes s (vf_node (fs_files s f))))"
  define vol where "vol = vols (ino_vol inode)"
  let ?pos = "vf_pos (fs_files s f)" and ?first = "ino_first_cluster inode" and ?size = "ino_size inode"
  let ?read = "\<lambda>mem. fat32_read_file_at mem rd vol ?first ?size ?pos len" and ?bs = "slice (unat ?pos) (unat len) data"
  obtain cs where cs: "fat_chain rd vol ?first cs" "clusters_ok rd vol cs" "unat ?size \<le> length (chain_data rd vol cs)"
    "data = take (unat ?size) (chain_data rd vol cs)" and nz: "f \<noteq> 0" "vf_node (fs_files s f) \<noteq> 0"
      "vn_data (fs_nodes s (vf_node (fs_files s f))) \<noteq> 0" "ino_vol inode \<noteq> 0"
    using op by (auto simp: file_holds_def Let_def inode_def vol_def)
  have some: "?read mem = Some (Inr (Inr ?bs))" if "mem (bytes_per_cluster vol)" for mem
    using read_file_at_spec [OF cs(1-3), of mem] that cs(4) by simp
  let ?early = "ucast ?size \<le> ?pos \<or> len = 0 \<or> ?size = 0 \<or> ?first < 2"
  have run: "fat32_vfs_read (kheap kend) rd vols f len s = with_cluster_buffer (kheap kend) ?early (bytes_per_cluster vol) ?read s"
    using nz by (simp add: fat32_vfs_read_def call_read_file_at_def Let_def inode_def vol_def)
  show ?thesis
  proof (cases ?early)
    case True
    have "\<not> ?first < 2 \<or> ucast ?size \<le> ?pos \<or> len = 0 \<or> ?size = 0"
      using cs(1,3) by (cases cs) (auto simp: not_less unat_eq_zero)
    then have "?read (\<lambda>_. False) = ?read (\<lambda>_. True)" using True by (auto simp: fat32_read_file_at_def)
    then have "with_cluster_buffer (kheap kend) ?early (bytes_per_cluster vol) ?read s = ret (Inr ?bs, s)"
      using True some [of "\<lambda>_. True"] by (simp add: with_cluster_buffer_def)
    then show ?thesis using run L by (auto intro!: exI [of _ "fs_heap s"])
  next
    case False
    have none: "?read (\<lambda>_. False) = Some (Inr (Inl NOMEM))" using False by (simp add: fat32_read_file_at_def Let_def)
    have sz: "unat (ucast (bytes_per_cluster vol) :: u64) \<le> 2 ^ 64 - 16" using unsigned_less [of "bytes_per_cluster vol", where 'a = nat] by simp
    let ?alloc = "hp_alloc (kheap kend) (ucast (bytes_per_cluster vol)) (fs_heap s)"
    have post: "yields ?alloc (\<lambda>(p, h). if p = 0 then kmalloc_live h L else p \<notin> L \<and> kmalloc_live h (insert p L))"
      by (rule kh.alloc_block [OF L sz])
    consider (halt) e where "?alloc = Some (Inl e)" | (got) p h where "?alloc = ret (p, h)"
      using kh.alloc_returns [OF L sz, of kend] by (cases ?alloc; cases "the ?alloc") auto
    then show ?thesis
    proof cases
      case halt
      then show ?thesis using run False by (simp add: with_cluster_buffer_def kmalloc_fs_def)
    next
      case got
      have w: "with_cluster_buffer (kheap kend) ?early (bytes_per_cluster vol) ?read s =
          run_bind (?read (\<lambda>_. p \<noteq> 0)) (\<lambda>r. run_bind (kfree_fs (kheap kend) p (s\<lparr>fs_heap := h\<rparr>)) (\<lambda>s2. ret (r, s2)))"
        using False got by (simp add: with_cluster_buffer_def kmalloc_fs_def)
      show ?thesis
      proof (cases "p = 0")
        case True
        then show ?thesis using run w none yieldsD [OF post got] by (auto simp: kh.kfree_fs_null)
      next
        case pnz: False
        then have p: "kmalloc_live (fs_heap (s\<lparr>fs_heap := h\<rparr>)) (insert p L)" "insert p L - {p} = L" using yieldsD [OF post got] by auto
        from kh.kfree_fs_ok [OF p(1) insertI1, unfolded p(2)] obtain h' where
          "kfree_fs (kheap kend) p (s\<lparr>fs_heap := h\<rparr>) = ret (s\<lparr>fs_heap := h'\<rparr>)" "kmalloc_live h' L" by auto
        then show ?thesis using run w some [of "\<lambda>_. p \<noteq> 0"] pnz by auto
      qed
    qed
  qed
qed

lemma file_holds_advance:
  assumes "file_holds rd vols s f data"
  shows "file_holds rd vols (s\<lparr>fs_heap := h\<rparr>) f data" and "file_holds rd vols (advance f n s) f data"
  using assms by (simp_all add: file_holds_def Let_def inode_at_def advance_def)

lemma file_holds_length: "file_holds rd vols s f data \<Longrightarrow> length data < 2 ^ 32"
  using unsigned_less [of "ino_size (inode_at s (vn_data (fs_nodes s (vf_node (fs_files s f)))))", where 'a = nat]
  by (auto simp: file_holds_def Let_def)

text \<open>One \<^verbatim>\<open>vfs_read\<close> of an open FAT32 file.\<close>

lemma vfs_file_read:
  fixes len :: u64
  assumes op: "file_holds rd vols s f data" and L: "kmalloc_live (fs_heap s) L"
  defines "bs \<equiv> slice (unat (vf_pos (fs_files s f))) (unat len) data"
  shows "\<exists>out. vfs_read (fat32_node_ops (kheap kend) rd vols) f len s = Some out \<and> (\<forall>r s'. out = Inr (r, s') \<longrightarrow>
    kmalloc_live (fs_heap s') L \<and> file_holds rd vols s' f data \<and>
    (r = Inl NOMEM \<or> r = Inr bs \<and> unat (vf_pos (fs_files s' f)) = unat (vf_pos (fs_files s f)) + length bs))"
proof -
  have nz: "f \<noteq> 0" "vf_node (fs_files s f) \<noteq> 0" and ops: "vn_ops (fs_nodes s (vf_node (fs_files s f))) = Some fat32_file_ops"
    using op by (auto simp: file_holds_def Let_def)
  have opr: "Option.bind (ops_of (fat32_node_ops (kheap kend) rd vols) s (vf_node (fs_files s f))) op_read = Some (fat32_vfs_read (kheap kend) rd vols)"
    using ops by (simp add: fat_ops)
  obtain out where out: "fat32_vfs_read (kheap kend) rd vols f len s = Some out" "\<forall>r s'. out = Inr (r, s') \<longrightarrow>
    (\<exists>h. s' = s\<lparr>fs_heap := h\<rparr> \<and> kmalloc_live h L) \<and> (r = Inl NOMEM \<or> r = Inr bs)"
    using fat_file_read [OF op L, of kend len] unfolding bs_def by blast
  show ?thesis
  proof (cases out)
    case (Inl e)
    then show ?thesis using nz opr out(1) by (simp add: vfs_read_def)
  next
    case (Inr x)
    obtain r s1 where x: "x = (r, s1)" by (cases x)
    obtain h where h: "s1 = s\<lparr>fs_heap := h\<rparr>" "kmalloc_live h L" and r: "r = Inl NOMEM \<or> r = Inr bs" using out(2) Inr x by auto
    have adv: "unat (vf_pos (fs_files s f) + word_of_nat (length bs)) = unat (vf_pos (fs_files s f)) + length bs" if "bs \<noteq> []"
    proof -
      have "unat (vf_pos (fs_files s f)) + length bs \<le> length data" using that by (auto simp: bs_def slice_def)
      then have "unat (vf_pos (fs_files s f)) + length bs < 2 ^ 64" "length bs < 2 ^ 64" using file_holds_length [OF op] by auto
      then show ?thesis by (subst unat_plus_if') (simp add: unat_of_nat)
    qed
    show ?thesis
      using nz opr out(1) Inr x h r adv file_holds_advance [OF op] file_holds_advance(2) [OF file_holds_advance(1) [OF op]]
      by (auto simp: vfs_read_def advance_def)
  qed
qed

lemma slice_append: "slice a m xs @ slice (a + length (slice a m xs)) n xs = slice a (m + n) xs"
proof (cases "a + m \<le> length xs")
  case True
  then show ?thesis by (simp add: slice_def take_add drop_drop add.commute)
next
  case False
  then show ?thesis by (simp add: slice_def)
qed

text \<open>
  C6. Reading an open FAT32 file through the switch returns the file: a sequence of \<^verbatim>\<open>vfs_read\<close> calls
  comes back, and unless one of them fails for want of memory or the heap panics, the bytes they return, one call
  after the other, are the bytes of the file's cluster chain from the file position on, as many as were asked for in
  total or up to the end of the file. The heap's live blocks are those of before.
\<close>

theorem vfs_reads_contents:
  assumes "file_holds rd vols s f data" and "kmalloc_live (fs_heap s) L"
  shows "\<exists>out. vfs_reads (fat32_node_ops (kheap kend) rd vols) f lens s = Some out \<and> (\<forall>r s'. out = Inr (r, s') \<longrightarrow>
    kmalloc_live (fs_heap s') L \<and>
    (r = Inl NOMEM \<or> r = Inr (slice (unat (vf_pos (fs_files s f))) (sum_list (map unat lens)) data)))"
  using assms
proof (induction lens arbitrary: s)
  case Nil
  then show ?case by (simp add: slice_def)
next
  case (Cons len lens)
  let ?pos = "unat (vf_pos (fs_files s f))"
  obtain out where out: "vfs_read (fat32_node_ops (kheap kend) rd vols) f len s = Some out" "\<forall>r s'. out = Inr (r, s') \<longrightarrow>
    kmalloc_live (fs_heap s') L \<and> file_holds rd vols s' f data \<and>
    (r = Inl NOMEM \<or> r = Inr (slice ?pos (unat len) data) \<and> unat (vf_pos (fs_files s' f)) = ?pos + length (slice ?pos (unat len) data))"
    using vfs_file_read [OF Cons.prems, of kend len] by auto
  show ?case
  proof (cases out)
    case (Inl e)
    then show ?thesis using out(1) by simp
  next
    case (Inr x)
    obtain r s1 where x: "x = (r, s1)" by (cases x)
    have s1: "kmalloc_live (fs_heap s1) L" "file_holds rd vols s1 f data" using out(2) Inr x by auto
    show ?thesis
    proof (cases "r = Inl NOMEM")
      case True
      then show ?thesis using out(1) Inr x s1 by simp
    next
      case False
      then have r: "r = Inr (slice ?pos (unat len) data)" "unat (vf_pos (fs_files s1 f)) = ?pos + length (slice ?pos (unat len) data)"
        using out(2) Inr x by auto
      obtain out' where out': "vfs_reads (fat32_node_ops (kheap kend) rd vols) f lens s1 = Some out'" "\<forall>r s'. out' = Inr (r, s') \<longrightarrow>
          kmalloc_live (fs_heap s') L \<and> (r = Inl NOMEM \<or> r = Inr (slice (unat (vf_pos (fs_files s1 f))) (sum_list (map unat lens)) data))"
        using Cons.IH [OF s1(2,1)] by blast
      show ?thesis using out(1) Inr x r out' slice_append [of ?pos "unat len" data]
        by (cases out') (auto split: sum.splits)
    qed
  qed
qed

section \<open>Looking a name up again\<close>

lemma ci_tolower_same: "fat32_ci_tolower c = fat32_tolower c"
  by (simp add: fat32_ci_tolower_def fat32_tolower_def)

lemma name_equal_ci_same: "name_equal_ci a b = fat32_name_equal_ci a b"
  by (induction a b rule: name_equal_ci.induct) (simp_all add: ci_tolower_same)

lemma name_equal_ci_prefix: "name_equal_ci (takeWhile (\<lambda>c. c \<noteq> 0) a) b = name_equal_ci a b"
proof (induction a b rule: name_equal_ci.induct)
  case (2 b bs)
  then show ?case by simp
qed (auto simp: name_equal_ci.simps(2))

lemma yields_conj: "yields m P \<Longrightarrow> yields m Q \<Longrightarrow> yields m (\<lambda>x. P x \<and> Q x)"
  by (simp add: yields_def)

text \<open>What a callback keeps of its context, the iteration keeps.\<close>

lemma iter_entries_ctx:
  assumes "iter_entries cb buf is lfn ctx = Inr (lfn', ctx', rc, fin)" and "P ctx" and cb: "\<And>d c. P c \<Longrightarrow> P (snd (cb d c))"
  shows "P ctx'"
  using assms(1,2)
proof (induction "is" arbitrary: lfn ctx)
  case (Cons i "is")
  let ?e = "slice (32 * i) 32 buf"
  show ?case
  proof (cases "make_dirent lfn (parse_raw ?e)")
    case (Inl h)
    then show ?thesis using Cons by (simp add: Let_def split: if_splits)
  next
    case (Inr d)
    have "P (snd (cb d ctx))" by (rule cb [OF Cons.prems(2)])
    then show ?thesis using Cons.prems Cons.IH Inr by (simp add: Let_def case_prod_unfold split: if_splits)
  qed
qed simp

lemma iter_dir_loop_ctx:
  assumes "iter_dir_loop cb rd vol c lfn ctx = Some (Inr (rc, ctx'))" and "P ctx" and cb: "\<And>d c. P c \<Longrightarrow> P (snd (cb d c))"
  shows "P ctx'"
proof -
  have kept: "P x" if "iter_entries cb buf is lfn y = Inr (lfn', x, rc, fin)" "P y" for buf "is" lfn y lfn' x rc fin
    using that cb by (rule iter_entries_ctx)
  have "cb = cb \<longrightarrow> P ctx \<longrightarrow> (\<forall>r x. Inr (rc, ctx') = (Inr (r, x) :: (int \<times> 'a) outcome) \<longrightarrow> P x)"
    using assms(1)
  proof (rule iter_dir_loop.raw_induct [rotated, where P = "\<lambda>cb' rd vol c lfn ctx out. cb' = cb \<longrightarrow> P ctx \<longrightarrow> (\<forall>r x. out = Inr (r, x) \<longrightarrow> P x)"])
    fix f cb' rd vol c lfn ctx out
    assume IH: "\<And>cb' rd vol c lfn ctx out. f cb' rd vol c lfn ctx = Some out \<Longrightarrow> cb' = cb \<longrightarrow> P ctx \<longrightarrow> (\<forall>r x. out = Inr (r, x) \<longrightarrow> P x)"
      and step: "(if \<not> (2 \<le> c \<and> c < FAT32_BAD) then Some (Inr (0, ctx))
        else case fat32_read_cluster rd vol c of
          None \<Rightarrow> Some (Inr (errno IO, ctx))
        | Some buf \<Rightarrow> (case iter_entries cb' buf (entries_per_cluster vol) lfn ctx of
            Inl h \<Rightarrow> Some (Inl h)
          | Inr (lfn', ctx', rc, done') \<Rightarrow>
              if done' then Some (Inr (rc, ctx'))
              else if fat32_read_fat_entry rd vol c = FAT32_BAD then Some (Inr (errno IO, ctx'))
              else if FAT32_EOC \<le> fat32_read_fat_entry rd vol c then Some (Inr (rc, ctx'))
              else f cb' rd vol (fat32_read_fat_entry rd vol c) lfn' ctx')) = Some out"
    show "cb' = cb \<longrightarrow> P ctx \<longrightarrow> (\<forall>r x. out = Inr (r, x) \<longrightarrow> P x)"
      using step by (auto split: if_splits option.splits sum.splits) (metis kept IH)+
  qed
  then show ?thesis using assms(2) by blast
qed

lemma lookup_matches:
  assumes "fat32_lookup mem rd vol c name = Some (Inr (Inr ent))"
  shows "name_equal_ci (de_name ent) name"
proof -
  let ?P = "\<lambda>found. \<forall>ent. found = Some ent \<longrightarrow> fat32_name_equal_ci (de_name ent) name"
  obtain rc found where it: "fat32_iter_dir mem rd vol c (fat32_lookup_cb name) None = Some (Inr (rc, found))" "found = Some ent"
    using assms by (cases "fat32_iter_dir mem rd vol c (fat32_lookup_cb name) None"; cases "the (fat32_iter_dir mem rd vol c (fat32_lookup_cb name) None)")
      (auto simp: fat32_lookup_def andthen_def split: if_splits option.splits)
  then have "iter_dir_loop (fat32_lookup_cb name) rd vol c no_lfn None = Some (Inr (rc, found))"
    by (auto simp: fat32_iter_dir_def split: if_splits)
  then have "?P found" by (rule iter_dir_loop_ctx) (auto simp: fat32_lookup_cb_def)
  then show ?thesis using it(2) by (simp add: name_equal_ci_same)
qed

context heap_source
begin

lemma find_entry_matches:
  assumes "ok (fs_heap s) L"
  shows "yields (find_entry hp rd vols ino name s) (\<lambda>(r, s'). \<forall>ent. r = Some ent \<longrightarrow> name_equal_ci (de_name ent) name)"
proof (cases "ino_dir_cache_loaded (inode_at s ino) \<and> ino_dir_cache (inode_at s ino) \<noteq> 0")
  case True
  then show ?thesis by (auto simp: find_entry_def Let_def find_Some_iff)
next
  case False
  have "yields (call_lookup hp rd vols v c name s) (\<lambda>(r, s'). \<forall>ent. r = Inr ent \<longrightarrow> name_equal_ci (de_name ent) name)" for v c
    by (auto simp: call_lookup_def with_cluster_buffer_def yields_def run_bind_ret_iff lookup_matches split: if_splits)
  then show ?thesis using False
    by (simp add: find_entry_def Let_def) (auto simp: yields_def case_prod_unfold split: sum.splits)
qed

lemma make_node_name:
  assumes "ok (fs_heap s) L"
  shows "yields (fat32_vfs_make_node hp vol ent s) (\<lambda>(n, s'). n \<noteq> 0 \<longrightarrow>
    fs_strings s' (vn_name (fs_nodes s' n)) = take (vfs_strlen (de_name ent)) (de_name ent))"
proof (cases "vol = 0")
  case False
  have attach: "yields (attach_inode hp node i s1) (\<lambda>(ino, s2). ino \<noteq> 0 \<longrightarrow>
      fs_strings s2 (vn_name (fs_nodes s2 node)) = fs_strings s1 (vn_name (fs_nodes s1 node)))" for node i s1
    by (auto simp: attach_inode_def yields_def run_bind_ret_iff kmalloc_fs_def upd_node_def upd_inode_def split: if_splits)
  let ?type = "entry_type ent" and ?i = "new_inode vol (de_first_cluster ent) (de_file_size ent) (de_attributes ent)"
  define tag where "tag = (if ?type AND VFS_NODE_DIR \<noteq> 0 then fat32_dir_ops else fat32_file_ops)"
  have "fs_strings s' (vn_name (fs_nodes s' n)) = take (vfs_strlen (de_name ent)) (de_name ent)"
    if "fat32_vfs_make_node hp vol ent s = ret (n, s')" "n \<noteq> 0" for n s'
  proof -
    have "run_bind (vfs_node_create hp (de_name ent) ?type (Some tag) 0 s) (\<lambda>(node, s1). if node = 0 then ret (0, s1)
        else run_bind (attach_inode hp node ?i s1) (\<lambda>(ino, s2). if ino = 0 then ret (0, s2)
          else ret (node, upd_node node (\<lambda>n. n\<lparr>vn_size := ucast (de_file_size ent)\<rparr>) s2))) = ret (n, s')"
      using that(1) False by (simp add: fat32_vfs_make_node_def Let_def tag_def)
    then obtain node s1 where c: "vfs_node_create hp (de_name ent) ?type (Some tag) 0 s = ret (node, s1)"
      and r: "(if node = 0 then ret (0, s1)
        else run_bind (attach_inode hp node ?i s1) (\<lambda>(ino, s2). if ino = 0 then ret (0, s2)
          else ret (node, upd_node node (\<lambda>n. n\<lparr>vn_size := ucast (de_file_size ent)\<rparr>) s2))) = ret (n, s')"
      by (auto simp: run_bind_ret_iff)
    from r that(2) obtain ino s2 where a: "attach_inode hp node ?i s1 = ret (ino, s2)" "ino \<noteq> 0" "node = n" "n \<noteq> 0"
      "s' = upd_node n (\<lambda>n. n\<lparr>vn_size := ucast (de_file_size ent)\<rparr>) s2"
      by (auto simp: run_bind_ret_iff split: if_splits)
    show ?thesis using yieldsD [OF node_create_ok [OF assms] c] yieldsD [OF attach a(1)] a(2-5) by (auto simp: upd_node_def)
  qed
  then show ?thesis by (auto simp: yields_def)
qed (simp add: fat32_vfs_make_node_def)

lemma lookup_again:
  assumes ok: "ok (fs_heap s) L" and dir: "dir \<in> L" "dir \<noteq> 0" "vn_type (fs_nodes s dir) AND VFS_NODE_DIR \<noteq> 0"
  shows "yields (fat32_vfs_lookup hp rd vols dir name s) (\<lambda>(n, s'). n \<noteq> 0 \<longrightarrow> fat32_vfs_lookup hp rd vols dir name s' = ret (n, s'))"
    (is "yields _ ?Q")
proof -
  let ?ino = "vn_data (fs_nodes s dir)"
  have cached: "?Q (c, s')" if "fat32_find_child_ci dir name s' = ret c" for c s'
    using that dir(2) by (simp add: fat32_vfs_lookup_def)
  have made: "yields (fat32_vfs_make_node hp vol ent (s\<lparr>fs_heap := h\<rparr>)) (\<lambda>(node, s2).
      yields (if node = 0 then ret (0, s2)
        else case vfs_add_child dir node s2 of
          (Some e, s3) \<Rightarrow> run_bind (vfs_node_destroy hp node s3) (\<lambda>s4. ret (0, s4))
        | (None, s3) \<Rightarrow> ret (node, s3)) ?Q)" if h: "ok h L" and ent: "name_equal_ci (de_name ent) name" for vol ent h
  proof (rule yields_mono [OF yields_conj [OF make_node_ok [of "s\<lparr>fs_heap := h\<rparr>" L] make_node_name [of "s\<lparr>fs_heap := h\<rparr>" L]]],
      simp add: h, simp add: h, clarify, goal_cases)
    case (1 n s2)
    show ?case
    proof (cases "n = 0")
      case False
      then have n: "n \<notin> L" "vn_name (fs_nodes s2 n) \<noteq> 0" "name_equal_ci (fs_strings s2 (vn_name (fs_nodes s2 n))) name"
        using 1 ent by (auto simp: node_ok_def Let_def vfs_strlen_def takeWhile_eq_take [symmetric] name_equal_ci_prefix)
      have d: "fs_nodes s2 dir = fs_nodes s dir" "n \<noteq> dir" using 1 dir(1) n(1) by (auto simp: keeps_def same_at_def)
      obtain s3 where s3: "vfs_add_child dir n s2 = (None, s3)" "vn_first_child (fs_nodes s3 dir) = n"
        "vn_name (fs_nodes s3 n) = vn_name (fs_nodes s2 n)" "fs_strings s3 = fs_strings s2"
        using d dir(2,3) False by (auto simp: vfs_add_child_def Let_def upd_node_def)
      have "fat32_find_child_ci dir name s3 = ret n"
        unfolding fat32_find_child_ci_def s3(2) using False n s3(3,4) dir(2) by (subst find_sibling.simps) simp
      then show ?thesis using cached s3(1) False by simp
    qed simp
  qed
  have "yields (find_entry hp rd vols ?ino name s) (\<lambda>(found, s1).
      yields (case found of None \<Rightarrow> ret (0, s1)
        | Some ent \<Rightarrow> run_bind (fat32_vfs_make_node hp (ino_vol (inode_at s1 ?ino)) ent s1) (\<lambda>(node, s2).
            if node = 0 then ret (0, s2)
            else case vfs_add_child dir node s2 of
              (Some e, s3) \<Rightarrow> run_bind (vfs_node_destroy hp node s3) (\<lambda>s4. ret (0, s4))
            | (None, s3) \<Rightarrow> ret (node, s3))) ?Q)"
  proof (rule yields_mono [OF yields_conj [OF find_entry_ok [OF ok] find_entry_matches [OF ok]]], clarify, goal_cases)
    case (1 found s1 h)
    then show ?case using made [of h]
      by (cases found) (auto simp: case_prod_unfold)
  qed
  note found = this
  consider (none) "fat32_find_child_ci dir name s = None" | (some) c where "fat32_find_child_ci dir name s = ret c"
    by (cases "fat32_find_child_ci dir name s") (auto simp: fat32_find_child_ci_def split: if_splits)
  then show ?thesis
  proof cases
    case none
    then show ?thesis using dir(2) by (simp add: fat32_vfs_lookup_def)
  next
    case (some c)
    then show ?thesis unfolding fat32_vfs_lookup_def [of hp rd vols dir name s]
      using dir(2) cached [OF some] found by (cases "c = 0"; cases "?ino = 0") (simp_all add: Let_def case_prod_unfold)
  qed
qed

end

text \<open>
  C22. A name found once is found again: when looking up a name in a FAT32 directory returns a node, looking it up
  once more returns the same node and changes nothing, since the node has been entered among the directory's children
  under a name that matches without regard to case.
\<close>

theorem fat32_vfs_lookup_again:
  assumes "kmalloc_live (fs_heap s) L" and "dir \<in> L" and "dir \<noteq> 0" and "vn_type (fs_nodes s dir) AND VFS_NODE_DIR \<noteq> 0"
    and "fat32_vfs_lookup (kheap kend) rd vols dir name s = ret (n, s')" and "n \<noteq> 0"
  shows "fat32_vfs_lookup (kheap kend) rd vols dir name s' = ret (n, s')"
  using yieldsD [OF kh.lookup_again [OF assms(1-4)] assms(5)] assms(6) by simp

text \<open>A directory whose entries have been read, with one file in it, for the witnesses.\<close>

definition demo_dir_fs :: "kmalloc_state \<Rightarrow> kmalloc_state fat32_fs" where
  "demo_dir_fs h = demo_fs\<lparr>fs_heap := h, fs_nodes := (\<lambda>_. fresh_node 0 0 VFS_NODE_DIR (Some fat32_dir_ops) 1),
     fs_private := (\<lambda>_. \<lparr>obj_inode = \<lparr>ino_vol = 1, ino_first_cluster = 2, ino_size = 0, ino_attributes = FAT_ATTR_DIRECTORY,
       ino_dir_cache = 1, ino_dir_cache_count = 1, ino_dir_cache_cap = 64, ino_dir_cache_loaded = True\<rparr>, obj_entries = [demo_entry]\<rparr>)\<rparr>"

abbreviation demo_name :: bytes where "demo_name \<equiv> [0x48, 0x65, 0x6C, 0x6C, 0x4F, 0x2E, 0x74, 0x78, 0x74]"

lemma demo_lookup_runs:
  "case hp_alloc (kheap 0) 72 demo_km of
     Some (Inr (p, h)) \<Rightarrow> p \<noteq> 0 \<and>
       (case fat32_vfs_lookup (kheap 0) (\<lambda>_ _ _. None) (\<lambda>_. zero_vol) p demo_name (demo_dir_fs h) of
          Some (Inr (n, s)) \<Rightarrow> n \<noteq> 0 | _ \<Rightarrow> False)
   | _ \<Rightarrow> False"
  by code_simp

lemma ret_case: "(case m of Some (Inr x) \<Rightarrow> P x | _ \<Rightarrow> False) \<Longrightarrow> \<exists>x. m = ret x \<and> P x"
  by (auto split: option.splits sum.splits)

theorem fat32_vfs_lookup_again_witness:
  "\<exists>p h n s. hp_alloc (kheap 0) 72 demo_km = ret (p, h) \<and> n \<noteq> 0 \<and>
     fat32_vfs_lookup (kheap 0) (\<lambda>_ _ _. None) (\<lambda>_. zero_vol) p demo_name (demo_dir_fs h) = ret (n, s) \<and>
     fat32_vfs_lookup (kheap 0) (\<lambda>_ _ _. None) (\<lambda>_. zero_vol) p demo_name s = ret (n, s)"
proof -
  obtain p h where 1: "hp_alloc (kheap 0) 72 demo_km = ret (p, h)" "p \<noteq> 0"
    "case fat32_vfs_lookup (kheap 0) (\<lambda>_ _ _. None) (\<lambda>_. zero_vol) p demo_name (demo_dir_fs h) of Some (Inr (n, s)) \<Rightarrow> n \<noteq> 0 | _ \<Rightarrow> False"
    using ret_case [OF demo_lookup_runs] by (auto simp: case_prod_unfold)
  obtain n s where 2: "fat32_vfs_lookup (kheap 0) (\<lambda>_ _ _. None) (\<lambda>_. zero_vol) p demo_name (demo_dir_fs h) = ret (n, s)" "n \<noteq> 0"
    using ret_case [OF 1(3)] by (auto simp: case_prod_unfold)
  have "kmalloc_live h {p}" using yieldsD [OF kh.alloc_block [OF demo_km_live, of 72 0] 1(1)] 1(2) by simp
  then have "kmalloc_live (fs_heap (demo_dir_fs h)) {p}" by (simp add: demo_dir_fs_def)
  from fat32_vfs_lookup_again [OF this _ 1(2) _ 2] show ?thesis using 1(1) 2 by (auto simp: demo_dir_fs_def)
qed

text \<open>An open file of two clusters, at the boundary between them, for the witness.\<close>

definition demo_file_fs :: "kmalloc_state fat32_fs" where
  "demo_file_fs = demo_fs\<lparr>fs_files := (\<lambda>_. \<lparr>vf_node = 1, vf_pos = 510, vf_flags = 0, vf_private_data = 0\<rparr>),
     fs_nodes := (\<lambda>_. fresh_node 0 0 VFS_NODE_FILE (Some fat32_file_ops) 1),
     fs_private := (\<lambda>_. \<lparr>obj_inode = new_inode 1 3 1000 0, obj_entries = []\<rparr>)\<rparr>"

theorem vfs_reads_contents_witness:
  "\<exists>out. vfs_reads (fat32_node_ops (kheap 0) demo_rd (\<lambda>_. demo_vol)) 1 [1, 3] demo_file_fs = Some out \<and>
     (\<forall>r s'. out = Inr (r, s') \<longrightarrow> kmalloc_live (fs_heap s') {} \<and> (r = Inl NOMEM \<or> r = Inr [0x41, 0x41, 0x42, 0x42]))"
proof -
  let ?data = "take 1000 (replicate 512 (0x41 :: u8) @ replicate 512 0x42)"
  have "file_holds demo_rd (\<lambda>_. demo_vol) demo_file_fs 1 ?data"
    using demo_chain by (auto simp: file_holds_def demo_file_fs_def inode_at_def new_inode_def intro!: exI [of _ "[3, 4]"])
  moreover have "kmalloc_live (fs_heap demo_file_fs) {}" using demo_km_live by (simp add: demo_file_fs_def demo_fs_def)
  moreover have "slice 510 4 ?data = [0x41, 0x41, 0x42, 0x42]" by (simp add: slice_def numeral_eq_Suc)
  ultimately show ?thesis using vfs_reads_contents [of demo_rd "\<lambda>_. demo_vol" demo_file_fs 1 ?data "{}" 0 "[1, 3]"]
    by (simp add: demo_file_fs_def)
qed

text \<open>
  C8. The mount table behaves as a finite map from paths, without their trailing slashes, to roots. Mounting a
  FAT32 volume either fails and leaves the map alone or enters a path that was not there; unmounting a file system none
  of whose nodes is open always returns, succeeds exactly when the path is mounted, and takes it out. Both keep
  the invariant of nodes, files, mounts and heap blocks.
\<close>

theorem fat_mount_table:
  assumes "fat_inv L F s" and "length path < 65536"
    and "\<And>root f. mount_table s (trimmed path) = Some root \<Longrightarrow> f \<in> F \<Longrightarrow> \<not> below s root (vf_node (fs_files s f))"
  shows "yields (fat32_vfs_mount (kheap kend) rd vols vol path s) (\<lambda>(rc, s'). fat_inv L F s' \<and>
      (case rc of Some e \<Rightarrow> mount_table s' = mount_table s
       | None \<Rightarrow> trimmed path \<notin> dom (mount_table s) \<and> (\<exists>root. mount_table s' = (mount_table s)(trimmed path \<mapsto> root)))) \<and>
    (\<exists>rc s'. fat32_vfs_unmount (kheap kend) path s = ret (rc, s') \<and> fat_inv L F s' \<and>
      (rc = None \<longleftrightarrow> trimmed path \<in> dom (mount_table s)) \<and>
      mount_table s' = (if rc = None then (mount_table s)(trimmed path := None) else mount_table s))"
  using fat_mount [OF assms(1,2)] fat_unmount [OF assms(1,3)] by blast

theorem fat_mount_table_witness:
  "\<exists>s1 root s2. fat32_vfs_mount (kheap 0) (\<lambda>_ _ _. None) (\<lambda>_. zero_vol) 1 [slash] demo_fs = ret (None, s1) \<and>
     mount_table s1 = [[slash] \<mapsto> root] \<and> fat_inv {} {} s1 \<and>
     fat32_vfs_unmount (kheap 0) [slash] s1 = ret (None, s2) \<and> mount_table s2 = Map.empty \<and> fat_inv {} {} s2"
proof -
  have trim: "trimmed [slash] = [slash]" by code_simp
  have tab: "mount_table demo_fs = Map.empty" by (simp add: demo_fs_def mount_table_def)
  have inv: "fat_inv {} {} demo_fs" by (rule fat_inv_init) (use demo_km_live in \<open>simp_all add: demo_fs_def\<close>)
  from ret_None_case [OF demo_mount_unmount] obtain s1 where 1: "fat32_vfs_mount (kheap 0) (\<lambda>_ _ _. None) (\<lambda>_. zero_vol) 1 [slash] demo_fs = ret (None, s1)"
    by blast
  from fat_mount_table [OF inv, of "[slash]"] have "yields (fat32_vfs_mount (kheap 0) (\<lambda>_ _ _. None) (\<lambda>_. zero_vol) 1 [slash] demo_fs) (\<lambda>(rc, s').
      fat_inv {} {} s' \<and> (case rc of Some e \<Rightarrow> mount_table s' = mount_table demo_fs
       | None \<Rightarrow> trimmed [slash] \<notin> dom (mount_table demo_fs) \<and> (\<exists>root. mount_table s' = (mount_table demo_fs)(trimmed [slash] \<mapsto> root))))"
    by simp
  from yieldsD [OF this 1] obtain root where 2: "mount_table s1 = [[slash] \<mapsto> root]" "fat_inv {} {} s1" by (auto simp: trim tab)
  have "\<exists>rc s'. fat32_vfs_unmount (kheap 0) [slash] s1 = ret (rc, s') \<and> fat_inv {} {} s' \<and>
      (rc = None \<longleftrightarrow> trimmed [slash] \<in> dom (mount_table s1)) \<and>
      mount_table s' = (if rc = None then (mount_table s1)(trimmed [slash] := None) else mount_table s1)"
    using fat_mount_table [OF 2(2), of "[slash]" 0] by simp
  then obtain s2 where "fat32_vfs_unmount (kheap 0) [slash] s1 = ret (None, s2)" "fat_inv {} {} s2" "mount_table s2 = Map.empty"
    by (auto simp: trim 2)
  then show ?thesis using 1 2 by blast
qed

end
