(* ===== verification/Spec2Isabelle.thy ===== *)
theory Spec2Isabelle
  imports Paging_Init Fat32_Vfs
begin

text \<open>
  A verification development for the VeloxOS kernel.

  \<^item> \<open>Velox_Prelude\<close>: integer types, panics as values, alignment helpers, word arithmetic.
  \<^item> \<open>Interfaces\<close>: the contracts between components, as locales.
  \<^item> \<open>Boot\<close>: \<^verbatim>\<open>boot/boot.h\<close>, \<^verbatim>\<open>boot/boot.c\<close>.
  \<^item> \<open>Pmm\<close>: the physical page allocator, \<^verbatim>\<open>mm/pmm.c\<close>.
\<close>

end
